(* ===== verification/Prelude.thy ===== *)
theory Prelude
  imports Main "HOL-Library.Word" "HOL-Library.AList" "HOL-Library.Multiset"
begin

text \<open>
  The vocabulary every component theory shares.

  \<^item> Fixed-width types of the source: \<open>u64\<close> for \<^verbatim>\<open>std::size_t\<close> and \<^verbatim>\<open>uint64_t\<close> counters
    (arithmetic wraps at \<open>2 ^ 64\<close>), \<open>u16\<close> for ports.
  \<^item> \<^verbatim>\<open>absl::node_hash_map\<close> with the operations the program uses.
  \<^item> Reachable states of a step relation and the locale \<open>inductive_invariant\<close>, in which the
    induction over reachable states is done once for all components; the locale
    \<open>forward_simulation\<close>, refinement of an abstract state machine.
  \<^item> The locale \<open>keyed_store\<close>, the contract of a keyed container that the plugin bundle, the
    session registry and the table of pending requests provide, and the locales \<open>bounded_queue\<close> and
    \<open>counting_queue\<close>, the contract of the three queues with an admission limit.
\<close>

type_synonym u64 = "64 word"
type_synonym u16 = "16 word"
type_synonym address = nat
type_synonym payload = "char list"

named_theorems vec_defs "definitions of the components' operations"
named_theorems vec_inv "operations preserve the components' invariants"

subsection \<open>Hash maps\<close>

text \<open>
  \<^verbatim>\<open>absl::node_hash_map\<close>: the entries in iteration order, which the library leaves open. \<^verbatim>\<open>m[k] = v\<close>
  overwrites, \<^verbatim>\<open>emplace\<close> and \<^verbatim>\<open>insert\<close> leave an existing entry alone, \<^verbatim>\<open>erase\<close> removes by key.
\<close>

type_synonym ('k, 'v) hash_map = "('k \<times> 'v) list"

definition hm_find :: "('k, 'v) hash_map \<Rightarrow> 'k \<Rightarrow> 'v option" where
  "hm_find m k = map_of m k"

definition hm_assign :: "'k \<Rightarrow> 'v \<Rightarrow> ('k, 'v) hash_map \<Rightarrow> ('k, 'v) hash_map" where
  "hm_assign k v m = AList.update k v m"

definition hm_emplace :: "'k \<Rightarrow> 'v \<Rightarrow> ('k, 'v) hash_map \<Rightarrow> ('k, 'v) hash_map" where
  "hm_emplace k v m = (case map_of m k of None \<Rightarrow> m @ [(k, v)] | Some _ \<Rightarrow> m)"

definition hm_erase :: "'k \<Rightarrow> ('k, 'v) hash_map \<Rightarrow> ('k, 'v) hash_map" where
  "hm_erase k m = AList.delete k m"

definition hm_wf :: "('k, 'v) hash_map \<Rightarrow> bool" where
  "hm_wf m \<longleftrightarrow> distinct (map fst m)"

lemma hm_find_Nil [simp]: "hm_find [] k = None"
  by (simp add: hm_find_def)

lemma hm_find_Cons [simp]: "hm_find ((k, v) # m) j = (if j = k then Some v else hm_find m j)"
  by (simp add: hm_find_def)

lemma hm_find_None_iff: "hm_find m k = None \<longleftrightarrow> k \<notin> fst ` set m"
  by (simp add: hm_find_def map_of_eq_None_iff)

lemma hm_find_assign [simp]: "hm_find (hm_assign k v m) = (hm_find m)(k \<mapsto> v)"
  by (simp add: hm_find_def hm_assign_def update_conv' fun_eq_iff)

lemma hm_find_erase [simp]: "hm_find (hm_erase k m) = (hm_find m)(k := None)"
  by (simp add: hm_find_def hm_erase_def delete_conv' fun_eq_iff)

lemma hm_find_emplace: "hm_find (hm_emplace k v m) = (hm_find m)(k := Some (case hm_find m k of None \<Rightarrow> v | Some w \<Rightarrow> w))"
  by (auto simp: hm_find_def hm_emplace_def fun_eq_iff map_add_def split: option.splits)

lemma hm_emplace_present: "hm_find m k = Some w \<Longrightarrow> hm_emplace k v m = m"
  by (simp add: hm_find_def hm_emplace_def)

lemma hm_wf_Nil [simp]: "hm_wf []"
  by (simp add: hm_wf_def)

lemma hm_wf_assign [simp]: "hm_wf m \<Longrightarrow> hm_wf (hm_assign k v m)"
  by (simp add: hm_wf_def hm_assign_def distinct_update)

lemma hm_wf_erase [simp]: "hm_wf m \<Longrightarrow> hm_wf (hm_erase k m)"
  by (simp add: hm_wf_def hm_erase_def distinct_delete)

lemma hm_wf_emplace [simp]: "hm_wf m \<Longrightarrow> hm_wf (hm_emplace k v m)"
  by (auto simp: hm_wf_def hm_emplace_def map_of_eq_None_iff split: option.splits)

lemma hm_find_Some_iff: "hm_wf m \<Longrightarrow> hm_find m k = Some v \<longleftrightarrow> (k, v) \<in> set m"
  by (simp add: hm_wf_def hm_find_def)

lemma length_hm_emplace:
  "length (hm_emplace k v m) = (if hm_find m k = None then Suc (length m) else length m)"
  by (auto simp: hm_find_def hm_emplace_def split: option.splits)

lemma length_hm_erase:
  "hm_wf m \<Longrightarrow> hm_find m k = Some v \<Longrightarrow> Suc (length (hm_erase k m)) = length m"
proof (induction m)
  case (Cons a m)
  then show ?case
    by (cases a) (auto simp: hm_wf_def hm_find_def hm_erase_def delete_idem split: if_splits)
qed simp

lemma length_hm_erase_absent: "hm_find m k = None \<Longrightarrow> hm_erase k m = m"
  by (simp add: hm_find_def hm_erase_def map_of_eq_None_iff delete_idem)

subsection \<open>Reachable states and invariants\<close>

inductive reachable :: "('s \<Rightarrow> bool) \<Rightarrow> ('s \<Rightarrow> 's \<Rightarrow> bool) \<Rightarrow> 's \<Rightarrow> bool"
  for init :: "'s \<Rightarrow> bool" and step :: "'s \<Rightarrow> 's \<Rightarrow> bool"
where
  reachable_init: "init s \<Longrightarrow> reachable init step s"
| reachable_step: "reachable init step s \<Longrightarrow> step s t \<Longrightarrow> reachable init step t"

lemma reachable_weaken: "reachable (\<lambda>s. I s \<and> J s) step s \<Longrightarrow> reachable I step s"
  by (induction rule: reachable.induct) (auto intro: reachable.intros)

lemma reachable_steps: "reachable I step s \<Longrightarrow> \<exists>s0. I s0 \<and> step\<^sup>*\<^sup>* s0 s"
  by (induction rule: reachable.induct) (auto intro: rtranclp.rtrancl_into_rtrancl)

text \<open>
  An invariant of a state machine: it holds initially and every step keeps it. The component
  theories interpret this locale with their own initial states, steps and invariants.
\<close>

locale inductive_invariant =
  fixes init :: "'s \<Rightarrow> bool"
    and step :: "'s \<Rightarrow> 's \<Rightarrow> bool"
    and inv :: "'s \<Rightarrow> bool"
  assumes base: "init s \<Longrightarrow> inv s"
    and preserved: "step s t \<Longrightarrow> inv s \<Longrightarrow> inv t"
begin

lemma reachable_inv: "reachable init step s \<Longrightarrow> inv s"
  by (induction rule: reachable.induct) (auto intro: base preserved)

lemma steps_inv: "step\<^sup>*\<^sup>* s t \<Longrightarrow> inv s \<Longrightarrow> inv t"
  by (induction rule: rtranclp_induct) (auto intro: preserved)

end

text \<open>
  Refinement of an abstract state machine: every step of the program is seen by \<open>absf\<close> as zero or
  more steps of the specification. Runs are then runs of the specification, and what the
  specification's steps keep holds of the program.
\<close>

locale forward_simulation =
  fixes step :: "'s \<Rightarrow> 's \<Rightarrow> bool"
    and astep :: "'a \<Rightarrow> 'a \<Rightarrow> bool"
    and absf :: "'s \<Rightarrow> 'a"
    and ok :: "'s \<Rightarrow> bool"
  assumes ok_step: "step s t \<Longrightarrow> ok s \<Longrightarrow> ok t"
    and simulates: "step s t \<Longrightarrow> ok s \<Longrightarrow> astep\<^sup>*\<^sup>* (absf s) (absf t)"
begin

lemma refines: "step\<^sup>*\<^sup>* s t \<Longrightarrow> ok s \<Longrightarrow> astep\<^sup>*\<^sup>* (absf s) (absf t) \<and> ok t"
  by (induction rule: rtranclp_induct) (auto intro: ok_step dest: simulates)

lemma transfers:
  assumes kept: "\<And>a b. astep a b \<Longrightarrow> P a \<Longrightarrow> P b"
    and run: "step\<^sup>*\<^sup>* s t" and ok: "ok s" and start: "P (absf s)"
  shows "P (absf t)"
proof -
  have "P b" if "astep\<^sup>*\<^sup>* (absf s) b" for b
    using that start by (induction rule: rtranclp_induct) (auto intro: kept)
  with refines [OF run ok] show ?thesis by blast
qed

end

subsection \<open>Keyed containers\<close>

locale keyed_store =
  fixes lookup :: "'m \<Rightarrow> 'k \<Rightarrow> 'v option"
    and store :: "'k \<Rightarrow> 'v \<Rightarrow> 'm \<Rightarrow> 'm"
    and remove :: "'k \<Rightarrow> 'm \<Rightarrow> 'm"
  assumes lookup_store: "lookup m k = None \<Longrightarrow> lookup (store k v m) k = Some v"
    and lookup_store_other: "j \<noteq> k \<Longrightarrow> lookup (store k v m) j = lookup m j"
    and lookup_remove: "lookup (remove k m) k = None"
    and lookup_remove_other: "j \<noteq> k \<Longrightarrow> lookup (remove k m) j = lookup m j"
begin

lemma store_then_remove:
  "lookup m k = None \<Longrightarrow> lookup (remove k (store k v m)) = lookup m"
  by (metis ext lookup_remove lookup_remove_other lookup_store_other)

lemma remove_then_store:
  "lookup (store k v (remove k m)) = (lookup m)(k \<mapsto> v)"
  by (auto simp: fun_eq_iff lookup_store lookup_remove lookup_store_other lookup_remove_other)

lemma stores_commute:
  "j \<noteq> k \<Longrightarrow> lookup m j = None \<Longrightarrow> lookup m k = None \<Longrightarrow>
     lookup (store j v (store k w m)) = lookup (store k w (store j v m))"
proof (rule ext)
  fix x
  assume "j \<noteq> k" "lookup m j = None" "lookup m k = None"
  then show "lookup (store j v (store k w m)) x = lookup (store k w (store j v m)) x"
    by (cases "x = j"; cases "x = k") (auto simp: lookup_store lookup_store_other)
qed

end

subsection \<open>Bounded queues\<close>

text \<open>
  The contract of a queue with an admission limit: an element is appended when fewer than \<open>cap\<close> are
  waiting and refused otherwise. The write queue, the log adapter and the task processor provide it
  (in the situations described by \<open>ready\<close>); a burst of elements is analysed here once.
\<close>

locale bounded_queue =
  fixes enqueue :: "'x \<Rightarrow> 'q \<Rightarrow> 'q"
    and items :: "'q \<Rightarrow> 'x list"
    and cap :: "'q \<Rightarrow> nat"
    and ready :: "'q \<Rightarrow> bool"
  assumes items_enqueue: "ready q \<Longrightarrow>
      items (enqueue x q) = (if length (items q) < cap q then items q @ [x] else items q)"
    and cap_enqueue: "ready q \<Longrightarrow> cap (enqueue x q) = cap q"
    and ready_enqueue: "ready q \<Longrightarrow> ready (enqueue x q)"
begin

lemma burst:
  "ready q \<Longrightarrow> items (fold enqueue xs q) = items q @ take (cap q - length (items q)) xs"
proof (induction xs arbitrary: q)
  case (Cons x xs)
  then have "items (fold enqueue xs (enqueue x q)) =
      items (enqueue x q) @ take (cap q - length (items (enqueue x q))) xs"
    by (simp add: ready_enqueue cap_enqueue)
  with Cons.prems show ?case
    by (auto simp: items_enqueue take_Cons' Suc_diff_Suc)
qed simp

lemma burst_bound:
  "ready q \<Longrightarrow> length (items q) \<le> cap q \<Longrightarrow> length (items (fold enqueue xs q)) \<le> cap q"
  by (simp add: burst)

lemma ready_burst: "ready q \<Longrightarrow> ready (fold enqueue xs q)"
  by (induction xs arbitrary: q) (auto simp: ready_enqueue)

end

text \<open>A bounded queue that counts the elements it refused (modulo the width of the counter).\<close>

locale counting_queue = bounded_queue +
  fixes dropped :: "'b \<Rightarrow> u64"
  assumes dropped_enqueue: "ready q \<Longrightarrow>
      dropped (enqueue x q) = (if length (items q) < cap q then dropped q else dropped q + 1)"
begin

lemma burst_dropped:
  "ready q \<Longrightarrow>
     dropped (fold enqueue xs q) = dropped q + of_nat (length xs - (cap q - length (items q)))"
proof (induction xs arbitrary: q)
  case (Cons x xs)
  then have "dropped (fold enqueue xs (enqueue x q)) =
      dropped (enqueue x q) + of_nat (length xs - (cap q - length (items (enqueue x q))))"
    by (simp add: ready_enqueue cap_enqueue)
  with Cons.prems show ?case
    by (auto simp: items_enqueue dropped_enqueue Suc_diff_Suc Suc_diff_le)
qed simp

end

subsection \<open>Decimal numbers\<close>

text \<open>\<^verbatim>\<open>std::to_string\<close> and the formats \<^verbatim>\<open>%zu\<close> and \<^verbatim>\<open>%llu\<close> on unsigned numbers.\<close>

fun to_string :: "nat \<Rightarrow> string" where
  "to_string n =
     (if n < 10 then [char_of (48 + n)] else to_string (n div 10) @ [char_of (48 + n mod 10)])"

declare to_string.simps [simp del]

definition of_digits :: "string \<Rightarrow> nat" where
  "of_digits s = foldl (\<lambda>n c. 10 * n + (of_char c - 48)) 0 s"

lemma of_digits_to_string [simp]: "of_digits (to_string n) = n"
proof (induction n rule: to_string.induct)
  case (1 n)
  show ?case
  proof (cases "n < 10")
    case True
    then have "(48 + n) mod 256 = 48 + n" by simp
    with True show ?thesis by (subst to_string.simps) (simp add: of_digits_def)
  next
    case False
    then have "(48 + n mod 10) mod 256 = 48 + n mod 10" by simp
    with False 1 [OF False] show ?thesis by (subst to_string.simps) (simp add: of_digits_def)
  qed
qed

lemma to_string_inj: "to_string m = to_string n \<longleftrightarrow> m = n"
  by (metis of_digits_to_string)

subsection \<open>Words and lists\<close>

lemma unat_u64_less: "unat (x :: u64) < 2 ^ 64"
  by (rule order_less_le_trans [OF unsigned_less]) simp

lemma unat_of_nat_u64: "n < 2 ^ 64 \<Longrightarrow> unat (of_nat n :: u64) = n"
  by (simp add: unat_of_nat take_bit_nat_eq_self)

lemma of_nat_u64_inj: "i < 2 ^ 64 \<Longrightarrow> j < 2 ^ 64 \<Longrightarrow> (of_nat i :: u64) = of_nat j \<longleftrightarrow> i = j"
  by (metis unat_of_nat_u64)

lemma list_all_update: "list_all P xs \<Longrightarrow> P x \<Longrightarrow> list_all P (xs[i := x])"
  by (auto simp: list_all_iff dest: set_update_subset_insert [THEN subsetD])

lemma take_Suc_nth: "i < length xs \<Longrightarrow> take (Suc i) xs = take i xs @ [xs ! i]"
  by (rule take_Suc_conv_app_nth)

lemma mset_concat_update:
  "i < length qs \<Longrightarrow> mset (concat (qs[i := q])) + mset (qs ! i) = mset (concat qs) + mset q"
  by (induction qs arbitrary: i) (auto split: nat.splits simp: ac_simps)

lemma length_concat_update:
  "i < length qs \<Longrightarrow>
     length (concat (qs[i := q])) + length (qs ! i) = length (concat qs) + length q"
  using arg_cong [OF mset_concat_update [of i qs q], of size] by simp

end
