(* ===== verification/Write_Queue_SG.thy ===== *)
theory Write_Queue_SG
  imports Prelude
begin

text \<open>
  \<^verbatim>\<open>src/src/vectro/stream/write_queue_sg.h\<close>: the scatter/gather write queue. Every public call runs
  as one handler of the strand, so an operation is one atomic function of the queue's state that
  returns the new state and its effects on the outside, in order: an \<^verbatim>\<open>asio::async_write\<close> started on
  the stream (with the completion handler it captured), a completion handler called with a success
  flag, the stream cancelled. The stream itself is the environment: \<open>wq_sys\<close> keeps the writes in
  flight and the history, and \<open>wq_step\<close> lets sends, completions with either result, both kinds of
  close and the backpressure switch happen in any order.
\<close>

subsection \<open>The class\<close>

record ('b, 'h) write_queue =
  wq_queue :: "('b \<times> 'h option) list"
  max_queue_size :: nat
  max_queue_enabled :: bool
  writing :: bool
  graceful_shutdown :: bool

datatype ('b, 'h) wq_effect =
    StartWrite 'b "'h option"
  | CallHandler 'h bool
  | CancelStream

definition wq_new :: "nat \<Rightarrow> ('b, 'h) write_queue" where
  "wq_new max_queue =
     \<lparr>wq_queue = [], max_queue_size = max_queue, max_queue_enabled = True, writing = False,
      graceful_shutdown = False\<rparr>"

definition wq_EnableMaxQueue :: "bool \<Rightarrow> ('b, 'h) write_queue \<Rightarrow> ('b, 'h) write_queue" where
  "wq_EnableMaxQueue enable q = q\<lparr>max_queue_enabled := enable\<rparr>"

definition wq_DoWrite :: "('b, 'h) write_queue \<Rightarrow> ('b, 'h) write_queue \<times> ('b, 'h) wq_effect list" where
  "wq_DoWrite q =
     (case wq_queue q of
        [] \<Rightarrow>
          (let q1 = q\<lparr>writing := False\<rparr>
           in (if graceful_shutdown q then q1\<lparr>wq_queue := []\<rparr> else q1, []))
      | (buffers, handler) # rest \<Rightarrow>
          (q\<lparr>writing := True, wq_queue := rest\<rparr>, [StartWrite buffers handler]))"

definition wq_full :: "('b, 'h) write_queue \<Rightarrow> bool" where
  "wq_full q \<longleftrightarrow> max_queue_enabled q \<and> max_queue_size q \<le> length (wq_queue q)"

definition wq_AsyncSend ::
  "'b \<Rightarrow> 'h option \<Rightarrow> ('b, 'h) write_queue \<Rightarrow> ('b, 'h) write_queue \<times> ('b, 'h) wq_effect list" where
  "wq_AsyncSend buffers handler q =
     (if wq_full q
      then (q, case handler of Some h \<Rightarrow> [CallHandler h False] | None \<Rightarrow> [])
      else let q1 = q\<lparr>wq_queue := wq_queue q @ [(buffers, handler)]\<rparr>
           in if \<not> writing q1 then wq_DoWrite q1 else (q1, []))"

definition wq_Close :: "bool \<Rightarrow> ('b, 'h) write_queue \<Rightarrow> ('b, 'h) write_queue \<times> ('b, 'h) wq_effect list" where
  "wq_Close force q =
     (if force then (q\<lparr>wq_queue := [], writing := False\<rparr>, [CancelStream])
      else (q\<lparr>graceful_shutdown := True\<rparr>, []))"

text \<open>The completion handler \<^verbatim>\<open>DoWrite\<close> binds to the write; \<open>ok\<close> is \<^verbatim>\<open>!ec\<close>.\<close>

definition wq_on_written ::
  "'h option \<Rightarrow> bool \<Rightarrow> ('b, 'h) write_queue \<Rightarrow> ('b, 'h) write_queue \<times> ('b, 'h) wq_effect list" where
  "wq_on_written handler ok q =
     (let called = (case handler of Some h \<Rightarrow> [CallHandler h ok] | None \<Rightarrow> []);
          (q', effs) = (if ok then wq_DoWrite q else (q\<lparr>wq_queue := []\<rparr>, []))
      in (q', called @ effs))"

lemmas wq_ops [vec_defs] =
  wq_new_def wq_EnableMaxQueue_def wq_DoWrite_def wq_full_def wq_AsyncSend_def wq_Close_def
  wq_on_written_def

subsection \<open>The queue and its stream\<close>

text \<open>
  \<open>inflight\<close>: writes started and not completed. \<open>accepted\<close>, \<open>started\<close>, \<open>calls\<close>: the sends the queue
  admitted, the writes it started and the handlers it called, oldest first.
\<close>

record ('b, 'h) wq_sys =
  wq :: "('b, 'h) write_queue"
  inflight :: "('b \<times> 'h option) list"
  accepted :: "('b \<times> 'h option) list"
  started :: "('b \<times> 'h option) list"
  calls :: "('h \<times> bool) list"

fun wq_perform :: "('b, 'h) wq_effect \<Rightarrow> ('b, 'h) wq_sys \<Rightarrow> ('b, 'h) wq_sys" where
  "wq_perform (StartWrite b h) s = s\<lparr>inflight := inflight s @ [(b, h)], started := started s @ [(b, h)]\<rparr>"
| "wq_perform (CallHandler h ok) s = s\<lparr>calls := calls s @ [(h, ok)]\<rparr>"
| "wq_perform CancelStream s = s"

datatype ('b, 'h) wq_event =
    EvSend 'b "'h option"
  | EvWritten nat bool
  | EvClose bool
  | EvEnable bool

text \<open>
  One event. A completion concerns some write in flight (\<open>i\<close>); without one it is no event.
  Cancelling the stream only makes the writes in flight complete with an error later.
\<close>

definition wq_event :: "('b, 'h) wq_event \<Rightarrow> ('b, 'h) wq_sys \<Rightarrow> ('b, 'h) wq_sys" where
  "wq_event ev s =
     (case ev of
        EvSend b h \<Rightarrow>
          (let (q', effs) = wq_AsyncSend b h (wq s);
               s1 = s\<lparr>wq := q', accepted := accepted s @ (if wq_full (wq s) then [] else [(b, h)])\<rparr>
           in fold wq_perform effs s1)
      | EvWritten i ok \<Rightarrow>
          if i < length (inflight s) then
            (let (q', effs) = wq_on_written (snd (inflight s ! i)) ok (wq s);
                 s1 = s\<lparr>wq := q', inflight := take i (inflight s) @ drop (Suc i) (inflight s)\<rparr>
             in fold wq_perform effs s1)
          else s
      | EvClose force \<Rightarrow>
          (let (q', effs) = wq_Close force (wq s) in fold wq_perform effs (s\<lparr>wq := q'\<rparr>))
      | EvEnable e \<Rightarrow> s\<lparr>wq := wq_EnableMaxQueue e (wq s)\<rparr>)"

definition wq_start :: "nat \<Rightarrow> ('b, 'h) wq_sys" where
  "wq_start n = \<lparr>wq = wq_new n, inflight = [], accepted = [], started = [], calls = []\<rparr>"

text \<open>Runs in which the events satisfy \<open>ok\<close>.\<close>

inductive wq_step :: "(('b, 'h) wq_event \<Rightarrow> bool) \<Rightarrow> ('b, 'h) wq_sys \<Rightarrow> ('b, 'h) wq_sys \<Rightarrow> bool"
  for ok :: "('b, 'h) wq_event \<Rightarrow> bool" where
  "ok ev \<Longrightarrow> wq_step ok s (wq_event ev s)"

inductive_cases wq_stepE [elim!]: "wq_step ok s t"

subsection \<open>Invariants\<close>

text \<open>Backpressure: without switching it off, the queue never exceeds its limit.\<close>

definition wq_bounded :: "('b, 'h) wq_sys \<Rightarrow> bool" where
  "wq_bounded s \<longleftrightarrow> max_queue_enabled (wq s) \<and> length (wq_queue (wq s)) \<le> max_queue_size (wq s)"

text \<open>
  Ordering: as long as no write fails and no close is forced, what was accepted is exactly what was
  started followed by what is queued, one write is in flight while \<open>writing\<close> holds and none
  otherwise, the handlers called with success are those of the completed writes in order, and
  nothing waits while the stream is idle.
\<close>

definition handlers_of :: "('b \<times> 'h option) list \<Rightarrow> 'h list" where
  "handlers_of ws = List.map_filter snd ws"

definition ok_calls :: "('b, 'h) wq_sys \<Rightarrow> 'h list" where
  "ok_calls s = map fst (filter snd (calls s))"

definition wq_ordered :: "('b, 'h) wq_sys \<Rightarrow> bool" where
  "wq_ordered s \<longleftrightarrow>
     accepted s = started s @ wq_queue (wq s) \<and>
     length (inflight s) = (if writing (wq s) then 1 else 0) \<and>
     (\<exists>done. started s = done @ inflight s \<and> ok_calls s = handlers_of done) \<and>
     (\<not> writing (wq s) \<longrightarrow> wq_queue (wq s) = [])"

definition no_disable :: "('b, 'h) wq_event \<Rightarrow> bool" where
  "no_disable ev \<longleftrightarrow> ev \<noteq> EvEnable False"

fun no_failure :: "('b, 'h) wq_event \<Rightarrow> bool" where
  "no_failure (EvWritten i ok) = ok"
| "no_failure (EvClose force) = (\<not> force)"
| "no_failure _ = True"

lemma handlers_of_simps [simp]:
  "handlers_of [] = []" "handlers_of ((b, None) # ws) = handlers_of ws"
  "handlers_of ((b, Some h) # ws) = h # handlers_of ws" "handlers_of (vs @ ws) = handlers_of vs @ handlers_of ws"
  by (simp_all add: handlers_of_def List.map_filter_def)

lemma wq_event_bounded:
  assumes "no_disable ev" and "wq_bounded s"
  shows "wq_bounded (wq_event ev s)"
proof (cases ev)
  case (EvSend b h)
  with assms show ?thesis
    by (cases "wq_queue (wq s)") (auto simp: wq_event_def wq_bounded_def wq_ops Let_def split: option.splits)
next
  case (EvWritten i ok)
  with assms show ?thesis
    by (cases "wq_queue (wq s)")
      (auto simp: wq_event_def wq_bounded_def wq_ops Let_def split: option.splits)
qed (use assms in \<open>auto simp: wq_event_def wq_bounded_def no_disable_def wq_ops\<close>)

lemma wq_event_ordered:
  assumes "no_failure ev" and "wq_ordered s"
  shows "wq_ordered (wq_event ev s)"
proof (cases ev)
  case (EvSend b h)
  with assms show ?thesis
    by (cases "wq_queue (wq s)"; cases h)
      (auto simp: wq_event_def wq_ordered_def wq_ops ok_calls_def Let_def split: if_splits)
next
  case (EvWritten i ok)
  show ?thesis
  proof (cases "i < length (inflight s)")
    case True
    with assms(2) obtain b h where fl: "inflight s = [(b, h)]" "i = 0" "writing (wq s)"
      by (auto simp: wq_ordered_def length_Suc_conv split: if_splits)
    with assms EvWritten show ?thesis
      by (cases "wq_queue (wq s)"; cases h)
        (auto simp: wq_event_def wq_ordered_def wq_ops ok_calls_def Let_def)
  qed (use assms EvWritten in \<open>simp add: wq_event_def\<close>)
qed (use assms in \<open>auto simp: wq_event_def wq_ordered_def wq_ops ok_calls_def\<close>)

interpretation wq_bound: inductive_invariant "\<lambda>s. s = wq_start n" "wq_step no_disable" wq_bounded
proof
  fix s :: "('a, 'b) wq_sys"
  assume "s = wq_start n"
  then show "wq_bounded s" by (simp add: wq_start_def wq_bounded_def wq_new_def)
qed (auto intro: wq_event_bounded)

interpretation wq_order: inductive_invariant "\<lambda>s. s = wq_start n" "wq_step no_failure" wq_ordered
proof
  fix s :: "('a, 'b) wq_sys"
  assume "s = wq_start n"
  then show "wq_ordered s" by (simp add: wq_start_def wq_ordered_def wq_new_def ok_calls_def)
qed (auto intro: wq_event_ordered)

subsection \<open>The bounded-queue contract\<close>

text \<open>While a write is in progress and enforcement is on, \<^verbatim>\<open>AsyncSend\<close> is a bounded enqueue.\<close>

interpretation wq_fifo: bounded_queue
  "\<lambda>(b, h) q. fst (wq_AsyncSend b h q)" wq_queue max_queue_size "\<lambda>q. writing q \<and> max_queue_enabled q"
  by unfold_locales (auto simp: wq_ops Let_def)

subsection \<open>Draining\<close>

text \<open>Successful completions, one after the other, of whatever is in flight.\<close>

definition wq_complete :: "nat \<Rightarrow> ('b, 'h) wq_sys \<Rightarrow> ('b, 'h) wq_sys" where
  "wq_complete k s = (wq_event (EvWritten 0 True) ^^ k) s"

lemma wq_complete_Suc: "wq_complete (Suc k) s = wq_complete k (wq_event (EvWritten 0 True) s)"
  by (simp add: wq_complete_def funpow_swap1)

lemma wq_written_ordered: "wq_ordered s \<Longrightarrow> wq_ordered (wq_event (EvWritten 0 True) s)"
  by (rule wq_event_ordered) simp_all

lemma wq_complete_one:
  assumes "wq_ordered s" and "wq_queue (wq s) = x # xs"
  shows "wq_queue (wq (wq_event (EvWritten 0 True) s)) = xs"
    and "accepted (wq_event (EvWritten 0 True) s) = accepted s"
proof -
  from assms obtain b h where "inflight s = [(b, h)]" "writing (wq s)"
    by (auto simp: wq_ordered_def length_Suc_conv split: if_splits)
  with assms show "wq_queue (wq (wq_event (EvWritten 0 True) s)) = xs"
    and "accepted (wq_event (EvWritten 0 True) s) = accepted s"
    by (cases x; cases h; simp add: wq_event_def wq_ops Let_def)+
qed

lemma wq_complete_last:
  assumes "wq_ordered s" and "wq_queue (wq s) = []"
  shows "inflight (wq_event (EvWritten 0 True) s) = [] \<and> accepted (wq_event (EvWritten 0 True) s) = accepted s \<and>
    wq_queue (wq (wq_event (EvWritten 0 True) s)) = []"
proof (cases "writing (wq s)")
  case True
  with assms obtain b h where "inflight s = [(b, h)]"
    by (auto simp: wq_ordered_def length_Suc_conv)
  with assms show ?thesis
    by (cases h) (auto simp: wq_event_def wq_ops Let_def)
next
  case False
  with assms show ?thesis by (simp add: wq_event_def wq_ordered_def)
qed

lemma wq_complete_drains:
  "wq_ordered s \<Longrightarrow> k = length (wq_queue (wq s)) \<Longrightarrow>
     wq_ordered (wq_complete (Suc k) s) \<and> inflight (wq_complete (Suc k) s) = [] \<and>
     wq_queue (wq (wq_complete (Suc k) s)) = [] \<and> accepted (wq_complete (Suc k) s) = accepted s"
proof (induction k arbitrary: s)
  case 0
  then show ?case using wq_complete_last [of s] wq_written_ordered [of s] by (simp add: wq_complete_def)
next
  case (Suc k)
  then obtain x xs where q: "wq_queue (wq s) = x # xs" by (metis length_Suc_conv)
  let ?s = "wq_event (EvWritten 0 True) s"
  have "wq_ordered ?s" "k = length (wq_queue (wq ?s))" "accepted ?s = accepted s"
    using Suc.prems q by (simp_all add: wq_written_ordered wq_complete_one)
  moreover have "wq_complete (Suc (Suc k)) s = wq_complete (Suc k) ?s" by (rule wq_complete_Suc)
  ultimately show ?case using Suc.IH [of ?s] by (simp only:)
qed

text \<open>A state no completion can move any more: \<open>writing\<close> holds and nothing is in flight.\<close>

definition wq_stalled :: "('b, 'h) wq_sys \<Rightarrow> bool" where
  "wq_stalled s \<longleftrightarrow> writing (wq s) \<and> inflight s = []"

fun no_force :: "('b, 'h) wq_event \<Rightarrow> bool" where
  "no_force (EvClose force) = (\<not> force)"
| "no_force _ = True"

lemma wq_stalled_event:
  assumes "no_force ev" and "wq_stalled s"
  shows "wq_stalled (wq_event ev s) \<and> started (wq_event ev s) = started s"
proof (cases ev)
  case (EvSend b h)
  with assms show ?thesis
    by (cases h) (auto simp: wq_event_def wq_stalled_def wq_ops Let_def)
qed (use assms in \<open>auto simp: wq_event_def wq_stalled_def wq_ops\<close>)

interpretation wq_stall: inductive_invariant
  "\<lambda>s. wq_stalled s \<and> started s = ws" "wq_step no_force" "\<lambda>s. wq_stalled s \<and> started s = ws"
  by unfold_locales (auto dest: wq_stalled_event)

lemma wq_fail_stalls:
  assumes "wq_ordered s" and "writing (wq s)"
  shows "wq_stalled (wq_event (EvWritten 0 False) s) \<and>
    started (wq_event (EvWritten 0 False) s) = started s \<and>
    wq_queue (wq (wq_event (EvWritten 0 False) s)) = []"
proof -
  from assms obtain b h where "inflight s = [(b, h)]"
    by (auto simp: wq_ordered_def length_Suc_conv)
  with assms show ?thesis
    by (cases h) (auto simp: wq_event_def wq_stalled_def wq_ops)
qed

subsection \<open>Properties\<close>


lemma wq_two_sends_reachable:
  "ok (EvSend ''a'' (Some 1)) \<Longrightarrow> ok (EvSend ''b'' (Some 2)) \<Longrightarrow>
   reachable (\<lambda>s. s = wq_start 1) (wq_step ok)
     (wq_event (EvSend ''b'' (Some (2 :: nat))) (wq_event (EvSend ''a'' (Some 1)) (wq_start 1)))"
  by (rule reachable_step [OF reachable_step [OF reachable_init]]) (auto intro: wq_step.intros)


text \<open>
  C1. Ordered delivery. As long as no write fails and no close is forced, the writes started are,
  in order and without loss or duplication, the sends accepted minus those still queued; at most
  one write is in flight; and the handlers called with success are those of the completed writes,
  in order.
\<close>

theorem wq_in_order:
  assumes "reachable (\<lambda>s. s = wq_start n) (wq_step no_failure) s"
  shows "accepted s = started s @ wq_queue (wq s) \<and> length (inflight s) \<le> 1 \<and>
    ok_calls s = handlers_of (take (length (started s) - length (inflight s)) (started s)) \<and>
    (writing (wq s) \<longleftrightarrow> inflight s \<noteq> [])"
proof -
  have "wq_ordered s" by (rule wq_order.reachable_inv [OF assms])
  then show ?thesis by (auto simp: wq_ordered_def split: if_splits)
qed

theorem wq_in_order_witness:
  "ok_calls (wq_event (EvSend ''b'' (Some (2 :: nat))) (wq_event (EvSend ''a'' (Some 1)) (wq_start 1))) = []"
  using wq_in_order [OF wq_two_sends_reachable [where ok = no_failure]]
  by (simp add: wq_event_def wq_start_def wq_ops)

text \<open>
  A burst. Sends arriving while a write is in progress are appended in order up to the free
  space and the rest is refused.
\<close>

theorem wq_burst:
  assumes "writing q" and "max_queue_enabled q"
  shows "wq_queue (fold (\<lambda>(b, h) q. fst (wq_AsyncSend b h q)) sends q) =
    wq_queue q @ take (max_queue_size q - length (wq_queue q)) sends"
  using wq_fifo.burst [of q sends] assms by simp

theorem wq_burst_witness:
  "wq_queue (fold (\<lambda>(b, h) q. fst (wq_AsyncSend b h q)) [(1 :: nat, None :: nat option), (2, None), (3, None)]
     (fst (wq_AsyncSend 0 None (wq_new 2)))) = [(1, None), (2, None)]"
  using wq_burst [of "fst (wq_AsyncSend (0 :: nat) (None :: nat option) (wq_new 2))" "[(1, None), (2, None), (3, None)]"]
  by (simp add: wq_ops)



text \<open>
  A failed write stalls the queue. Once the write in flight fails, the queued sends are gone
  and their handlers are never called; \<^verbatim>\<open>writing_\<close> stays set, so whatever is sent, completed or
  closed gracefully afterwards, no write is ever started again.
\<close>

theorem wq_stalls_after_error:
  assumes "reachable (\<lambda>s. s = wq_start n) (wq_step no_failure) s" and "writing (wq s)"
    and "(wq_step no_force)\<^sup>*\<^sup>* (wq_event (EvWritten 0 False) s) t"
  shows "started t = started s \<and> inflight t = [] \<and> writing (wq t) \<and>
    wq_queue (wq (wq_event (EvWritten 0 False) s)) = []"
proof -
  have "wq_ordered s" by (rule wq_order.reachable_inv [OF assms(1)])
  note f = wq_fail_stalls [OF this assms(2)]
  then have "wq_stalled t \<and> started t = started s"
    by (intro wq_stall.steps_inv [OF assms(3)]) simp
  with f show ?thesis by (simp add: wq_stalled_def)
qed

theorem wq_stalls_after_error_witness:
  "started (wq_event (EvSend ''c'' (Some (3 :: nat))) (wq_event (EvWritten 0 False)
     (wq_event (EvSend ''b'' (Some 2)) (wq_event (EvSend ''a'' (Some 1)) (wq_start 1))))) = [(''a'', Some 1)]"
proof -
  let ?s = "wq_event (EvSend ''b'' (Some (2 :: nat))) (wq_event (EvSend ''a'' (Some 1)) (wq_start 1))"
  have s: "started ?s = [(''a'', Some 1)]" "writing (wq ?s)"
    by (simp_all add: wq_event_def wq_start_def wq_ops)
  have "(wq_step no_force)\<^sup>*\<^sup>* (wq_event (EvWritten 0 False) ?s)
      (wq_event (EvSend ''c'' (Some 3)) (wq_event (EvWritten 0 False) ?s))"
    by (rule r_into_rtranclp) (rule wq_step.intros, simp)
  with s show ?thesis
    using wq_stalls_after_error [OF wq_two_sends_reachable [where ok = no_failure] s(2)] by simp
qed

text \<open>
  Overlapping writes after a forced close. The close clears \<^verbatim>\<open>writing_\<close> although the cancelled
  write has not completed, so the next send starts a second write on the same stream: two are in
  flight at once.
\<close>

theorem wq_force_close_overlaps:
  assumes "reachable (\<lambda>s. s = wq_start n) (wq_step no_failure) s" and "writing (wq s)"
    and "0 < max_queue_size (wq s)"
  shows "length (inflight (wq_event (EvSend b h) (wq_event (EvClose True) s))) = 2"
proof -
  have "wq_ordered s" by (rule wq_order.reachable_inv [OF assms(1)])
  with assms(2,3) show ?thesis by (auto simp: wq_ordered_def wq_event_def wq_ops)
qed

theorem wq_force_close_overlaps_witness:
  "length (inflight (wq_event (EvSend ''c'' None) (wq_event (EvClose True)
     (wq_event (EvSend ''b'' (Some (2 :: nat))) (wq_event (EvSend ''a'' (Some 1)) (wq_start 1)))))) = 2"
  by (rule wq_force_close_overlaps [OF wq_two_sends_reachable [where ok = no_failure]])
    (simp_all add: wq_event_def wq_start_def wq_ops)

end
