(* ===== verification/Plugin_Bundle.thy ===== *)
theory Plugin_Bundle
  imports Prelude
begin

text \<open>
  \<^verbatim>\<open>src/src/vectro/plugin/\<close>: the bundle of named plugins of a session, client or server. A plugin
  is a \<^verbatim>\<open>shared_ptr\<close>, so the stored value is \<open>'p option\<close> with \<open>None\<close> for a null pointer; the dynamic
  cast of \<^verbatim>\<open>GetTypedPlugin\<close> is a parameter.
\<close>

type_synonym 'p plugin_bundle = "(string, 'p option) hash_map"

definition kRateLimiter :: string where "kRateLimiter = ''ratelimiter''"
definition kOverloadShedder :: string where "kOverloadShedder = ''shedder''"
definition kSessionTagger :: string where "kSessionTagger = ''tagger''"
definition kInterceptor :: string where "kInterceptor = ''interceptor''"
definition kHeartbeatEmitter :: string where "kHeartbeatEmitter = ''heartbeat''"

definition pb_Set :: "string \<Rightarrow> 'p option \<Rightarrow> 'p plugin_bundle \<Rightarrow> 'p plugin_bundle" where
  "pb_Set key plugin b = hm_assign key plugin b"

definition pb_Get :: "string \<Rightarrow> 'p plugin_bundle \<Rightarrow> 'p option" where
  "pb_Get key b = (case hm_find b key of Some v \<Rightarrow> v | None \<Rightarrow> None)"

definition pb_GetRef :: "string \<Rightarrow> 'p plugin_bundle \<Rightarrow> 'p option" where
  "pb_GetRef key b = (case hm_find b key of Some v \<Rightarrow> v | None \<Rightarrow> None)"

definition pb_Remove :: "string \<Rightarrow> 'p plugin_bundle \<Rightarrow> 'p plugin_bundle" where
  "pb_Remove key b = hm_erase key b"

definition pb_Has :: "string \<Rightarrow> 'p plugin_bundle \<Rightarrow> bool" where
  "pb_Has key b \<longleftrightarrow> hm_find b key \<noteq> None"

definition pb_MergeFrom :: "'p plugin_bundle \<Rightarrow> 'p plugin_bundle \<Rightarrow> 'p plugin_bundle" where
  "pb_MergeFrom fallback b = fold (\<lambda>(k, v) m. hm_emplace k v m) fallback b"

definition pb_OverlayWith :: "'p plugin_bundle \<Rightarrow> 'p plugin_bundle \<Rightarrow> 'p plugin_bundle" where
  "pb_OverlayWith upper b = fold (\<lambda>(k, v) m. hm_assign k v m) upper b"

definition pb_IsEmpty :: "'p plugin_bundle \<Rightarrow> bool" where
  "pb_IsEmpty b \<longleftrightarrow> b = []"

definition GetTypedPlugin :: "('p \<Rightarrow> 't option) \<Rightarrow> 'p plugin_bundle \<Rightarrow> string \<Rightarrow> 't option" where
  "GetTypedPlugin dynamic_cast bundle key =
     (case pb_Get key bundle of Some base \<Rightarrow> dynamic_cast base | None \<Rightarrow> None)"

subsection \<open>Lookup after every operation\<close>

lemma hm_find_MergeFrom: "hm_find (pb_MergeFrom fallback b) = hm_find fallback ++ hm_find b"
proof (induction fallback arbitrary: b)
  case Nil
  then show ?case by (simp add: pb_MergeFrom_def)
next
  case (Cons kv fallback)
  then show ?case
    by (cases kv) (auto simp: pb_MergeFrom_def hm_find_emplace map_add_def fun_eq_iff split: option.splits)
qed

lemma hm_find_OverlayWith:
  "hm_wf upper \<Longrightarrow> hm_find (pb_OverlayWith upper b) = hm_find b ++ hm_find upper"
proof (induction upper arbitrary: b)
  case Nil
  then show ?case by (simp add: pb_OverlayWith_def hm_find_def)
next
  case (Cons kv upper)
  obtain k v where kv: "kv = (k, v)" by (cases kv)
  with Cons.prems have "k \<notin> fst ` set upper" "hm_wf upper" by (auto simp: hm_wf_def)
  then have "hm_find upper k = None" by (simp add: hm_find_None_iff)
  with Cons.IH [OF \<open>hm_wf upper\<close>] kv show ?case
    by (auto simp: pb_OverlayWith_def map_add_def fun_eq_iff split: option.splits)
qed

lemma hm_wf_MergeFrom: "hm_wf b \<Longrightarrow> hm_wf (pb_MergeFrom fallback b)"
  unfolding pb_MergeFrom_def by (induction fallback arbitrary: b) auto

lemma hm_wf_OverlayWith: "hm_wf b \<Longrightarrow> hm_wf (pb_OverlayWith upper b)"
  unfolding pb_OverlayWith_def by (induction upper arbitrary: b) auto

text \<open>The bundle is a keyed container of non-null plugins: \<^verbatim>\<open>Get\<close> after \<^verbatim>\<open>Set\<close> and \<^verbatim>\<open>Remove\<close>.\<close>

interpretation bundle_store: keyed_store
  "\<lambda>b k. pb_Get k b" "\<lambda>k v. pb_Set k (Some v)" pb_Remove
  by unfold_locales (auto simp: pb_Get_def pb_Set_def pb_Remove_def)

subsection \<open>Properties\<close>

text \<open>
  C37. Merge and overlay resolve conflicts in opposite directions: \<^verbatim>\<open>MergeFrom(fallback)\<close> keeps the
  bundle's own entry and takes the fallback's for missing keys, \<^verbatim>\<open>OverlayWith(upper)\<close> lets the upper
  bundle win; hence \<^verbatim>\<open>b.OverlayWith(u)\<close> and \<^verbatim>\<open>u.MergeFrom(b)\<close> hold the same plugins. Neither
  depends on the iteration order of the hash maps, and neither creates duplicate keys.
\<close>

theorem pb_merge_overlay:
  assumes "hm_wf b" and "hm_wf u"
  shows "hm_find (pb_MergeFrom u b) k = (case hm_find b k of None \<Rightarrow> hm_find u k | Some v \<Rightarrow> Some v) \<and>
    hm_find (pb_OverlayWith u b) k = (case hm_find u k of None \<Rightarrow> hm_find b k | Some v \<Rightarrow> Some v) \<and>
    hm_find (pb_OverlayWith u b) = hm_find (pb_MergeFrom b u) \<and>
    hm_wf (pb_MergeFrom u b) \<and> hm_wf (pb_OverlayWith u b)"
  using assms
  by (auto simp: hm_find_MergeFrom hm_find_OverlayWith hm_wf_MergeFrom hm_wf_OverlayWith map_add_def
      split: option.splits)

theorem pb_merge_overlay_witness:
  "hm_find (pb_MergeFrom [(''a'', Some 1), (''b'', Some 2)] [(''a'', Some (7::nat))]) ''a'' = Some (Some 7) \<and>
   hm_find (pb_OverlayWith [(''a'', Some 1), (''b'', Some 2)] [(''a'', Some (7::nat))]) ''a'' = Some (Some 1)"
proof -
  have wf: "hm_wf [(''a'', Some (7::nat))]" "hm_wf [(''a'', Some (1::nat)), (''b'', Some 2)]"
    by (simp_all add: hm_wf_def)
  note facts = pb_merge_overlay [OF wf, of "''a''"]
  from facts [THEN conjunct1] facts [THEN conjunct2, THEN conjunct1] show ?thesis by simp
qed

text \<open>
  Lookup and presence: after \<^verbatim>\<open>Set(k, p)\<close>, \<^verbatim>\<open>Get(k)\<close> and \<^verbatim>\<open>GetRef(k)\<close> return \<open>p\<close> and \<^verbatim>\<open>Has(k)\<close> holds,
  also when \<open>p\<close> is null; other keys are untouched; after \<^verbatim>\<open>Remove(k)\<close> the key is gone; and setting a
  key that was absent and removing it again restores every lookup. A typed access succeeds exactly
  when a non-null plugin is stored and the dynamic cast succeeds.
\<close>

theorem pb_set_get_remove:
  "pb_Get k (pb_Set k p b) = p \<and> pb_GetRef k (pb_Set k p b) = p \<and> pb_Has k (pb_Set k p b) \<and>
   (j = k \<or> pb_Get j (pb_Set k p b) = pb_Get j b) \<and>
   pb_Get k (pb_Remove k b) = None \<and> (pb_Has j (pb_Remove k b) = (j \<noteq> k \<and> pb_Has j b)) \<and>
   (pb_Get k b = None \<longrightarrow> pb_Get j (pb_Remove k (pb_Set k (Some q) b)) = pb_Get j b) \<and>
   (GetTypedPlugin cast b k = Some t \<longleftrightarrow> (\<exists>base. hm_find b k = Some (Some base) \<and> cast base = Some t))"
proof -
  have "pb_Get j (pb_Remove k (pb_Set k (Some q) b)) = pb_Get j b" if "pb_Get k b = None"
    using bundle_store.store_then_remove [OF that, of q] by (rule fun_cong)
  then show ?thesis
    by (auto simp: pb_Get_def pb_GetRef_def pb_Set_def pb_Has_def pb_Remove_def GetTypedPlugin_def
        split: option.splits)
qed

theorem pb_set_get_remove_witness:
  "pb_Has ''x'' (pb_Set ''x'' (None :: nat option) []) \<and> pb_Get ''x'' (pb_Set ''x'' (None :: nat option) []) = None \<and>
   pb_Get ''y'' (pb_Remove ''x'' (pb_Set ''x'' (Some 3) [(''y'', Some (4::nat))])) = Some 4"
proof -
  note null = pb_set_get_remove [of "''x''" "None :: nat option" "[]" "''x''" 0 "\<lambda>_. None" "0::nat"]
  note other = pb_set_get_remove [of "''x''" None "[(''y'', Some (4::nat))]" "''y''" 3 "\<lambda>_. None" "0::nat"]
  have "pb_Get ''x'' [(''y'', Some (4::nat))] = None" "pb_Get ''y'' [(''y'', Some (4::nat))] = Some 4"
    by (simp_all add: pb_Get_def)
  with null other show ?thesis by auto
qed

end
