(* ===== verification/Session.thy ===== *)
theory Session
  imports Write_Queue_SG Plugin_Bundle
begin

text \<open>
  \<^verbatim>\<open>src/src/vectro/session.h\<close>: one connection. Every handler (read, write and timer completion) and
  every dispatched call is one atomic operation on the session's state. The state carries the
  operations the session has outstanding at the operating system: reads, direct writes, the waits
  on its two timers, and, inside \<open>write_queue_sg\<close>, the writes of the scatter/gather queue. The log
  lists what the session did to the outside.

  The framer (\<^verbatim>\<open>frame_base.h\<close> is not part of the repository), the interceptor plugin and its dynamic
  cast are parameters, gathered in \<open>ses_env\<close>. Handlers called by the session do not call back into it
  before they return.
\<close>

subsection \<open>Timers\<close>

text \<open>
  \<^verbatim>\<open>asio::steady_timer\<close>: \<open>armed\<close> counts the waits that have not expired, \<open>due\<close> those that have and
  whose handlers have not run yet. \<^verbatim>\<open>cancel\<close> and \<^verbatim>\<open>expires_after\<close> abort the armed waits, whose
  handlers then see an error and, in this program, do nothing; due waits can no longer be cancelled.
\<close>

record timer =
  armed :: nat
  due :: nat

definition timer_new :: timer where
  "timer_new = \<lparr>armed = 0, due = 0\<rparr>"

definition timer_cancel :: "timer \<Rightarrow> timer" where
  "timer_cancel t = t\<lparr>armed := 0\<rparr>"

definition timer_wait :: "timer \<Rightarrow> timer" where
  "timer_wait t = t\<lparr>armed := Suc (armed t)\<rparr>"

definition timer_expire :: "timer \<Rightarrow> timer" where
  "timer_expire t = \<lparr>armed = 0, due = due t + armed t\<rparr>"

lemmas timer_defs = timer_new_def timer_cancel_def timer_wait_def timer_expire_def

subsection \<open>State\<close>

record ('f, 'm, 'b, 'p, 'i, 'e) ses_env =
  fr_Frame :: "'f \<Rightarrow> 'm \<Rightarrow> 'e + 'b"
  fr_PrepareRead :: "'f \<Rightarrow> 'f"
  fr_OnData :: "'f \<Rightarrow> payload \<Rightarrow> ('e + 'm list) \<times> 'f"
  as_Interceptor :: "'p \<Rightarrow> 'i option"
  ic_Filter :: "'i \<Rightarrow> 'm \<Rightarrow> 'e + bool \<times> 'm"

datatype ('m, 'b, 'e) ses_effect =
    DirectWrite 'b
  | Delivered 'm
  | Disconnected
  | SocketCancelled
  | SocketClosed
  | EscapedException 'e
  | NullFramer

record ('f, 'm, 'b, 'p, 'e) session =
  framer :: "'f option"
  write_deque :: "'b list"
  write_in_progress :: bool
  write_queue_sg :: "('b, unit) wq_sys"
  use_write_queue :: bool
  read_timer :: timer
  idle_timer :: timer
  shutdown_in_progress :: bool
  ses_graceful :: bool
  ses_id :: u64
  ses_remote_ip :: string
  ses_remote_port :: u16
  ses_local_port :: u16
  on_message :: bool
  on_disconnect :: bool
  plugin_bundle :: "'p plugin_bundle"
  reads_out :: nat
  writes_out :: "'b list"
  ses_log :: "('m, 'b, 'e) ses_effect list"

definition ses_new :: "'f \<Rightarrow> ('f, 'm, 'b, 'p, 'e) session" where
  "ses_new f =
     \<lparr>framer = Some f, write_deque = [], write_in_progress = False, write_queue_sg = wq_start 1024,
      use_write_queue = False, read_timer = timer_new, idle_timer = timer_new,
      shutdown_in_progress = False, ses_graceful = False, ses_id = 0, ses_remote_ip = '''',
      ses_remote_port = 0, ses_local_port = 0, on_message = False, on_disconnect = False,
      plugin_bundle = [], reads_out = 0, writes_out = [], ses_log = []\<rparr>"

definition ses_emit :: "('m, 'b, 'e) ses_effect list \<Rightarrow> ('f, 'm, 'b, 'p, 'e) session \<Rightarrow> ('f, 'm, 'b, 'p, 'e) session" where
  "ses_emit effs s = s\<lparr>ses_log := ses_log s @ effs\<rparr>"

subsection \<open>Operations\<close>

definition ses_SetPluginBundle :: "'p plugin_bundle \<Rightarrow> ('f, 'm, 'b, 'p, 'e) session \<Rightarrow> ('f, 'm, 'b, 'p, 'e) session" where
  "ses_SetPluginBundle bundle s = s\<lparr>plugin_bundle := bundle\<rparr>"

definition ses_EnableWriteQueue :: "bool \<Rightarrow> ('f, 'm, 'b, 'p, 'e) session \<Rightarrow> ('f, 'm, 'b, 'p, 'e) session" where
  "ses_EnableWriteQueue enable s = s\<lparr>use_write_queue := enable\<rparr>"

text \<open>The branch \<^verbatim>\<open>force\<close> of \<^verbatim>\<open>Close\<close>, with its guard.\<close>

definition ses_Close_force :: "('f, 'm, 'b, 'p, 'e) session \<Rightarrow> ('f, 'm, 'b, 'p, 'e) session" where
  "ses_Close_force s =
     (if shutdown_in_progress s then s
      else
        let s1 = ses_emit [SocketCancelled, SocketClosed] (s\<lparr>shutdown_in_progress := True\<rparr>);
            s2 = s1\<lparr>write_deque := []\<rparr>
        in if use_write_queue s2 then s2\<lparr>write_queue_sg := wq_event (EvClose True) (write_queue_sg s2)\<rparr> else s2)"

definition ses_Close :: "bool \<Rightarrow> ('f, 'm, 'b, 'p, 'e) session \<Rightarrow> ('f, 'm, 'b, 'p, 'e) session" where
  "ses_Close force s =
     (if force then ses_Close_force s
      else if shutdown_in_progress s then s
      else
        let s1 = s\<lparr>ses_graceful := True, read_timer := timer_cancel (read_timer s),
                   idle_timer := timer_cancel (idle_timer s)\<rparr>;
            s2 = (if use_write_queue s1
                  then s1\<lparr>write_queue_sg := wq_event (EvClose False) (write_queue_sg s1)\<rparr> else s1)
        in if \<not> use_write_queue s2 \<and> \<not> write_in_progress s2 \<and> write_deque s2 = []
           then ses_Close_force s2 else s2)"

definition ses_Shutdown :: "('f, 'm, 'b, 'p, 'e) session \<Rightarrow> ('f, 'm, 'b, 'p, 'e) session" where
  "ses_Shutdown s =
     (if shutdown_in_progress s then s
      else
        let s1 = s\<lparr>shutdown_in_progress := True\<rparr>;
            s2 = (if on_disconnect s1 then ses_emit [Disconnected] s1 else s1);
            s3 = ses_Close True s2;
            s4 = s3\<lparr>write_deque := []\<rparr>;
            s5 = (if use_write_queue s4
                  then s4\<lparr>write_queue_sg := wq_event (EvClose True) (write_queue_sg s4)\<rparr> else s4)
        in s5\<lparr>framer := None, plugin_bundle := [], on_message := False, on_disconnect := False\<rparr>)"

definition ses_WriteNext :: "('f, 'm, 'b, 'p, 'e) session \<Rightarrow> ('f, 'm, 'b, 'p, 'e) session" where
  "ses_WriteNext s =
     (case write_deque s of
        [] \<Rightarrow>
          (let s1 = s\<lparr>write_in_progress := False\<rparr>
           in if ses_graceful s1 then ses_Close True s1 else s1)
      | buffers # rest \<Rightarrow>
          ses_emit [DirectWrite buffers]
            (s\<lparr>write_in_progress := True, write_deque := rest, writes_out := writes_out s @ [buffers]\<rparr>))"

text \<open>The completion handler of the direct write.\<close>

definition ses_on_written :: "bool \<Rightarrow> ('f, 'm, 'b, 'p, 'e) session \<Rightarrow> ('f, 'm, 'b, 'p, 'e) session" where
  "ses_on_written ok s =
     (let s1 = s\<lparr>writes_out := tl (writes_out s)\<rparr>
      in if ok then ses_WriteNext (s1\<lparr>write_in_progress := False\<rparr>) else ses_Shutdown s1)"

text \<open>
  \<^verbatim>\<open>AsyncSend\<close>: the interceptor may drop or rewrite the message; exceptions of the interceptor and of
  the framer are swallowed. \<^verbatim>\<open>framer_\<close> is dereferenced without a check.
\<close>

definition ses_filter ::
  "('f, 'm, 'b, 'p, 'i, 'e) ses_env \<Rightarrow> 'm \<Rightarrow> ('f, 'm, 'b, 'p, 'e) session \<Rightarrow> 'm option" where
  "ses_filter env msg s =
     (case GetTypedPlugin (as_Interceptor env) (plugin_bundle s) kInterceptor of
        None \<Rightarrow> Some msg
      | Some ic \<Rightarrow>
          (case ic_Filter env ic msg of
             Inl e \<Rightarrow> None
           | Inr (pass, msg') \<Rightarrow> if pass then Some msg' else None))"

definition ses_AsyncSend ::
  "('f, 'm, 'b, 'p, 'i, 'e) ses_env \<Rightarrow> 'm \<Rightarrow> ('f, 'm, 'b, 'p, 'e) session \<Rightarrow> ('f, 'm, 'b, 'p, 'e) session" where
  "ses_AsyncSend env msg s =
     (case ses_filter env msg s of
        None \<Rightarrow> s
      | Some msg' \<Rightarrow>
          (case framer s of
             None \<Rightarrow> ses_emit [NullFramer] s
           | Some f \<Rightarrow>
               (case fr_Frame env f msg' of
                  Inl e \<Rightarrow> s
                | Inr buffers \<Rightarrow>
                    if use_write_queue s
                    then s\<lparr>write_queue_sg := wq_event (EvSend buffers (Some ())) (write_queue_sg s)\<rparr>
                    else
                      let s1 = s\<lparr>write_deque := write_deque s @ [buffers]\<rparr>
                      in if \<not> write_in_progress s1 then ses_WriteNext s1 else s1)))"

definition ses_StartRead ::
  "('f, 'm, 'b, 'p, 'i, 'e) ses_env \<Rightarrow> ('f, 'm, 'b, 'p, 'e) session \<Rightarrow> ('f, 'm, 'b, 'p, 'e) session" where
  "ses_StartRead env s =
     (if shutdown_in_progress s then s
      else
        case framer s of
          None \<Rightarrow> ses_emit [NullFramer] s
        | Some f \<Rightarrow>
            s\<lparr>framer := Some (fr_PrepareRead env f), reads_out := Suc (reads_out s),
              read_timer := timer_wait (timer_cancel (read_timer s))\<rparr>)"

text \<open>
  The completion handler of a read: \<open>Some data\<close> for the bytes received, \<open>None\<close> for an error (end of
  stream included). Exceptions of the message handler are caught one by one, so every message is
  handed over; an exception of \<^verbatim>\<open>OnData\<close> leaves the handler.
\<close>

definition ses_on_read ::
  "('f, 'm, 'b, 'p, 'i, 'e) ses_env \<Rightarrow> payload option \<Rightarrow> ('f, 'm, 'b, 'p, 'e) session \<Rightarrow> ('f, 'm, 'b, 'p, 'e) session" where
  "ses_on_read env result s =
     (let s0 = s\<lparr>reads_out := reads_out s - 1\<rparr>
      in if shutdown_in_progress s0 then s0
         else
           case result of
             None \<Rightarrow> ses_Shutdown s0
           | Some data \<Rightarrow>
               (let s1 = s0\<lparr>read_timer := timer_cancel (read_timer s0)\<rparr>;
                    s2 = s1\<lparr>read_timer := timer_cancel (read_timer s1), idle_timer := timer_cancel (idle_timer s1)\<rparr>
                in case framer s2 of
                     None \<Rightarrow> ses_emit [NullFramer] s2
                   | Some f \<Rightarrow>
                       (case fr_OnData env f data of
                          (Inl e, f') \<Rightarrow> ses_emit [EscapedException e] (s2\<lparr>framer := Some f'\<rparr>)
                        | (Inr msgs, f') \<Rightarrow>
                            (let s3 = s2\<lparr>framer := Some f'\<rparr>;
                                 s4 = (if on_message s3 then ses_emit (map Delivered msgs) s3 else s3)
                             in ses_StartRead env s4))))"

definition ses_StartIdleTimer :: "('f, 'm, 'b, 'p, 'e) session \<Rightarrow> ('f, 'm, 'b, 'p, 'e) session" where
  "ses_StartIdleTimer s = s\<lparr>idle_timer := timer_wait (timer_cancel (idle_timer s))\<rparr>"

text \<open>The wait handlers of the two timers, for a wait that expired.\<close>

definition ses_on_timer :: "('f, 'm, 'b, 'p, 'e) session \<Rightarrow> ('f, 'm, 'b, 'p, 'e) session" where
  "ses_on_timer s = (if \<not> shutdown_in_progress s then ses_Shutdown s else s)"

definition ses_Start ::
  "('f, 'm, 'b, 'p, 'i, 'e) ses_env \<Rightarrow> u64 \<Rightarrow> string \<Rightarrow> u16 \<Rightarrow> u16 \<Rightarrow> bool \<Rightarrow> bool \<Rightarrow>
   ('f, 'm, 'b, 'p, 'e) session \<Rightarrow> ('f, 'm, 'b, 'p, 'e) session" where
  "ses_Start env i ip rport lport msg_handler disc_handler s =
     (let s1 = s\<lparr>ses_id := i, ses_remote_ip := ip, ses_remote_port := rport, ses_local_port := lport,
                 on_message := msg_handler, on_disconnect := disc_handler\<rparr>
      in ses_StartIdleTimer (ses_StartRead env s1))"

lemmas ses_ops [vec_defs] =
  ses_emit_def ses_Close_force_def ses_Close_def ses_Shutdown_def ses_WriteNext_def
  ses_on_written_def ses_StartRead_def ses_StartIdleTimer_def ses_on_timer_def

subsection \<open>Runs of a started session\<close>

datatype ('m, 'b) ses_event =
    SesSend 'm
  | SesClose bool
  | SesRead "payload option"
  | SesWritten bool
  | SesQueueWritten nat bool
  | SesReadExpires
  | SesReadTimer
  | SesIdleExpires
  | SesIdleTimer

text \<open>An event that concerns an operation which is not outstanding does not happen.\<close>

definition ses_event ::
  "('f, 'm, 'b, 'p, 'i, 'e) ses_env \<Rightarrow> ('m, 'b) ses_event \<Rightarrow> ('f, 'm, 'b, 'p, 'e) session \<Rightarrow> ('f, 'm, 'b, 'p, 'e) session" where
  "ses_event env ev s =
     (case ev of
        SesSend msg \<Rightarrow> ses_AsyncSend env msg s
      | SesClose force \<Rightarrow> ses_Close force s
      | SesRead result \<Rightarrow> if reads_out s = 0 then s else ses_on_read env result s
      | SesWritten ok \<Rightarrow> if writes_out s = [] then s else ses_on_written ok s
      | SesQueueWritten i ok \<Rightarrow> s\<lparr>write_queue_sg := wq_event (EvWritten i ok) (write_queue_sg s)\<rparr>
      | SesReadExpires \<Rightarrow> s\<lparr>read_timer := timer_expire (read_timer s)\<rparr>
      | SesReadTimer \<Rightarrow>
          if due (read_timer s) = 0 then s
          else ses_on_timer (s\<lparr>read_timer := (read_timer s)\<lparr>due := due (read_timer s) - 1\<rparr>\<rparr>)
      | SesIdleExpires \<Rightarrow> s\<lparr>idle_timer := timer_expire (idle_timer s)\<rparr>
      | SesIdleTimer \<Rightarrow>
          if due (idle_timer s) = 0 then s
          else ses_on_timer (s\<lparr>idle_timer := (idle_timer s)\<lparr>due := due (idle_timer s) - 1\<rparr>\<rparr>))"

inductive ses_step ::
  "('f, 'm, 'b, 'p, 'i, 'e) ses_env \<Rightarrow> ('f, 'm, 'b, 'p, 'e) session \<Rightarrow> ('f, 'm, 'b, 'p, 'e) session \<Rightarrow> bool"
  for env :: "('f, 'm, 'b, 'p, 'i, 'e) ses_env" where
  "ses_step env s (ses_event env ev s)"

inductive_cases ses_stepE [elim!]: "ses_step env s t"

text \<open>The sessions the acceptor hands out: configured, then started with both handlers.\<close>

definition ses_init ::
  "('f, 'm, 'b, 'p, 'i, 'e) ses_env \<Rightarrow> ('f, 'm, 'b, 'p, 'e) session \<Rightarrow> bool" where
  "ses_init env s \<longleftrightarrow>
     (\<exists>f bundle enable i ip rport lport.
        s = ses_Start env i ip rport lport True True
              (ses_EnableWriteQueue enable (ses_SetPluginBundle bundle (ses_new f))))"

subsection \<open>Invariants\<close>

text \<open>Which of the two ends of a session has happened.\<close>

definition ended_by_Shutdown :: "('f, 'm, 'b, 'p, 'e) session \<Rightarrow> bool" where
  "ended_by_Shutdown s \<longleftrightarrow> Disconnected \<in> set (ses_log s)"

definition ended_by_Close :: "('f, 'm, 'b, 'p, 'e) session \<Rightarrow> bool" where
  "ended_by_Close s \<longleftrightarrow> SocketClosed \<in> set (ses_log s)"

definition ses_io_ok :: "('f, 'm, 'b, 'p, 'e) session \<Rightarrow> bool" where
  "ses_io_ok s \<longleftrightarrow>
     reads_out s \<le> 1 \<and>
     length (writes_out s) \<le> (if write_in_progress s then 1 else 0) \<and>
     (\<not> shutdown_in_progress s \<longrightarrow>
        length (writes_out s) = (if write_in_progress s then 1 else 0) \<and>
        (\<not> write_in_progress s \<longrightarrow> write_deque s = []) \<and>
        (ses_graceful s \<and> \<not> use_write_queue s \<longrightarrow> write_in_progress s))"

definition ses_end_ok :: "('f, 'm, 'b, 'p, 'e) session \<Rightarrow> bool" where
  "ses_end_ok s \<longleftrightarrow>
     (if shutdown_in_progress s
      then ended_by_Shutdown s \<noteq> ended_by_Close s \<and>
           (ended_by_Shutdown s \<longrightarrow> framer s = None \<and> plugin_bundle s = []) \<and>
           (ended_by_Close s \<longrightarrow> framer s \<noteq> None)
      else \<not> ended_by_Shutdown s \<and> \<not> ended_by_Close s \<and> framer s \<noteq> None \<and> on_message s \<and> on_disconnect s) \<and>
     (NullFramer \<in> set (ses_log s) \<longrightarrow> framer s = None) \<and>
     count_list (ses_log s) Disconnected \<le> 1 \<and> count_list (ses_log s) SocketClosed \<le> 1"

lemmas ses_end_defs = ses_end_ok_def ended_by_Shutdown_def ended_by_Close_def

lemma count_Delivered [simp]:
  "count_list (map Delivered ms) Disconnected = 0" "count_list (map Delivered ms) SocketClosed = 0"
  "Disconnected \<notin> set (map Delivered ms)" "SocketClosed \<notin> set (map Delivered ms)"
  "NullFramer \<notin> set (map Delivered ms)"
  by (auto simp: count_list_0_iff)

lemma ses_Close_io: "ses_io_ok s \<Longrightarrow> ses_io_ok (ses_Close force s)"
  by (auto simp: ses_io_ok_def ses_ops Let_def)

lemma ses_Shutdown_io:
  "reads_out s \<le> 1 \<Longrightarrow> length (writes_out s) \<le> (if write_in_progress s then 1 else 0) \<Longrightarrow>
   ses_io_ok s \<or> \<not> shutdown_in_progress s \<Longrightarrow> ses_io_ok (ses_Shutdown s)"
  by (auto simp: ses_io_ok_def ses_ops Let_def)

lemma ses_send_io: "ses_io_ok s \<Longrightarrow> ses_io_ok (ses_AsyncSend env msg s)"
  by (auto simp: ses_io_ok_def ses_AsyncSend_def ses_ops Let_def split: option.splits sum.splits list.splits)

lemma ses_on_written_io: "ses_io_ok s \<Longrightarrow> writes_out s \<noteq> [] \<Longrightarrow> ses_io_ok (ses_on_written ok s)"
  by (cases "write_deque s"; cases ok; cases "writes_out s")
    (auto simp: ses_io_ok_def ses_ops Let_def split: if_splits)

lemma ses_on_read_io: "ses_io_ok s \<Longrightarrow> ses_io_ok (ses_on_read env r s)"
  by (auto simp: ses_io_ok_def ses_on_read_def ses_ops Let_def split: option.splits sum.splits prod.splits)

lemma ses_on_timer_io: "ses_io_ok s \<Longrightarrow> ses_io_ok (ses_on_timer s)"
  by (auto simp: ses_io_ok_def ses_ops Let_def)

lemma ses_io_ok_simps [simp]:
  "ses_io_ok (s\<lparr>read_timer := t\<rparr>) = ses_io_ok s" "ses_io_ok (s\<lparr>idle_timer := t\<rparr>) = ses_io_ok s"
  "ses_io_ok (s\<lparr>write_queue_sg := q\<rparr>) = ses_io_ok s"
  by (simp_all add: ses_io_ok_def)

lemma ses_event_io: "ses_io_ok s \<Longrightarrow> ses_io_ok (ses_event env ev s)"
  by (cases ev)
    (simp_all add: ses_event_def ses_send_io ses_Close_io ses_on_read_io ses_on_written_io ses_on_timer_io)

lemma ses_init_io: "ses_init env s \<Longrightarrow> ses_io_ok s"
  by (auto simp: ses_init_def ses_io_ok_def ses_Start_def ses_EnableWriteQueue_def ses_SetPluginBundle_def
      ses_new_def ses_ops Let_def)

interpretation ses_io: inductive_invariant "ses_init env" "ses_step env" ses_io_ok
  by unfold_locales (auto intro: ses_init_io ses_event_io)

lemma ses_Close_end: "ses_end_ok s \<Longrightarrow> ses_end_ok (ses_Close force s)"
  by (auto simp: ses_end_defs ses_ops Let_def split: if_splits)

lemma ses_Shutdown_end: "ses_end_ok s \<Longrightarrow> ses_end_ok (ses_Shutdown s)"
  by (auto simp: ses_end_defs ses_ops Let_def split: if_splits)

lemma ses_end_ok_simps [simp]:
  "ses_end_ok (s\<lparr>read_timer := t\<rparr>) = ses_end_ok s" "ses_end_ok (s\<lparr>idle_timer := t\<rparr>) = ses_end_ok s"
  "ses_end_ok (s\<lparr>write_queue_sg := q\<rparr>) = ses_end_ok s" "ses_end_ok (s\<lparr>write_deque := d\<rparr>) = ses_end_ok s"
  "ses_end_ok (s\<lparr>writes_out := w\<rparr>) = ses_end_ok s" "ses_end_ok (s\<lparr>write_in_progress := b\<rparr>) = ses_end_ok s"
  "ses_end_ok (s\<lparr>reads_out := n\<rparr>) = ses_end_ok s"
  by (simp_all add: ses_end_defs)

lemma ses_WriteNext_end: "ses_end_ok s \<Longrightarrow> ses_end_ok (ses_WriteNext s)"
proof (cases "write_deque s")
  case Nil
  then show "ses_end_ok s \<Longrightarrow> ses_end_ok (ses_WriteNext s)"
    by (simp add: ses_WriteNext_def Let_def ses_Close_end)
next
  case (Cons b bs)
  then show "ses_end_ok s \<Longrightarrow> ses_end_ok (ses_WriteNext s)"
    by (auto simp: ses_WriteNext_def ses_emit_def ses_end_defs split: if_splits)
qed

lemma ses_send_end: "ses_end_ok s \<Longrightarrow> ses_end_ok (ses_AsyncSend env msg s)"
proof (cases "framer s")
  case None
  then show "ses_end_ok s \<Longrightarrow> ses_end_ok (ses_AsyncSend env msg s)"
    by (auto simp: ses_AsyncSend_def ses_emit_def ses_end_defs split: option.splits if_splits)
next
  case (Some f)
  then show "ses_end_ok s \<Longrightarrow> ses_end_ok (ses_AsyncSend env msg s)"
    by (auto simp: ses_AsyncSend_def Let_def ses_WriteNext_end split: option.splits sum.splits)
qed

lemma ses_on_read_end: "ses_end_ok s \<Longrightarrow> ses_end_ok (ses_on_read env r s)"
proof (cases "shutdown_in_progress s \<or> r = None")
  case True
  then show "ses_end_ok s \<Longrightarrow> ses_end_ok (ses_on_read env r s)"
    by (auto simp: ses_on_read_def Let_def ses_Shutdown_end)
next
  case False
  then show "ses_end_ok s \<Longrightarrow> ses_end_ok (ses_on_read env r s)"
    by (auto simp: ses_on_read_def Let_def ses_emit_def ses_StartRead_def ses_end_defs
        split: sum.splits prod.splits)
qed

lemma ses_event_end: "ses_end_ok s \<Longrightarrow> ses_end_ok (ses_event env ev s)"
  by (cases ev)
    (simp_all add: ses_event_def ses_send_end ses_Close_end ses_on_read_end ses_on_written_def Let_def
      ses_WriteNext_end ses_Shutdown_end ses_on_timer_def)

lemma ses_init_end: "ses_init env s \<Longrightarrow> ses_end_ok s"
  by (auto simp: ses_init_def ses_end_defs ses_Start_def ses_EnableWriteQueue_def ses_SetPluginBundle_def
      ses_new_def ses_ops Let_def)

interpretation ses_end: inductive_invariant "ses_init env" "ses_step env" ses_end_ok
  by unfold_locales (auto intro: ses_init_end ses_event_end)

text \<open>
  A running session always has its read outstanding, and a wait on its read timer unless a graceful
  close cancelled it. Only an exception that escaped from the framer breaks this.
\<close>

definition escaped :: "('f, 'm, 'b, 'p, 'e) session \<Rightarrow> bool" where
  "escaped s \<longleftrightarrow> (\<exists>e. EscapedException e \<in> set (ses_log s))"

definition ses_live :: "('f, 'm, 'b, 'p, 'e) session \<Rightarrow> bool" where
  "ses_live s \<longleftrightarrow>
     (shutdown_in_progress s \<or> escaped s \<or>
        reads_out s = 1 \<and> framer s \<noteq> None \<and> on_disconnect s \<and>
        (ses_graceful s \<or> 0 < armed (read_timer s) + due (read_timer s)))"

lemma ses_live_simps [simp]:
  "ses_live (s\<lparr>idle_timer := t\<rparr>) = ses_live s"
  "ses_live (s\<lparr>write_queue_sg := q\<rparr>) = ses_live s" "ses_live (s\<lparr>write_deque := d\<rparr>) = ses_live s"
  "ses_live (s\<lparr>writes_out := w\<rparr>) = ses_live s" "ses_live (s\<lparr>write_in_progress := b\<rparr>) = ses_live s"
  "ses_live (ses_emit [NullFramer] s) = ses_live s"
  by (simp_all add: ses_live_def escaped_def ses_emit_def)

lemma ses_Close_live: "ses_live s \<Longrightarrow> ses_live (ses_Close force s)"
  by (auto simp: ses_live_def escaped_def ses_ops Let_def)

lemma ses_live_shutdown: "shutdown_in_progress s \<Longrightarrow> ses_live s"
  by (simp add: ses_live_def)

lemma ses_Shutdown_live: "ses_live (ses_Shutdown s)"
  by (auto simp: ses_live_def ses_ops Let_def)

lemma ses_WriteNext_live: "ses_live s \<Longrightarrow> ses_live (ses_WriteNext s)"
  by (cases "write_deque s")
    (auto simp: ses_WriteNext_def ses_Close_live ses_emit_def ses_live_def escaped_def Let_def ses_Close_def
      ses_Close_force_def)

lemma ses_send_live: "ses_live s \<Longrightarrow> ses_live (ses_AsyncSend env msg s)"
  by (auto simp: ses_AsyncSend_def Let_def ses_WriteNext_live split: option.splits sum.splits)

lemma ses_on_read_live: "ses_live s \<Longrightarrow> ses_live (ses_on_read env r s)"
proof (cases r)
  case None
  then show "ses_live s \<Longrightarrow> ses_live (ses_on_read env r s)"
    by (simp add: ses_on_read_def Let_def ses_Shutdown_live ses_live_shutdown)
next
  case (Some data)
  then show "ses_live s \<Longrightarrow> ses_live (ses_on_read env r s)"
    by (auto simp: ses_on_read_def ses_live_def escaped_def Let_def ses_emit_def ses_StartRead_def timer_defs
        split: option.splits sum.splits prod.splits)
qed

lemma ses_event_live: "ses_live s \<Longrightarrow> ses_live (ses_event env ev s)"
proof (cases ev)
  case (SesWritten ok)
  then show "ses_live s \<Longrightarrow> ses_live (ses_event env ev s)"
    by (simp add: ses_event_def ses_on_written_def Let_def ses_WriteNext_live ses_Shutdown_live)
next
  case SesReadTimer
  then show "ses_live s \<Longrightarrow> ses_live (ses_event env ev s)"
    by (auto simp: ses_event_def ses_on_timer_def ses_Shutdown_live ses_live_shutdown)
next
  case SesReadExpires
  then show "ses_live s \<Longrightarrow> ses_live (ses_event env ev s)"
    by (auto simp: ses_event_def ses_live_def escaped_def timer_defs)
qed (simp_all add: ses_event_def ses_send_live ses_Close_live ses_on_read_live ses_on_timer_def
    ses_Shutdown_live)

lemma ses_init_live: "ses_init env s \<Longrightarrow> ses_live s"
  by (auto simp: ses_init_def ses_live_def ses_Start_def ses_EnableWriteQueue_def ses_SetPluginBundle_def
      ses_new_def ses_ops Let_def timer_defs)

interpretation ses_alive: inductive_invariant "ses_init env" "ses_step env" ses_live
  by unfold_locales (auto intro: ses_init_live ses_event_live)

subsection \<open>Draining the direct write path\<close>

lemma ses_drain_direct:
  assumes "writes_out s = [b]" and "ses_graceful s" and "\<not> shutdown_in_progress s"
    and "\<not> use_write_queue s"
  shows "\<exists>t. (ses_event env (SesWritten True) ^^ Suc (length (write_deque s))) s = t \<and>
    shutdown_in_progress t \<and> writes_out t = [] \<and> write_deque t = [] \<and>
    ses_log t = ses_log s @ map DirectWrite (write_deque s) @ [SocketCancelled, SocketClosed]"
  using assms
proof (induction "write_deque s" arbitrary: s b)
  case Nil
  then show ?case by (simp add: ses_event_def ses_ops Let_def)
next
  case (Cons x xs)
  let ?s = "ses_event env (SesWritten True) s"
  have "write_deque ?s = xs" "writes_out ?s = [x]" "ses_graceful ?s" "\<not> shutdown_in_progress ?s"
    "\<not> use_write_queue ?s" and log: "ses_log ?s = ses_log s @ [DirectWrite x]"
    using Cons.prems Cons.hyps(2) [symmetric]
    by (simp_all add: ses_event_def ses_on_written_def ses_WriteNext_def ses_emit_def Let_def)
  with Cons.hyps(1) [of ?s x] Cons.hyps(2) [symmetric] show ?case
    by (simp add: funpow_swap1 log)
qed

subsection \<open>Sessions nothing wakes up\<close>

text \<open>No idle wait is armed or due: the idle timeout can no longer happen.\<close>

lemma ses_idle_event: "idle_timer s = timer_new \<Longrightarrow> idle_timer (ses_event env ev s) = timer_new"
  by (cases ev)
    (auto simp: ses_event_def ses_AsyncSend_def ses_on_read_def ses_ops Let_def timer_defs
      split: option.splits sum.splits prod.splits list.splits)

interpretation ses_idle: inductive_invariant
  "\<lambda>s. idle_timer s = timer_new" "ses_step env" "\<lambda>s. idle_timer s = timer_new"
  by unfold_locales (auto intro: ses_idle_event)

definition delivered :: "('f, 'm, 'b, 'p, 'e) session \<Rightarrow> 'm list" where
  "delivered s = List.map_filter (\<lambda>ev. case ev of Delivered m \<Rightarrow> Some m | _ \<Rightarrow> None) (ses_log s)"

text \<open>No read, no timer: neither the peer nor the clock can end this session any more.\<close>

definition ses_wedged :: "'m list \<Rightarrow> ('f, 'm, 'b, 'p, 'e) session \<Rightarrow> bool" where
  "ses_wedged ms s \<longleftrightarrow>
     reads_out s = 0 \<and> read_timer s = timer_new \<and> idle_timer s = timer_new \<and>
     \<not> shutdown_in_progress s \<and> \<not> ses_graceful s \<and> delivered s = ms"

fun from_peer_or_clock :: "('m, 'b) ses_event \<Rightarrow> bool" where
  "from_peer_or_clock (SesClose force) = False"
| "from_peer_or_clock (SesWritten ok) = ok"
| "from_peer_or_clock _ = True"

lemma ses_wedged_WriteNext: "ses_wedged ms s \<Longrightarrow> ses_wedged ms (ses_WriteNext s)"
  by (cases "write_deque s")
    (auto simp: ses_wedged_def delivered_def ses_WriteNext_def ses_emit_def Let_def List.map_filter_def)

lemma ses_wedged_simps [simp]:
  "ses_wedged ms (s\<lparr>write_queue_sg := q\<rparr>) = ses_wedged ms s" "ses_wedged ms (s\<lparr>write_deque := d\<rparr>) = ses_wedged ms s"
  "ses_wedged ms (s\<lparr>writes_out := w\<rparr>) = ses_wedged ms s" "ses_wedged ms (s\<lparr>write_in_progress := b\<rparr>) = ses_wedged ms s"
  "ses_wedged ms (ses_emit [NullFramer] s) = ses_wedged ms s"
  by (simp_all add: ses_wedged_def delivered_def ses_emit_def List.map_filter_def)

lemma ses_wedged_event:
  assumes "from_peer_or_clock ev" and w: "ses_wedged ms s"
  shows "ses_wedged ms (ses_event env ev s)"
proof (cases ev)
  case (SesSend msg)
  with w show ?thesis
    by (auto simp: ses_event_def ses_AsyncSend_def Let_def ses_wedged_WriteNext split: option.splits sum.splits)
next
  case (SesWritten ok)
  with assms show ?thesis
    by (auto simp: ses_event_def ses_on_written_def Let_def intro!: ses_wedged_WriteNext)
next
  case (SesRead r)
  with w show ?thesis by (simp add: ses_event_def ses_wedged_def)
qed (use assms in \<open>auto simp: ses_event_def ses_wedged_def timer_defs delivered_def\<close>)

interpretation ses_wedge: inductive_invariant
  "ses_wedged ms" "\<lambda>s t. \<exists>ev. from_peer_or_clock ev \<and> t = ses_event env ev s" "ses_wedged ms"
  by unfold_locales (auto intro: ses_wedged_event)

lemma ses_queue_events:
  "(\<forall>ev \<in> set evs. \<exists>i ok. ev = SesQueueWritten i ok) \<Longrightarrow>
     \<exists>q. fold (ses_event env) evs s = s\<lparr>write_queue_sg := q\<rparr>"
proof (induction evs arbitrary: s)
  case Nil
  show ?case by (rule exI [of _ "write_queue_sg s"]) simp
next
  case (Cons ev evs)
  then obtain i ok where "ev = SesQueueWritten i ok" by auto
  with Cons.IH [of "ses_event env ev s"] Cons.prems show ?case by (auto simp: ses_event_def)
qed

subsection \<open>A concrete environment\<close>

text \<open>
  Messages and buffers are strings; the framer delivers what it receives, and both directions refuse
  the empty string. The witnesses run the session with it.
\<close>

definition demo_env :: "(unit, string, string, unit, unit, string) ses_env" where
  "demo_env =
     \<lparr>fr_Frame = \<lambda>f m. if m = [] then Inl ''empty'' else Inr m,
      fr_PrepareRead = \<lambda>f. f,
      fr_OnData = \<lambda>f d. if d = [] then (Inl ''empty'', f) else (Inr [d], f),
      as_Interceptor = Some,
      ic_Filter = \<lambda>i m. Inr (True, m)\<rparr>"

definition demo_session :: "bool \<Rightarrow> (unit, string, string, unit, string) session" where
  "demo_session queue =
     ses_Start demo_env 7 ''10.0.0.1'' 4242 9000 True True
       (ses_EnableWriteQueue queue (ses_SetPluginBundle [] (ses_new ())))"

lemmas demo_defs = demo_env_def demo_session_def ses_Start_def ses_EnableWriteQueue_def
  ses_SetPluginBundle_def ses_new_def ses_event_def ses_AsyncSend_def ses_filter_def GetTypedPlugin_def
  pb_Get_def ses_on_read_def ses_ops timer_defs Let_def

lemma demo_init: "ses_init demo_env (demo_session queue)"
  unfolding ses_init_def demo_session_def by blast

lemma demo_reachable0: "reachable (ses_init demo_env) (ses_step demo_env) (demo_session queue)"
  by (rule reachable_init) (rule demo_init)

lemma demo_reachable1:
  "reachable (ses_init demo_env) (ses_step demo_env) (ses_event demo_env ev (demo_session queue))"
  by (rule reachable_step [OF reachable_init]) (auto intro: demo_init ses_step.intros)

lemma demo_reachable2:
  "reachable (ses_init demo_env) (ses_step demo_env)
     (ses_event demo_env ev' (ses_event demo_env ev (demo_session queue)))"
  by (rule reachable_step [OF demo_reachable1]) (rule ses_step.intros)

subsection \<open>Properties\<close>



text \<open>
  C8. A session ends exactly once and in one of two ways. Either \<^verbatim>\<open>Shutdown\<close> ended it (read or
  write error, timeout) and called the disconnect handler once - then its socket is never
  closed, because \<^verbatim>\<open>Shutdown\<close> sets \<^verbatim>\<open>shutdown_in_progress_\<close> before it calls \<^verbatim>\<open>Close(true)\<close>, which
  returns at once - or \<^verbatim>\<open>Close\<close> closed the socket once, and the disconnect handler is never called.
\<close>

theorem ses_ends_once:
  assumes "reachable (ses_init env) (ses_step env) s"
  shows "count_list (ses_log s) Disconnected + count_list (ses_log s) SocketClosed =
    (if shutdown_in_progress s then 1 else 0)"
  using ses_end.reachable_inv [OF assms]
  by (auto simp: ses_end_defs le_Suc_eq count_list_0_iff split: if_splits)

theorem ses_ends_once_witness:
  "count_list (ses_log (ses_event demo_env (SesRead None) (demo_session False))) Disconnected = 1 \<and>
   count_list (ses_log (ses_event demo_env (SesRead None) (demo_session False))) SocketClosed = 0"
  using ses_ends_once [OF demo_reachable1 [of "SesRead None" False]] by (simp add: demo_defs)

text \<open>
  C21. Graceful close on the direct path drains. After \<^verbatim>\<open>Close(false)\<close>, once the write in flight and
  then each queued buffer has been written, in order, the session closes its socket.
\<close>

theorem ses_graceful_drains:
  assumes "reachable (ses_init env) (ses_step env) s" and "\<not> shutdown_in_progress s"
    and "\<not> use_write_queue s"
    and "t = (ses_event env (SesWritten True) ^^ (length (writes_out s) + length (write_deque s))) (ses_Close False s)"
  shows "shutdown_in_progress t \<and> writes_out t = [] \<and> write_deque t = [] \<and>
    ses_log t = ses_log s @ map DirectWrite (write_deque s) @ [SocketCancelled, SocketClosed]"
proof -
  have io: "ses_io_ok s" by (rule ses_io.reachable_inv [OF assms(1)])
  show ?thesis
  proof (cases "write_in_progress s")
    case True
    with io assms(2,3) obtain b where "writes_out s = [b]"
      by (auto simp: ses_io_ok_def length_Suc_conv)
    with True assms(2-4) show ?thesis
      using ses_drain_direct [of "ses_Close False s" b env] by (auto simp: ses_Close_def Let_def)
  next
    case False
    with io assms(2-4) show ?thesis by (auto simp: ses_io_ok_def ses_ops Let_def)
  qed
qed

theorem ses_graceful_drains_witness:
  "ses_log ((ses_event demo_env (SesWritten True) ^^ 2) (ses_Close False
      (ses_event demo_env (SesSend ''b'') (ses_event demo_env (SesSend ''a'') (demo_session False))))) =
   [DirectWrite ''a'', DirectWrite ''b'', SocketCancelled, SocketClosed]"
proof -
  let ?s = "ses_event demo_env (SesSend ''b'') (ses_event demo_env (SesSend ''a'') (demo_session False))"
  have "\<not> shutdown_in_progress ?s" "\<not> use_write_queue ?s" "writes_out ?s = [''a'']"
    "write_deque ?s = [''b'']" "ses_log ?s = [DirectWrite ''a'']"
    by (simp_all add: demo_defs)
  with ses_graceful_drains [OF demo_reachable2 _ _ refl, of "SesSend ''b''" "SesSend ''a''" False]
  show ?thesis by (simp add: numeral_2_eq_2)
qed



text \<open>
  The idle timeout does not survive the first data: the read handler's \<^verbatim>\<open>expires_after\<close> aborts the
  wait on the idle timer and no code waits on it again, so in every later state the idle timer's
  expiry and handler change nothing.
\<close>

theorem ses_idle_timeout_lost:
  assumes "reachable (ses_init env) (ses_step env) s" and "\<not> shutdown_in_progress s"
    and "reads_out s = 1" and "due (idle_timer s) = 0"
    and "(ses_step env)\<^sup>*\<^sup>* (ses_event env (SesRead (Some data)) s) t"
  shows "ses_event env SesIdleTimer (ses_event env SesIdleExpires t) = t"
proof -
  have "framer s \<noteq> None" using ses_end.reachable_inv [OF assms(1)] assms(2) by (simp add: ses_end_ok_def)
  then have "idle_timer (ses_event env (SesRead (Some data)) s) = timer_new"
    using assms(2-4)
    by (auto simp: ses_event_def ses_on_read_def Let_def ses_emit_def ses_StartRead_def timer_defs
        split: sum.splits prod.splits)
  then have "idle_timer t = timer_new" by (rule ses_idle.steps_inv [OF assms(5)])
  then show ?thesis by (cases t) (simp add: ses_event_def timer_defs)
qed

theorem ses_idle_timeout_lost_witness:
  "ses_event demo_env SesIdleTimer (ses_event demo_env SesIdleExpires
     (ses_event demo_env (SesRead (Some ''x'')) (demo_session False))) =
   ses_event demo_env (SesRead (Some ''x'')) (demo_session False)"
  by (rule ses_idle_timeout_lost [OF demo_reachable0 _ _ _ rtranclp.rtrancl_refl])
    (simp_all add: demo_defs)

text \<open>
  A graceful close never finishes when the write queue is used: whatever the queue completes
  afterwards, the session stays open, with both timers cancelled and nothing reported.
\<close>

theorem ses_graceful_queue_never_closes:
  assumes "\<not> shutdown_in_progress s" and "use_write_queue s"
    and "\<forall>ev \<in> set evs. \<exists>i ok. ev = SesQueueWritten i ok"
    and "t = fold (ses_event env) evs (ses_Close False s)"
  shows "\<not> shutdown_in_progress t \<and> ses_log t = ses_log s \<and> ses_graceful t \<and>
    armed (read_timer t) = 0 \<and> armed (idle_timer t) = 0"
proof -
  obtain q where "t = (ses_Close False s)\<lparr>write_queue_sg := q\<rparr>"
    using ses_queue_events [OF assms(3)] assms(4) by blast
  with assms(1,2) show ?thesis by (simp add: ses_Close_def Let_def timer_defs)
qed

theorem ses_graceful_queue_never_closes_witness:
  "\<not> shutdown_in_progress (fold (ses_event demo_env) [SesQueueWritten 0 True]
     (ses_Close False (ses_event demo_env (SesSend ''a'') (demo_session True))))"
proof -
  let ?s = "ses_event demo_env (SesSend ''a'') (demo_session True)"
  have "\<not> shutdown_in_progress ?s" "use_write_queue ?s" by (simp_all add: demo_defs)
  moreover have "\<forall>ev \<in> set [SesQueueWritten 0 True]. \<exists>i ok. ev = SesQueueWritten i ok" by auto
  ultimately show ?thesis
    by (rule ses_graceful_queue_never_closes [OF _ _ _ refl, THEN conjunct1])
qed

text \<open>
  Sending on a session that \<^verbatim>\<open>Shutdown\<close> ended dereferences the framer it reset: \<^verbatim>\<open>AsyncSend\<close> has no
  guard, and the interceptor that could drop the message has been cleared with the bundle.
\<close>

theorem ses_send_after_shutdown:
  assumes "reachable (ses_init env) (ses_step env) s" and "ended_by_Shutdown s"
  shows "ses_AsyncSend env msg s = ses_emit [NullFramer] s"
proof -
  have "framer s = None" "plugin_bundle s = []"
    using ses_end.reachable_inv [OF assms(1)] assms(2) by (auto simp: ses_end_ok_def split: if_splits)
  then show ?thesis by (simp add: ses_AsyncSend_def ses_filter_def GetTypedPlugin_def pb_Get_def)
qed

theorem ses_send_after_shutdown_witness:
  "ses_log (ses_AsyncSend demo_env ''a'' (ses_event demo_env (SesRead None) (demo_session False))) =
   [Disconnected, NullFramer]"
  using ses_send_after_shutdown [OF demo_reachable1 [of "SesRead None" False], of "''a''"]
  by (simp add: demo_defs ended_by_Shutdown_def)

text \<open>
  An exception of the framer wedges the session. It leaves the read handler before the next read
  and after both timers were reset, so no read is outstanding and no timer is armed: whatever the
  peer sends and however long it is silent, nothing more is delivered and the session does not end.
\<close>

theorem ses_framer_exception_wedges:
  assumes "reachable (ses_init env) (ses_step env) s" and "\<not> shutdown_in_progress s" and "\<not> ses_graceful s"
    and "reads_out s = 1" and "due (read_timer s) = 0" and "due (idle_timer s) = 0"
    and "framer s = Some f" and "fr_OnData env f data = (Inl e, f')"
    and "(\<lambda>s t. \<exists>ev. from_peer_or_clock ev \<and> t = ses_event env ev s)\<^sup>*\<^sup>* (ses_event env (SesRead (Some data)) s) t"
  shows "reads_out t = 0 \<and> \<not> shutdown_in_progress t \<and> delivered t = delivered s \<and>
    armed (read_timer t) = 0 \<and> armed (idle_timer t) = 0"
proof -
  have "ses_wedged (delivered s) (ses_event env (SesRead (Some data)) s)"
    using assms(2-8)
    by (simp add: ses_wedged_def ses_event_def ses_on_read_def ses_emit_def Let_def timer_defs delivered_def
        List.map_filter_def)
  then have "ses_wedged (delivered s) t" by (rule ses_wedge.steps_inv [OF assms(9)])
  then show ?thesis by (simp add: ses_wedged_def timer_defs)
qed

theorem ses_framer_exception_wedges_witness:
  "reads_out (ses_event demo_env (SesRead (Some [])) (demo_session False)) = 0"
  by (rule ses_framer_exception_wedges [where s = "demo_session False" and f = "()" and f' = "()" and e = "''empty''"
        and data = "[]", OF demo_reachable0 _ _ _ _ _ _ _ rtranclp.rtrancl_refl, THEN conjunct1])
    (simp_all add: demo_defs)

end
