(* ===== verification/Raw_Buffer.thy ===== *)
theory Raw_Buffer
  imports Prelude
begin

text \<open>
  \<^verbatim>\<open>src/src/vectro/frame/raw_buffer.h\<close> and \<^verbatim>\<open>raw_buffer.cc\<close>: the move-only owner of one memory
  block. The allocator and deleter are function pointers of the caller, so they are functions on
  an abstract heap \<open>'h\<close>; the heap itself (\<open>mem\<close>, with \<^verbatim>\<open>::operator new\<close> and \<^verbatim>\<open>::operator delete\<close>,
  the pair the framer passes) is the second half of the theory. The locale \<open>allocator\<close> states what
  a \<^verbatim>\<open>RawBuffer\<close> needs of such a pair, and the ownership results are proved in it once.
\<close>

subsection \<open>The class\<close>

type_synonym 'h deleter = "address \<Rightarrow> nat \<Rightarrow> 'h \<Rightarrow> 'h"
type_synonym 'h allocfn = "nat \<Rightarrow> 'h \<Rightarrow> address option \<times> 'h"

datatype rb_error = InvalidArgument string | BadAlloc

record 'h raw_buffer =
  rb_data :: "address option"
  rb_size :: nat
  rb_deleter :: "'h deleter option"

definition rb_null :: "'h raw_buffer" where
  "rb_null = \<lparr>rb_data = None, rb_size = 0, rb_deleter = None\<rparr>"

definition rb_new :: "address option \<Rightarrow> nat \<Rightarrow> 'h deleter option \<Rightarrow> rb_error + 'h raw_buffer" where
  "rb_new d s del =
     (if Option.is_none d \<or> s = 0 \<or> Option.is_none del
      then Inl (InvalidArgument ''RawBuffer: invalid construction arguments.'')
      else Inr \<lparr>rb_data = d, rb_size = s, rb_deleter = del\<rparr>)"

definition rb_Make ::
  "nat \<Rightarrow> 'h allocfn option \<Rightarrow> 'h deleter option \<Rightarrow> 'h \<Rightarrow> (rb_error + 'h raw_buffer) \<times> 'h" where
  "rb_Make s alloc del h =
     (case alloc of
        None \<Rightarrow> (Inl (InvalidArgument ''RawBuffer: allocator and deleter must be provided.''), h)
      | Some a \<Rightarrow>
          if Option.is_none del
          then (Inl (InvalidArgument ''RawBuffer: allocator and deleter must be provided.''), h)
          else (case a s h of
                  (None, h') \<Rightarrow> (Inl BadAlloc, h')
                | (Some p, h') \<Rightarrow> (rb_new (Some p) s del, h')))"

definition rb_valid :: "'h raw_buffer \<Rightarrow> bool" where
  "rb_valid b \<longleftrightarrow> rb_data b \<noteq> None \<and> 0 < rb_size b"

definition rb_Reset :: "'h raw_buffer \<Rightarrow> 'h \<Rightarrow> 'h raw_buffer \<times> 'h" where
  "rb_Reset b h =
     (rb_null,
      (case (rb_data b, rb_deleter b) of
         (Some p, Some del) \<Rightarrow> del p (rb_size b) h
       | _ \<Rightarrow> h))"

text \<open>\<^verbatim>\<open>MoveFrom\<close> overwrites \<^verbatim>\<open>*this\<close> with the other buffer's fields and clears the other.\<close>

definition rb_MoveFrom :: "'h raw_buffer \<Rightarrow> 'h raw_buffer \<Rightarrow> 'h raw_buffer \<times> 'h raw_buffer" where
  "rb_MoveFrom this other =
     (this\<lparr>rb_data := rb_data other, rb_size := rb_size other, rb_deleter := rb_deleter other\<rparr>,
      other\<lparr>rb_data := None, rb_size := 0, rb_deleter := None\<rparr>)"

definition rb_move_ctor :: "'h raw_buffer \<Rightarrow> 'h raw_buffer \<times> 'h raw_buffer" where
  "rb_move_ctor other = rb_MoveFrom rb_null other"

definition rb_destroy :: "'h raw_buffer \<Rightarrow> 'h \<Rightarrow> 'h" where
  "rb_destroy b h = snd (rb_Reset b h)"

text \<open>
  Move assignment compares the addresses of the two objects, so it works on named objects: a
  store of buffer objects, \<open>None\<close> where no object is alive.
\<close>

type_synonym 'h objects = "nat \<rightharpoonup> 'h raw_buffer"

definition rb_move_assign :: "nat \<Rightarrow> nat \<Rightarrow> 'h objects \<Rightarrow> 'h \<Rightarrow> ('h objects \<times> 'h) option" where
  "rb_move_assign i j objs h =
     (case (objs i, objs j) of
        (Some this, Some other) \<Rightarrow>
          if i \<noteq> j then
            (let (reset, h') = rb_Reset this h;
                 (this', other') = rb_MoveFrom reset other
             in Some (objs(i \<mapsto> this', j \<mapsto> other'), h'))
          else Some (objs, h)
      | _ \<Rightarrow> None)"

lemma rb_MoveFrom_eq: "rb_MoveFrom (this :: 'h raw_buffer) other = (other, rb_null)"
  by (simp add: rb_MoveFrom_def rb_null_def)

lemma rb_move_ctor_eq: "rb_move_ctor other = (other, rb_null)"
  by (simp add: rb_move_ctor_def rb_MoveFrom_eq)

lemma rb_null_simps [simp]:
  "rb_data rb_null = None" "rb_size rb_null = 0" "rb_deleter rb_null = None"
  by (simp_all add: rb_null_def)

lemma rb_Reset_null [simp]: "rb_Reset rb_null h = (rb_null, h)"
  by (simp add: rb_Reset_def)

lemma rb_new_Inr_iff:
  "rb_new d s del = Inr b \<longleftrightarrow>
     d \<noteq> None \<and> 0 < s \<and> del \<noteq> None \<and> b = \<lparr>rb_data = d, rb_size = s, rb_deleter = del\<rparr>"
  by (auto simp: rb_new_def Option.is_none_def)

lemma rb_Make_Inr_iff:
  "rb_Make s alloc del h = (Inr b, h') \<longleftrightarrow>
     (\<exists>a f p. alloc = Some a \<and> del = Some f \<and> a s h = (Some p, h') \<and> 0 < s \<and>
        b = \<lparr>rb_data = Some p, rb_size = s, rb_deleter = Some f\<rparr>)"
  by (auto simp: rb_Make_def rb_new_Inr_iff Option.is_none_def split: option.splits prod.splits)

subsection \<open>What a buffer needs of its allocator and deleter\<close>

text \<open>A buffer object owns a block when it would free exactly that block.\<close>

definition owns_block :: "'h deleter \<Rightarrow> (address \<rightharpoonup> payload) \<Rightarrow> 'h raw_buffer \<Rightarrow> bool" where
  "owns_block del blocks b \<longleftrightarrow> b = rb_null \<or>
     (\<exists>p bs. rb_data b = Some p \<and> rb_deleter b = Some del \<and> blocks p = Some bs \<and>
        rb_size b = length bs)"

lemma owns_block_null [simp]: "owns_block del blocks rb_null"
  by (simp add: owns_block_def)

lemma owns_block_data:
  "owns_block del blocks b \<Longrightarrow> rb_data b = Some p \<Longrightarrow>
     \<exists>bs. blocks p = Some bs \<and> rb_size b = length bs \<and> rb_deleter b = Some del"
  by (auto simp: owns_block_def)

lemma owns_block_no_data: "owns_block del blocks b \<Longrightarrow> rb_data b = None \<Longrightarrow> b = rb_null"
  by (auto simp: owns_block_def)

lemma owns_block_update:
  "owns_block del blocks b \<Longrightarrow> rb_data b \<noteq> Some p \<Longrightarrow> owns_block del (blocks(p := x)) b"
  by (auto simp: owns_block_def)

locale allocator =
  fixes new :: "'h allocfn"
    and delete :: "'h deleter"
    and blocks :: "'h \<Rightarrow> address \<rightharpoonup> payload"
    and bad :: "'h \<Rightarrow> bool"
    and invar :: "'h \<Rightarrow> bool"
  assumes new_fresh: "invar h \<Longrightarrow> new s h = (Some p, h') \<Longrightarrow>
      blocks h p = None \<and> bad h' = bad h \<and> invar h' \<and>
      (\<exists>bs. length bs = s \<and> blocks h' = (blocks h)(p \<mapsto> bs))"
    and new_fails: "new s h = (None, h') \<Longrightarrow> h' = h"
    and delete_live: "blocks h p = Some bs \<Longrightarrow>
      blocks (delete p (length bs) h) = (blocks h)(p := None) \<and>
      bad (delete p (length bs) h) = bad h \<and> (invar h \<longrightarrow> invar (delete p (length bs) h))"
begin

lemma Make_owns:
  assumes "invar h" and "rb_Make s (Some new) (Some delete) h = (Inr b, h')"
  shows "owns_block delete (blocks h') b \<and> rb_valid b \<and> rb_size b = s \<and> bad h' = bad h \<and> invar h' \<and>
    (\<exists>p bs. rb_data b = Some p \<and> blocks h p = None \<and> length bs = s \<and> blocks h' = (blocks h)(p \<mapsto> bs))"
proof -
  from assms(2) obtain p where p: "new s h = (Some p, h')" "0 < s"
    and b: "b = \<lparr>rb_data = Some p, rb_size = s, rb_deleter = Some delete\<rparr>"
    by (auto simp: rb_Make_Inr_iff)
  from new_fresh [OF assms(1) p(1)] p(2) show ?thesis
    by (auto simp: b owns_block_def rb_valid_def)
qed

lemma Make_fails:
  assumes "invar h" and "rb_Make s (Some new) (Some delete) h = (Inl e, h')"
  shows "bad h' = bad h \<and> invar h' \<and>
    (s = 0 \<and> e \<noteq> BadAlloc \<and> (\<exists>p. blocks h p = None \<and> blocks h' = (blocks h)(p \<mapsto> []))
     \<or> e = BadAlloc \<and> h' = h)"
proof (cases "new s h")
  case (Pair r h1)
  show ?thesis
  proof (cases r)
    case None
    with Pair assms new_fails [of s h h1] show ?thesis
      by (simp add: rb_Make_def)
  next
    case (Some p)
    with Pair assms(2) have "s = 0" "e \<noteq> BadAlloc" "h1 = h'"
      by (auto simp: rb_Make_def rb_new_def split: if_splits)
    with new_fresh [OF assms(1)] Pair Some show ?thesis
      by auto
  qed
qed

lemma Reset_frees:
  assumes "owns_block delete (blocks h) b"
  shows "blocks (snd (rb_Reset b h)) =
      (case rb_data b of None \<Rightarrow> blocks h | Some p \<Rightarrow> (blocks h)(p := None)) \<and>
    bad (snd (rb_Reset b h)) = bad h \<and> (invar h \<longrightarrow> invar (snd (rb_Reset b h)))"
  using assms delete_live by (auto simp: owns_block_def rb_Reset_def)

lemma Reset_keeps_other:
  assumes "owns_block delete (blocks h) b" and "owns_block delete (blocks h) c"
    and "rb_data c = None \<or> rb_data c \<noteq> rb_data b"
  shows "owns_block delete (blocks (snd (rb_Reset b h))) c"
proof (cases "rb_data b")
  case None
  with assms Reset_frees [OF assms(1)] show ?thesis by simp
next
  case (Some p)
  with assms Reset_frees [OF assms(1)] show ?thesis
    by (auto intro: owns_block_update dest: owns_block_no_data)
qed

end

subsection \<open>The C++ heap\<close>

text \<open>
  \<open>live\<close> maps the address of a block to its bytes; \<open>budget\<close> is the memory left, so that
  \<^verbatim>\<open>::operator new\<close> can fail; \<open>bad_free\<close> records that some \<^verbatim>\<open>::operator delete\<close> got an address that
  is not a live block of that size (undefined behaviour). The bytes of a new block are whatever
  \<open>fill\<close> says: the memory is not initialised.
\<close>

record mem =
  live :: "address \<rightharpoonup> payload"
  next_addr :: address
  budget :: nat
  bad_free :: bool

definition op_new :: "(address \<Rightarrow> nat \<Rightarrow> char) \<Rightarrow> mem allocfn" where
  "op_new fill s m =
     (if s \<le> budget m
      then (Some (next_addr m),
            m\<lparr>live := (live m)(next_addr m \<mapsto> map (fill (next_addr m)) [0..<s]),
              next_addr := Suc (next_addr m), budget := budget m - s\<rparr>)
      else (None, m))"

definition op_delete :: "mem deleter" where
  "op_delete p s m =
     (case live m p of
        Some bs \<Rightarrow> if length bs = s
                   then m\<lparr>live := (live m)(p := None), budget := budget m + s\<rparr>
                   else m\<lparr>bad_free := True\<rparr>
      | None \<Rightarrow> m\<lparr>bad_free := True\<rparr>)"

definition mem_wf :: "mem \<Rightarrow> bool" where
  "mem_wf m \<longleftrightarrow> (\<forall>p. next_addr m \<le> p \<longrightarrow> live m p = None)"

text \<open>Reads and writes of a block; \<open>None\<close> is an access outside every live block.\<close>

definition mem_read :: "mem \<Rightarrow> address \<Rightarrow> nat \<Rightarrow> char option" where
  "mem_read m p i =
     (case live m p of None \<Rightarrow> None | Some bs \<Rightarrow> if i < length bs then Some (bs ! i) else None)"

definition mem_slice :: "mem \<Rightarrow> address \<Rightarrow> nat \<Rightarrow> nat \<Rightarrow> payload option" where
  "mem_slice m p off n =
     (case live m p of None \<Rightarrow> None
      | Some bs \<Rightarrow> if off + n \<le> length bs then Some (take n (drop off bs)) else None)"

definition mem_write :: "mem \<Rightarrow> address \<Rightarrow> nat \<Rightarrow> payload \<Rightarrow> mem option" where
  "mem_write m p off xs =
     (case live m p of None \<Rightarrow> None
      | Some bs \<Rightarrow> if off + length xs \<le> length bs
                   then Some (m\<lparr>live := (live m)(p \<mapsto> take off bs @ xs @ drop (off + length xs) bs)\<rparr>)
                   else None)"

lemma op_new_Some:
  "op_new fill s m = (Some p, m') \<longleftrightarrow>
     s \<le> budget m \<and> p = next_addr m \<and>
     m' = m\<lparr>live := (live m)(p \<mapsto> map (fill p) [0..<s]), next_addr := Suc p, budget := budget m - s\<rparr>"
  by (auto simp: op_new_def)

lemma op_new_None: "op_new fill s m = (None, m') \<longleftrightarrow> budget m < s \<and> m' = m"
  by (auto simp: op_new_def)

lemma mem_wf_op_delete: "mem_wf m \<Longrightarrow> mem_wf (op_delete p s m)"
  by (auto simp: mem_wf_def op_delete_def split: option.splits)

interpretation cpp_heap: allocator "op_new fill" op_delete live bad_free mem_wf
proof
  fix h s p h'
  assume "mem_wf h" "op_new fill s h = (Some p, h')"
  then show "live h p = None \<and> bad_free h' = bad_free h \<and> mem_wf h' \<and>
      (\<exists>bs. length bs = s \<and> live h' = (live h)(p \<mapsto> bs))"
    by (auto simp: op_new_Some mem_wf_def intro!: exI [of _ "map (fill p) [0..<s]"])
next
  fix h :: mem and p bs
  assume "live h p = Some bs"
  then show "live (op_delete p (length bs) h) = (live h)(p := None) \<and>
      bad_free (op_delete p (length bs) h) = bad_free h \<and>
      (mem_wf h \<longrightarrow> mem_wf (op_delete p (length bs) h))"
    by (auto simp: op_delete_def mem_wf_op_delete mem_wf_def)
qed (simp add: op_new_None)

lemma mem_slice_eq:
  "live m p = Some bs \<Longrightarrow> off + n \<le> length bs \<Longrightarrow> mem_slice m p off n = Some (take n (drop off bs))"
  by (simp add: mem_slice_def)

lemma mem_write_eq:
  "live m p = Some bs \<Longrightarrow> off + length xs \<le> length bs \<Longrightarrow>
     mem_write m p off xs =
       Some (m\<lparr>live := (live m)(p \<mapsto> take off bs @ xs @ drop (off + length xs) bs)\<rparr>)"
  by (simp add: mem_write_def)

subsection \<open>Programs over buffer objects\<close>

text \<open>
  A program creates, moves, resets and destroys buffer objects in any order. The sizes it asks
  \<^verbatim>\<open>Make\<close> for are restricted by \<open>ok\<close>.
\<close>

type_synonym rb_state = "mem objects \<times> mem"

definition rb_init :: "rb_state \<Rightarrow> bool" where
  "rb_init st \<longleftrightarrow> fst st = Map.empty \<and> live (snd st) = Map.empty \<and> \<not> bad_free (snd st)"

inductive rb_step :: "(address \<Rightarrow> nat \<Rightarrow> char) \<Rightarrow> (nat \<Rightarrow> bool) \<Rightarrow> rb_state \<Rightarrow> rb_state \<Rightarrow> bool"
  for fill :: "address \<Rightarrow> nat \<Rightarrow> char" and ok :: "nat \<Rightarrow> bool"
where
  default_ctor: "objs i = None \<Longrightarrow> rb_step fill ok (objs, h) (objs(i \<mapsto> rb_null), h)"
| make: "objs i = None \<Longrightarrow> ok s \<Longrightarrow>
     rb_Make s (Some (op_new fill)) (Some op_delete) h = (Inr b, h') \<Longrightarrow>
     rb_step fill ok (objs, h) (objs(i \<mapsto> b), h')"
| make_throws: "ok s \<Longrightarrow>
     rb_Make s (Some (op_new fill)) (Some op_delete) h = (Inl e, h') \<Longrightarrow>
     rb_step fill ok (objs, h) (objs, h')"
| move_ctor: "objs i = None \<Longrightarrow> objs j = Some b \<Longrightarrow> rb_move_ctor b = (b', o') \<Longrightarrow>
     rb_step fill ok (objs, h) (objs(i \<mapsto> b', j \<mapsto> o'), h)"
| move_assign: "rb_move_assign i j objs h = Some (objs', h') \<Longrightarrow>
     rb_step fill ok (objs, h) (objs', h')"
| reset: "objs i = Some b \<Longrightarrow> rb_Reset b h = (b', h') \<Longrightarrow>
     rb_step fill ok (objs, h) (objs(i \<mapsto> b'), h')"
| destroy: "objs i = Some b \<Longrightarrow>
     rb_step fill ok (objs, h) (objs(i := None), rb_destroy b h)"

definition owned :: "mem objects \<Rightarrow> address set" where
  "owned objs = {p. \<exists>i b. objs i = Some b \<and> rb_data b = Some p}"

text \<open>Every object owns its block and no two objects own the same one.\<close>

definition rb_inv :: "rb_state \<Rightarrow> bool" where
  "rb_inv st \<longleftrightarrow> (case st of (objs, h) \<Rightarrow>
     mem_wf h \<and> \<not> bad_free h \<and>
     (\<forall>i b. objs i = Some b \<longrightarrow> owns_block op_delete (live h) b) \<and>
     (\<forall>i j b c. objs i = Some b \<longrightarrow> objs j = Some c \<longrightarrow> i \<noteq> j \<longrightarrow>
        rb_data b = None \<or> rb_data c \<noteq> rb_data b))"

lemma rb_invD:
  assumes "rb_inv (objs, h)"
  shows "mem_wf h" "\<not> bad_free h"
    "objs i = Some b \<Longrightarrow> owns_block op_delete (live h) b"
    "objs i = Some b \<Longrightarrow> objs j = Some c \<Longrightarrow> i \<noteq> j \<Longrightarrow> rb_data b = None \<or> rb_data c \<noteq> rb_data b"
  using assms unfolding rb_inv_def by (simp, simp, simp, fastforce)

lemma rb_inv_drop: "rb_inv (objs, h) \<Longrightarrow> rb_inv (objs(i := None), h)"
  by (auto simp: rb_inv_def)

lemma rb_inv_null: "rb_inv (objs, h) \<Longrightarrow> rb_inv (objs(i \<mapsto> rb_null), h)"
  by (auto simp: rb_inv_def)

lemma rb_inv_move:
  assumes "rb_inv (objs, h)" and "objs j = Some c" and "i \<noteq> j"
    and "objs i = None \<or> objs i = Some rb_null"
  shows "rb_inv (objs(i \<mapsto> c, j \<mapsto> rb_null), h)"
  unfolding rb_inv_def using assms rb_invD [OF assms(1)]
  by (auto split: if_splits)

lemma rb_inv_add:
  assumes inv: "rb_inv (objs, h)" and fresh: "live h p = None" and i: "objs i = None"
    and h': "live h' = (live h)(p \<mapsto> bs)" "\<not> bad_free h'" "mem_wf h'"
    and b: "owns_block op_delete (live h') b" "rb_data b = Some p"
  shows "rb_inv (objs(i \<mapsto> b), h')"
proof -
  have other: "rb_data c \<noteq> Some p" if "objs j = Some c" for j c
    using rb_invD(3) [OF inv that] fresh by (auto simp: owns_block_def)
  with rb_invD(3) [OF inv] have "objs j = Some c \<Longrightarrow> owns_block op_delete (live h') c" for j c
    by (simp add: h' owns_block_update)
  with other rb_invD(4) [OF inv] i b h' show ?thesis
    unfolding rb_inv_def by (auto split: if_splits)
qed

lemma rb_inv_leak:
  assumes inv: "rb_inv (objs, h)" and fresh: "live h p = None"
    and h': "live h' = (live h)(p \<mapsto> bs)" "\<not> bad_free h'" "mem_wf h'"
  shows "rb_inv (objs, h')"
proof -
  have "objs j = Some c \<Longrightarrow> owns_block op_delete (live h') c" for j c
    using rb_invD(3) [OF inv] fresh h' by (fastforce simp: owns_block_def)
  with rb_invD(4) [OF inv] h' show ?thesis
    unfolding rb_inv_def by blast
qed

lemma rb_inv_Reset:
  assumes inv: "rb_inv (objs, h)" and i: "objs i = Some b"
  shows "rb_inv (objs(i \<mapsto> rb_null), snd (rb_Reset b h))"
proof -
  let ?h = "snd (rb_Reset b h)"
  have "owns_block op_delete (live ?h) c" if "objs j = Some c" "j \<noteq> i" for j c
    using cpp_heap.Reset_keeps_other [OF rb_invD(3) [OF inv i] rb_invD(3) [OF inv that(1)]]
      rb_invD(4) [OF inv that(1) i that(2)] by auto
  moreover have "mem_wf ?h" "\<not> bad_free ?h"
    using cpp_heap.Reset_frees [OF rb_invD(3) [OF inv i]] rb_invD(1,2) [OF inv] by auto
  ultimately show ?thesis
    using rb_invD(4) [OF inv] unfolding rb_inv_def by (auto split: if_splits)
qed

lemma rb_step_inv:
  assumes "rb_step fill ok st st'" and "rb_inv st"
  shows "rb_inv st'"
  using assms
proof (induction rule: rb_step.induct)
  case (default_ctor objs i h)
  then show ?case by (simp add: rb_inv_null)
next
  case (make objs i s h b h')
  with cpp_heap.Make_owns [OF rb_invD(1) [OF make.prems] make.hyps(3)] rb_invD(2) [OF make.prems]
  show ?case by (metis rb_inv_add)
next
  case (make_throws s h e h' objs)
  with cpp_heap.Make_fails [OF rb_invD(1) [OF make_throws.prems] make_throws.hyps(2)]
    rb_invD(2) [OF make_throws.prems]
  show ?case by (metis rb_inv_leak)
next
  case (move_ctor objs i j b b' o' h)
  then show ?case by (auto simp: rb_move_ctor_eq intro: rb_inv_move)
next
  case (move_assign i j objs h objs' h')
  then obtain this other where o: "objs i = Some this" "objs j = Some other"
    by (auto simp: rb_move_assign_def split: option.splits)
  show ?case
  proof (cases "i = j")
    case False
    with move_assign o have "objs' = objs(i \<mapsto> other, j \<mapsto> rb_null)" "h' = snd (rb_Reset this h)"
      by (auto simp: rb_move_assign_def rb_MoveFrom_eq split: prod.splits)
    with rb_inv_move [OF rb_inv_Reset [OF move_assign.prems o(1)], of j other i] False o show ?thesis
      by simp
  qed (use move_assign o in \<open>simp add: rb_move_assign_def\<close>)
next
  case (reset objs i b h b' h')
  then show ?case using rb_inv_Reset [of objs h i b] by (simp add: rb_Reset_def)
next
  case (destroy objs i b h)
  then show ?case
    using rb_inv_drop [OF rb_inv_Reset, of objs h i b i] by (simp add: rb_destroy_def)
qed

interpretation rb_owner: inductive_invariant rb_init "rb_step fill ok" rb_inv
proof
  fix st :: rb_state
  assume "rb_init st"
  then show "rb_inv st" by (auto simp: rb_init_def rb_inv_def mem_wf_def)
qed (rule rb_step_inv)

text \<open>When no \<^verbatim>\<open>Make\<close> asks for zero bytes, the live blocks are exactly the owned ones.\<close>

definition rb_tight :: "rb_state \<Rightarrow> bool" where
  "rb_tight st \<longleftrightarrow> rb_inv st \<and> (case st of (objs, h) \<Rightarrow> dom (live h) = owned objs)"

lemma owned_upd:
  "owned (objs(i := x)) = (case x of Some b \<Rightarrow> set_option (rb_data b) | None \<Rightarrow> {})
     \<union> {p. \<exists>j b. j \<noteq> i \<and> objs j = Some b \<and> rb_data b = Some p}"
  by (auto simp: owned_def split: option.splits)

lemma owned_split:
  "owned objs = (case objs i of Some b \<Rightarrow> set_option (rb_data b) | None \<Rightarrow> {})
     \<union> {p. \<exists>j b. j \<noteq> i \<and> objs j = Some b \<and> rb_data b = Some p}"
  using owned_upd [of objs i "objs i"] by simp

lemma owned_null: "objs i = None \<or> objs i = Some rb_null \<Longrightarrow> owned (objs(i \<mapsto> rb_null)) = owned objs"
  using owned_split [of objs i] by (auto simp: owned_upd split: option.splits)

lemma owned_add:
  "objs i = None \<Longrightarrow> rb_data b = Some p \<Longrightarrow> owned (objs(i \<mapsto> b)) = insert p (owned objs)"
  using owned_split [of objs i] by (simp add: owned_upd)

lemma ownedI: "objs i = Some b \<Longrightarrow> rb_data b = Some p \<Longrightarrow> p \<in> owned objs"
  by (auto simp: owned_def)

lemma owned_move:
  assumes "objs j = Some c" and "i \<noteq> j" and "objs i = None \<or> objs i = Some rb_null"
  shows "owned (objs(i \<mapsto> c, j \<mapsto> rb_null)) = owned objs"
proof
  show "owned (objs(i \<mapsto> c, j \<mapsto> rb_null)) \<subseteq> owned objs"
    using assms by (auto simp: owned_def split: if_splits)
  have "p \<in> owned (objs(i \<mapsto> c, j \<mapsto> rb_null))" if "objs k = Some b" "rb_data b = Some p" for k b p
    using assms that
    by (cases "k = j"; cases "k = i") (auto intro: ownedI [where i = i] ownedI [where i = k])
  then show "owned objs \<subseteq> owned (objs(i \<mapsto> c, j \<mapsto> rb_null))"
    unfolding owned_def [of objs] by blast
qed

lemma owned_Reset:
  assumes "rb_tight (objs, h)" and "objs i = Some b"
  shows "dom (live (snd (rb_Reset b h))) = owned (objs(i \<mapsto> rb_null))"
    and "owned (objs(i := None)) = owned (objs(i \<mapsto> rb_null))"
proof -
  from assms have inv: "rb_inv (objs, h)" and dom: "dom (live h) = owned objs"
    by (simp_all add: rb_tight_def)
  let ?rest = "{p. \<exists>j b. j \<noteq> i \<and> objs j = Some b \<and> rb_data b = Some p}"
  have "p \<notin> ?rest" if "rb_data b = Some p" for p
    using rb_invD(4) [OF inv assms(2)] that by fastforce
  moreover have "dom (live h) = set_option (rb_data b) \<union> ?rest"
    using dom owned_split [of objs i] assms(2) by simp
  ultimately show "dom (live (snd (rb_Reset b h))) = owned (objs(i \<mapsto> rb_null))"
    using cpp_heap.Reset_frees [OF rb_invD(3) [OF inv assms(2)]]
    by (cases "rb_data b") (auto simp: owned_upd)
qed (simp add: owned_upd)

lemma rb_step_tight:
  assumes "rb_step fill (\<lambda>s. 0 < s) st st'" and "rb_tight st"
  shows "rb_tight st'"
proof -
  from assms have inv': "rb_inv st'"
    by (auto simp: rb_tight_def intro: rb_step_inv)
  from assms have "case st' of (objs, h) \<Rightarrow> dom (live h) = owned objs"
  proof (induction rule: rb_step.induct)
    case (default_ctor objs i h)
    then show ?case using owned_null [of objs i] by (simp add: rb_tight_def)
  next
    case (make objs i s h b h')
    then have "mem_wf h" by (auto simp: rb_tight_def intro: rb_invD(1))
    from cpp_heap.Make_owns [OF this make.hyps(3)] make.hyps(1) make.prems
    show ?case by (elim conjE exE) (simp add: rb_tight_def owned_add)
  next
    case (make_throws s h e h' objs)
    then have "mem_wf h" by (auto simp: rb_tight_def intro: rb_invD(1))
    from cpp_heap.Make_fails [OF this make_throws.hyps(2)] make_throws.hyps(1) make_throws.prems
    show ?case by (auto simp: rb_tight_def)
  next
    case (move_ctor objs i j b b' o' h)
    moreover have "i \<noteq> j" using move_ctor by auto
    ultimately show ?case by (simp add: rb_move_ctor_eq rb_tight_def owned_move)
  next
    case (move_assign i j objs h objs' h')
    then obtain this other where o: "objs i = Some this" "objs j = Some other"
      by (auto simp: rb_move_assign_def split: option.splits)
    show ?case
    proof (cases "i = j")
      case False
      with move_assign o have "objs' = objs(i \<mapsto> other, j \<mapsto> rb_null)" "h' = snd (rb_Reset this h)"
        by (auto simp: rb_move_assign_def rb_MoveFrom_eq split: prod.splits)
      with owned_Reset(1) [OF move_assign.prems o(1)] owned_move [of "objs(i \<mapsto> rb_null)" j other i]
        False o show ?thesis by simp
    qed (use move_assign o in \<open>simp add: rb_move_assign_def rb_tight_def\<close>)
  next
    case (reset objs i b h b' h')
    then have "b' = rb_null" "h' = snd (rb_Reset b h)" by (auto simp: rb_Reset_def)
    with owned_Reset(1) [OF reset.prems reset.hyps(1)] show ?case by simp
  next
    case (destroy objs i b h)
    with owned_Reset [OF destroy.prems destroy.hyps] show ?case by (simp add: rb_destroy_def)
  qed
  with inv' show ?thesis by (simp add: rb_tight_def)
qed

interpretation rb_leakfree: inductive_invariant rb_init "rb_step fill (\<lambda>s. 0 < s)" rb_tight
proof
  fix st :: rb_state
  assume "rb_init st"
  then show "rb_tight st" by (auto simp: rb_tight_def rb_init_def rb_inv_def mem_wf_def owned_def)
qed (rule rb_step_tight)

subsection \<open>Properties\<close>

definition mem0 :: mem where
  "mem0 = \<lparr>live = Map.empty, next_addr = 1, budget = 4096, bad_free = False\<rparr>"


lemma rb_run_example:
  fixes fill :: "address \<Rightarrow> nat \<Rightarrow> char"
  defines "h \<equiv> snd (op_new fill 3 mem0)"
    and "b \<equiv> \<lparr>rb_data = Some 1, rb_size = 3, rb_deleter = Some op_delete\<rparr>"
  assumes "ok 3"
  shows "reachable rb_init (rb_step fill ok) ([0 \<mapsto> b], h)"
    and "reachable rb_init (rb_step fill ok) ([0 \<mapsto> rb_null, 1 \<mapsto> b], h)"
    and "reachable rb_init (rb_step fill ok) (Map.empty, rb_destroy b h)"
proof -
  have start: "reachable rb_init (rb_step fill ok) (Map.empty, mem0)"
    by (rule reachable_init) (simp add: rb_init_def mem0_def)
  have "rb_Make 3 (Some (op_new fill)) (Some op_delete) mem0 = (Inr b, h)"
    by (simp add: rb_Make_Inr_iff h_def b_def op_new_def mem0_def)
  with start show made: "reachable rb_init (rb_step fill ok) ([0 \<mapsto> b], h)"
    using assms(3) by (auto intro: reachable_step rb_step.make)
  have "rb_step fill ok ([0 \<mapsto> b], h) ([0 \<mapsto> b](1 \<mapsto> b, 0 \<mapsto> rb_null), h)"
    by (rule rb_step.move_ctor) (simp_all add: rb_move_ctor_eq)
  with made have "reachable rb_init (rb_step fill ok) ([0 \<mapsto> b](1 \<mapsto> b, 0 \<mapsto> rb_null), h)"
    by (rule reachable_step)
  then show "reachable rb_init (rb_step fill ok) ([0 \<mapsto> rb_null, 1 \<mapsto> b], h)"
    by (simp add: fun_upd_twist)
  have "rb_step fill ok ([0 \<mapsto> b], h) ([0 \<mapsto> b](0 := None), rb_destroy b h)"
    by (rule rb_step.destroy) simp
  with made have "reachable rb_init (rb_step fill ok) ([0 \<mapsto> b](0 := None), rb_destroy b h)"
    by (rule reachable_step)
  then show "reachable rb_init (rb_step fill ok) (Map.empty, rb_destroy b h)"
    by simp
qed


text \<open>
  C32. No leak: if no \<^verbatim>\<open>Make\<close> asks for zero bytes, then in every reachable state the live blocks
  are exactly the blocks owned by some object; once all objects are destroyed nothing is allocated.
\<close>

theorem rb_no_leak:
  assumes "reachable rb_init (rb_step fill (\<lambda>s. 0 < s)) (objs, h)"
  shows "dom (live h) = {p. \<exists>i b. objs i = Some b \<and> rb_data b = Some p} \<and>
    (objs = Map.empty \<longrightarrow> live h = Map.empty)"
  using rb_leakfree.reachable_inv [OF assms] by (auto simp: rb_tight_def owned_def)

theorem rb_no_leak_witness:
  "live (rb_destroy \<lparr>rb_data = Some 1, rb_size = 3, rb_deleter = Some op_delete\<rparr>
      (snd (op_new (\<lambda>_ _. CHR ''x'') 3 mem0))) = Map.empty"
  using rb_no_leak [OF rb_run_example(3)] by simp

text \<open>
  \<^verbatim>\<open>Make\<close>, all outcomes: a missing allocator or deleter is \<^verbatim>\<open>std::invalid_argument\<close> before
  anything is allocated; a failing allocator is \<^verbatim>\<open>std::bad_alloc\<close>; a positive size gives a valid
  buffer that owns a fresh block of that size; size zero allocates first and lets the constructor
  throw afterwards, so the caller gets \<^verbatim>\<open>std::invalid_argument\<close>, no object, and a block that stays
  live with no owner.
\<close>

theorem rb_Make_outcomes:
  assumes "mem_wf m"
  shows "(\<exists>e. rb_Make s None del m = (Inl (InvalidArgument e), m)) \<and>
    (\<exists>e. rb_Make s (Some (op_new fill)) None m = (Inl (InvalidArgument e), m)) \<and>
    (budget m < s \<longrightarrow> rb_Make s (Some (op_new fill)) (Some op_delete) m = (Inl BadAlloc, m)) \<and>
    (s \<le> budget m \<and> 0 < s \<longrightarrow>
       (\<exists>b m' bs. rb_Make s (Some (op_new fill)) (Some op_delete) m = (Inr b, m') \<and>
          rb_valid b \<and> rb_data b = Some (next_addr m) \<and> rb_size b = s \<and>
          live m (next_addr m) = None \<and> live m' = (live m)(next_addr m \<mapsto> bs) \<and> length bs = s)) \<and>
    (\<exists>e m'. rb_Make 0 (Some (op_new fill)) (Some op_delete) m = (Inl (InvalidArgument e), m') \<and>
       live m (next_addr m) = None \<and> live m' = (live m)(next_addr m \<mapsto> []))"
proof -
  have "\<exists>bs. live (snd (op_new fill s m)) = (live m)(next_addr m \<mapsto> bs) \<and> length bs = s"
    if "s \<le> budget m"
    using that by (auto simp: op_new_def intro!: exI [of _ "map (fill (next_addr m)) [0..<s]"])
  with assms show ?thesis
    by (auto simp: rb_Make_def rb_new_def op_new_def mem_wf_def rb_valid_def split: option.splits)
qed

theorem rb_Make_outcomes_witness:
  "(\<exists>e m'. rb_Make 0 (Some (op_new (\<lambda>_ _. CHR ''x''))) (Some op_delete) mem0 =
      (Inl (InvalidArgument e), m') \<and> live m' = [1 \<mapsto> []]) \<and>
   (\<exists>b m'. rb_Make 5 (Some (op_new (\<lambda>_ _. CHR ''x''))) (Some op_delete) mem0 = (Inr b, m') \<and>
      rb_valid b)"
proof -
  have "mem_wf mem0" by (simp add: mem_wf_def mem0_def)
  from rb_Make_outcomes [OF this, of 5 None "\<lambda>_ _. CHR ''x''"] show ?thesis
    by (auto simp: mem0_def)
qed

text \<open>
  Move assignment: on two different objects it frees exactly the block the target owned, hands
  the source's block over and leaves the source empty; on one object it changes nothing.
\<close>

theorem rb_move_assign_transfers:
  assumes "objs i = Some this" and "objs j = Some other"
    and "owns_block op_delete (live h) this"
  shows "\<exists>objs' h'. rb_move_assign i j objs h = Some (objs', h') \<and>
    (if i = j then objs' = objs \<and> h' = h
     else objs' = objs(i \<mapsto> other, j \<mapsto> rb_null) \<and>
       live h' = (case rb_data this of None \<Rightarrow> live h | Some p \<Rightarrow> (live h)(p := None)) \<and>
       bad_free h' = bad_free h)"
proof (cases "i = j")
  case False
  with assms(1,2) have "rb_move_assign i j objs h =
      Some (objs(i \<mapsto> other, j \<mapsto> rb_null), snd (rb_Reset this h))"
    by (simp add: rb_move_assign_def rb_MoveFrom_eq split: prod.splits)
  with False cpp_heap.Reset_frees [OF assms(3)] show ?thesis by simp
qed (use assms in \<open>simp add: rb_move_assign_def\<close>)

theorem rb_move_assign_transfers_witness:
  "\<exists>objs' h'. rb_move_assign 0 1
      [0 \<mapsto> \<lparr>rb_data = Some 1, rb_size = 2, rb_deleter = Some op_delete\<rparr>, 1 \<mapsto> rb_null]
      (mem0\<lparr>live := [1 \<mapsto> ''ab'', 2 \<mapsto> ''c'']\<rparr>) = Some (objs', h') \<and> live h' = [2 \<mapsto> ''c'']"
  using rb_move_assign_transfers
      [of "[0 \<mapsto> \<lparr>rb_data = Some 1, rb_size = 2, rb_deleter = Some op_delete\<rparr>, 1 \<mapsto> rb_null]" 0
        "\<lparr>rb_data = Some 1, rb_size = 2, rb_deleter = Some op_delete\<rparr>" 1 rb_null
        "mem0\<lparr>live := [1 \<mapsto> ''ab'', 2 \<mapsto> ''c'']\<rparr>"]
  by (simp add: owns_block_def fun_upd_twist) blast

end
