(* ===== verification/Internal_Message.thy ===== *)
theory Internal_Message
  imports Raw_Buffer
begin

text \<open>
  \<^verbatim>\<open>src/src/vectro/frame/internal_message.h\<close> and \<^verbatim>\<open>internal_message.cc\<close>: the message metadata, a
  message that owns its payload buffer, and the accessors. \<^verbatim>\<open>steady_clock\<close> time points are numbers.
\<close>

datatype message_origin = kUnknown | kServer | kClient

record internal_message_meta =
  trace_id :: u64
  connection_id :: u64
  timestamp :: int
  tag :: "string option"
  remote_ip :: string
  remote_port :: u16
  local_port :: u16
  route_hint :: "string option"
  is_behind_reverse_proxy :: bool
  is_can_get_real_ip :: bool
  origin :: message_origin

definition meta_default :: internal_message_meta where
  "meta_default =
     \<lparr>trace_id = 0, connection_id = 0, timestamp = 0, tag = None, remote_ip = '''', remote_port = 0,
      local_port = 0, route_hint = None, is_behind_reverse_proxy = False, is_can_get_real_ip = True,
      origin = kUnknown\<rparr>"

record internal_message =
  im_meta :: internal_message_meta
  im_buffer :: "mem raw_buffer"

definition im_default :: internal_message where
  "im_default = \<lparr>im_meta = meta_default, im_buffer = rb_null\<rparr>"

text \<open>
  The constructor takes the buffer by value and moves it into the member; the emptied parameter is
  destroyed on return.
\<close>

definition im_new :: "internal_message_meta \<Rightarrow> mem raw_buffer \<Rightarrow> mem \<Rightarrow> internal_message \<times> mem" where
  "im_new meta buf h =
     (let (member, param) = rb_move_ctor buf
      in (\<lparr>im_meta = meta, im_buffer = member\<rparr>, rb_destroy param h))"

definition im_valid :: "internal_message \<Rightarrow> bool" where
  "im_valid msg \<longleftrightarrow> rb_valid (im_buffer msg)"

definition im_destroy :: "internal_message \<Rightarrow> mem \<Rightarrow> mem" where
  "im_destroy msg h = rb_destroy (im_buffer msg) h"

text \<open>The payload a receiver reads through \<^verbatim>\<open>buffer().data()\<close> and \<^verbatim>\<open>buffer().size()\<close>.\<close>

definition im_payload :: "mem \<Rightarrow> internal_message \<Rightarrow> payload option" where
  "im_payload h msg =
     (case rb_data (im_buffer msg) of None \<Rightarrow> None
      | Some p \<Rightarrow> mem_slice h p 0 (rb_size (im_buffer msg)))"

lemma im_new_eq [simp]: "im_new meta buf h = (\<lparr>im_meta = meta, im_buffer = buf\<rparr>, h)"
  by (simp add: im_new_def rb_move_ctor_eq rb_destroy_def)

lemma im_valid_default: "\<not> im_valid im_default"
  by (simp add: im_valid_def im_default_def rb_valid_def)

end
