(* ===== verification/Simple_Line_Framer.thy ===== *)
theory Simple_Line_Framer
  imports Internal_Message
begin

text \<open>
  \<^verbatim>\<open>src/src/vectro/frame/framer_base.h\<close> and \<^verbatim>\<open>simple_line_framer.h\<close>: the line framer over its
  scratch buffer, with every allocation, copy and move of the heap written out, and the read
  protocol that \<^verbatim>\<open>framer_base.h\<close> documents and \<^verbatim>\<open>TcpClient::StartRead\<close> follows. The reference is
  \<open>split_nl\<close>, which splits a byte string at its newlines.
\<close>

subsection \<open>Reference: splitting at newlines\<close>

definition newline :: char where
  "newline = CHR 0x0A"

fun split_nl :: "payload \<Rightarrow> payload list \<times> payload" where
  "split_nl [] = ([], [])"
| "split_nl (c # cs) =
     (case split_nl cs of (ls, r) \<Rightarrow>
        if c = newline then ([] # ls, r)
        else (case ls of [] \<Rightarrow> ([], c # r) | l # ls' \<Rightarrow> ((c # l) # ls', r)))"

lemma split_nl_no_newline: "newline \<notin> set xs \<Longrightarrow> split_nl xs = ([], xs)"
  by (induction xs) auto

lemma split_nl_line: "newline \<notin> set l \<Longrightarrow>
    split_nl (l @ newline # ys) = (l # fst (split_nl ys), snd (split_nl ys))"
  by (induction l) (auto split: prod.splits)

lemma split_nl_parts:
  "split_nl xs = (ls, r) \<Longrightarrow>
     xs = concat (map (\<lambda>l. l @ [newline]) ls) @ r \<and> newline \<notin> set r \<and> (\<forall>l\<in>set ls. newline \<notin> set l)"
proof (induction xs arbitrary: ls r)
  case (Cons c cs)
  obtain ls' r' where s: "split_nl cs = (ls', r')" by (cases "split_nl cs")
  from Cons.IH [OF s] Cons.prems s show ?case
    by (auto split: if_splits list.splits)
qed simp

lemma split_nl_append:
  "split_nl (xs @ ys) =
     (fst (split_nl xs) @ fst (split_nl (snd (split_nl xs) @ ys)), snd (split_nl (snd (split_nl xs) @ ys)))"
proof (induction xs)
  case (Cons c cs)
  then show ?case by (auto split: prod.splits list.splits simp: Cons_eq_append_conv)
qed simp

lemma length_split_nl: "length (snd (split_nl xs)) \<le> length xs"
proof -
  obtain ls r where s: "split_nl xs = (ls, r)" by (cases "split_nl xs")
  from split_nl_parts [OF this] s show ?thesis by (metis le_add2 length_append snd_conv)
qed

subsection \<open>The framer\<close>

text \<open>\<^verbatim>\<open>std::size_t\<close> arithmetic.\<close>

definition usub :: "nat \<Rightarrow> nat \<Rightarrow> nat" where
  "usub a b = (a + 2 ^ 64 - b) mod 2 ^ 64"

definition uadd :: "nat \<Rightarrow> nat \<Rightarrow> nat" where
  "uadd a b = (a + b) mod 2 ^ 64"

datatype framer_error = Throws rb_error | OutOfBounds

record line_framer =
  scratch :: "mem raw_buffer"
  write_pos :: nat

definition slf_new :: "(address \<Rightarrow> nat \<Rightarrow> char) \<Rightarrow> mem \<Rightarrow> (rb_error + line_framer) \<times> mem" where
  "slf_new fill m =
     (case rb_Make 4096 (Some (op_new fill)) (Some op_delete) m of
        (Inl e, m') \<Rightarrow> (Inl e, m')
      | (Inr b, m') \<Rightarrow> (Inr \<lparr>scratch = b, write_pos = 0\<rparr>, m'))"

definition slf_PrepareRead ::
  "(address \<Rightarrow> nat \<Rightarrow> char) \<Rightarrow> line_framer \<Rightarrow> mem \<Rightarrow> (rb_error + unit) \<times> line_framer \<times> mem" where
  "slf_PrepareRead fill f m =
     (if usub (rb_size (scratch f)) (write_pos f) < 1024 then
        (let (empty, m1) = rb_Reset (scratch f) m
         in case rb_Make (uadd (write_pos f) 4096) (Some (op_new fill)) (Some op_delete) m1 of
              (Inl e, m2) \<Rightarrow> (Inl e, f\<lparr>scratch := empty\<rparr>, m2)
            | (Inr tmp, m2) \<Rightarrow>
                (let (reset, m3) = rb_Reset empty m2;
                     (b, tmp') = rb_MoveFrom reset tmp
                 in (Inr (), f\<lparr>scratch := b, write_pos := 0\<rparr>, rb_destroy tmp' m3)))
      else (Inr (), f, m))"

text \<open>\<^verbatim>\<open>memcpy\<close> and \<^verbatim>\<open>memmove\<close> between blocks; \<open>None\<close> when either range leaves its block.\<close>

definition mem_copy :: "mem \<Rightarrow> address \<Rightarrow> nat \<Rightarrow> address \<Rightarrow> nat \<Rightarrow> nat \<Rightarrow> mem option" where
  "mem_copy m dst doff src soff n =
     (case mem_slice m src soff n of None \<Rightarrow> None | Some xs \<Rightarrow> mem_write m dst doff xs)"

text \<open>The body of the newline branch: allocate, copy \<open>len\<close> bytes, stamp and build the message.\<close>

definition slf_emit ::
  "(address \<Rightarrow> nat \<Rightarrow> char) \<Rightarrow> int \<Rightarrow> address \<Rightarrow> nat \<Rightarrow> nat \<Rightarrow> mem \<Rightarrow> (framer_error + internal_message) \<times> mem"
where
  "slf_emit fill now p start len m =
     (case rb_Make len (Some (op_new fill)) (Some op_delete) m of
        (Inl e, m1) \<Rightarrow> (Inl (Throws e), m1)
      | (Inr msgbuf, m1) \<Rightarrow>
          (case rb_data msgbuf of
             None \<Rightarrow> (Inl OutOfBounds, m1)
           | Some q \<Rightarrow>
               (case mem_copy m1 q 0 p start len of
                  None \<Rightarrow> (Inl OutOfBounds, m1)
                | Some m2 \<Rightarrow>
                    (let (msg, m3) = im_new (meta_default\<lparr>timestamp := now\<rparr>) msgbuf m2
                     in (Inr msg, m3)))))"

text \<open>
  The scan loop \<^verbatim>\<open>for (i = 0; i < write_pos_; ++i)\<close>. When an allocation throws, the messages
  collected so far are destroyed as the stack unwinds.
\<close>

function slf_scan ::
  "(address \<Rightarrow> nat \<Rightarrow> char) \<Rightarrow> (nat \<Rightarrow> int) \<Rightarrow> address \<Rightarrow> nat \<Rightarrow> nat \<Rightarrow> nat \<Rightarrow> internal_message list \<Rightarrow>
   mem \<Rightarrow> (framer_error + nat \<times> internal_message list) \<times> mem"
where
  "slf_scan fill now p wp i start out m =
     (if i < wp then
        (case mem_read m p i of
           None \<Rightarrow> (Inl OutOfBounds, m)
         | Some c \<Rightarrow>
             if c = newline then
               (case slf_emit fill (now i) p start (i - start) m of
                  (Inl e, m') \<Rightarrow> (Inl e, fold im_destroy out m')
                | (Inr msg, m') \<Rightarrow> slf_scan fill now p wp (Suc i) (Suc i) (out @ [msg]) m')
             else slf_scan fill now p wp (Suc i) start out m)
      else (Inr (start, out), m))"
  by pat_completeness auto
termination
  by (relation "measure (\<lambda>(_, _, _, wp, i, _). wp - i)") auto

declare slf_scan.simps [simp del]

definition slf_OnData ::
  "(address \<Rightarrow> nat \<Rightarrow> char) \<Rightarrow> (nat \<Rightarrow> int) \<Rightarrow> nat \<Rightarrow> line_framer \<Rightarrow> mem \<Rightarrow>
   (framer_error + internal_message list) \<times> line_framer \<times> mem" where
  "slf_OnData fill now n f m =
     (let wp = uadd (write_pos f) n; f1 = f\<lparr>write_pos := wp\<rparr>
      in case rb_data (scratch f) of
           None \<Rightarrow> if wp = 0 then (Inr [], f1, m) else (Inl OutOfBounds, f1, m)
         | Some p \<Rightarrow>
             (case slf_scan fill now p wp 0 0 [] m of
                (Inl e, m1) \<Rightarrow> (Inl e, f1, m1)
              | (Inr (start, out), m1) \<Rightarrow>
                  if start < wp then
                    (case mem_copy m1 p 0 p start (wp - start) of
                       None \<Rightarrow> (Inl OutOfBounds, f1, m1)
                     | Some m2 \<Rightarrow> (Inr out, f1\<lparr>write_pos := wp - start\<rparr>, m2))
                  else (Inr out, f1\<lparr>write_pos := 0\<rparr>, m1)))"

text \<open>
  The read protocol of \<^verbatim>\<open>framer_base.h\<close> (and of \<^verbatim>\<open>TcpClient::StartRead\<close>): \<^verbatim>\<open>PrepareRead\<close>, a read of
  at most \<^verbatim>\<open>buf.size()\<close> bytes to \<^verbatim>\<open>buf.data()\<close>, then \<^verbatim>\<open>OnData\<close> with the number of bytes read.
\<close>

definition framer_receive ::
  "(address \<Rightarrow> nat \<Rightarrow> char) \<Rightarrow> (nat \<Rightarrow> int) \<Rightarrow> payload \<Rightarrow> line_framer \<Rightarrow> mem \<Rightarrow>
   (framer_error + internal_message list) \<times> line_framer \<times> mem" where
  "framer_receive fill now chunk f m =
     (case slf_PrepareRead fill f m of
        (Inl e, f1, m1) \<Rightarrow> (Inl (Throws e), f1, m1)
      | (Inr _, f1, m1) \<Rightarrow>
          (case rb_data (scratch f1) of
             None \<Rightarrow> (Inl OutOfBounds, f1, m1)
           | Some p \<Rightarrow>
               (case mem_write m1 p 0 chunk of
                  None \<Rightarrow> (Inl OutOfBounds, f1, m1)
                | Some m2 \<Rightarrow> slf_OnData fill now (length chunk) f1 m2)))"

text \<open>A connection delivers its bytes in some division into reads.\<close>

fun framer_receive_all ::
  "(address \<Rightarrow> nat \<Rightarrow> char) \<Rightarrow> (nat \<Rightarrow> int) \<Rightarrow> payload list \<Rightarrow> line_framer \<Rightarrow> mem \<Rightarrow>
   (framer_error + internal_message list) \<times> line_framer \<times> mem" where
  "framer_receive_all fill now [] f m = (Inr [], f, m)"
| "framer_receive_all fill now (c # cs) f m =
     (case framer_receive fill now c f m of
        (Inl e, f1, m1) \<Rightarrow> (Inl e, f1, m1)
      | (Inr msgs, f1, m1) \<Rightarrow>
          (case framer_receive_all fill now cs f1 m1 of
             (Inl e, f2, m2) \<Rightarrow> (Inl e, f2, m2)
           | (Inr msgs', f2, m2) \<Rightarrow> (Inr (msgs @ msgs'), f2, m2)))"

subsection \<open>The scan implements the reference\<close>

text \<open>
  Messages that carry the lines \<open>ls\<close> in consecutive fresh blocks from \<open>a\<close> on, each owning its own.
\<close>

fun carries :: "mem \<Rightarrow> address \<Rightarrow> internal_message list \<Rightarrow> payload list \<Rightarrow> bool" where
  "carries m a [] [] \<longleftrightarrow> True"
| "carries m a (msg # msgs) (l # ls) \<longleftrightarrow>
     im_buffer msg = \<lparr>rb_data = Some a, rb_size = length l, rb_deleter = Some op_delete\<rparr> \<and>
     live m a = Some l \<and> carries m (Suc a) msgs ls"
| "carries m a _ _ \<longleftrightarrow> False"

lemma carries_payloads: "carries m a msgs ls \<Longrightarrow> map (im_payload m) msgs = map Some ls"
  by (induction m a msgs ls rule: carries.induct) (auto simp: im_payload_def mem_slice_def)

lemma carries_owned:
  "carries m a msgs ls \<Longrightarrow> msg \<in> set msgs \<Longrightarrow> owns_block op_delete (live m) (im_buffer msg)"
  by (induction m a msgs ls rule: carries.induct) (auto simp: owns_block_def)

lemma carries_addresses:
  "carries m a msgs ls \<Longrightarrow> map (rb_data \<circ> im_buffer) msgs = map Some [a..<a + length ls]"
proof (induction m a msgs ls rule: carries.induct)
  case (2 m a msg msgs l ls)
  then show ?case by (simp add: upt_conv_Cons del: upt_Suc)
qed auto

lemma carries_mono:
  "carries m a msgs ls \<Longrightarrow> (\<And>q. a \<le> q \<Longrightarrow> q < a + length ls \<Longrightarrow> live m' q = live m q) \<Longrightarrow> carries m' a msgs ls"
  by (induction m a msgs ls rule: carries.induct) auto

lemma mem_copy_fresh:
  assumes "live m src = Some bs" and "live m dst = Some ds" and "soff + n \<le> length bs"
    and "length ds = n"
  shows "mem_copy m dst 0 src soff n = Some (m\<lparr>live := (live m)(dst \<mapsto> take n (drop soff bs))\<rparr>)"
  using assms by (simp add: mem_copy_def mem_slice_eq mem_write_eq)

text \<open>What the newline branch does when the line is not empty and memory suffices.\<close>

lemma slf_emit_line:
  assumes "mem_wf m" and "live m p = Some bs" and "start + len \<le> length bs"
    and "0 < len" and "len \<le> budget m"
  shows "\<exists>msg m'. slf_emit fill now p start len m = (Inr msg, m') \<and>
    im_buffer msg = \<lparr>rb_data = Some (next_addr m), rb_size = len, rb_deleter = Some op_delete\<rparr> \<and>
    im_meta msg = meta_default\<lparr>timestamp := now\<rparr> \<and>
    live m' = (live m)(next_addr m \<mapsto> take len (drop start bs)) \<and>
    next_addr m' = Suc (next_addr m) \<and> budget m' = budget m - len \<and> bad_free m' = bad_free m \<and> mem_wf m'"
proof -
  let ?q = "next_addr m"
  let ?m1 = "snd (op_new fill len m)"
  have "p \<noteq> ?q" using assms(1,2) by (auto simp: mem_wf_def)
  then have 1: "live ?m1 p = Some bs" "live ?m1 ?q = Some (map (fill ?q) [0..<len])"
    using assms by (auto simp: op_new_def)
  have 2: "rb_Make len (Some (op_new fill)) (Some op_delete) m =
      (Inr \<lparr>rb_data = Some ?q, rb_size = len, rb_deleter = Some op_delete\<rparr>, ?m1)"
    using assms(4,5) by (simp add: rb_Make_Inr_iff op_new_def)
  have 3: "mem_copy ?m1 ?q 0 p start len = Some (?m1\<lparr>live := (live ?m1)(?q \<mapsto> take len (drop start bs))\<rparr>)"
    using mem_copy_fresh [OF 1 assms(3)] by simp
  have "slf_emit fill now p start len m =
      (Inr \<lparr>im_meta = meta_default\<lparr>timestamp := now\<rparr>,
            im_buffer = \<lparr>rb_data = Some ?q, rb_size = len, rb_deleter = Some op_delete\<rparr>\<rparr>,
       ?m1\<lparr>live := (live ?m1)(?q \<mapsto> take len (drop start bs))\<rparr>)"
    by (simp add: slf_emit_def 2 3)
  with assms(1,5) show ?thesis by (simp add: op_new_def mem_wf_def)
qed

lemma drop_split_newline:
  assumes "start \<le> i" and "i < wp" and "wp \<le> length bs" and "bs ! i = c"
  shows "take (wp - start) (drop start bs) =
    take (i - start) (drop start bs) @ c # take (wp - Suc i) (drop (Suc i) bs)"
proof -
  have "drop start bs = take (i - start) (drop start bs) @ drop i bs"
    using assms(1) by (metis append_take_drop_id drop_drop le_add_diff_inverse2)
  moreover have "drop i bs = c # drop (Suc i) bs"
    using assms by (metis Cons_nth_drop_Suc order_less_le_trans)
  ultimately have "take (wp - start) (drop start bs) =
      take (wp - start) (take (i - start) (drop start bs) @ c # drop (Suc i) bs)"
    by simp
  also have "\<dots> = take (i - start) (drop start bs) @ c # take (wp - Suc i) (drop (Suc i) bs)"
    using assms by (simp add: take_Cons' min_def)
  finally show ?thesis .
qed

text \<open>One iteration of the scan: at the end, on an ordinary byte, at a newline.\<close>

lemma slf_scan_end: "slf_scan fill now p wp wp start out m = (Inr (start, out), m)"
  by (subst slf_scan.simps) simp

lemma slf_scan_byte:
  "i < wp \<Longrightarrow> mem_read m p i = Some c \<Longrightarrow> c \<noteq> newline \<Longrightarrow>
     slf_scan fill now p wp i start out m = slf_scan fill now p wp (Suc i) start out m"
  by (subst slf_scan.simps) simp

lemma slf_scan_line:
  assumes "i < wp" and "wp \<le> length bs" and "bs ! i = newline" and "start < i"
    and m: "mem_wf m" "live m p = Some bs" and "i - start \<le> budget m"
  shows "\<exists>msg m1. slf_scan fill now p wp i start out m = slf_scan fill now p wp (Suc i) (Suc i) (out @ [msg]) m1 \<and>
    im_buffer msg = \<lparr>rb_data = Some (next_addr m), rb_size = i - start, rb_deleter = Some op_delete\<rparr> \<and>
    live m1 = (live m)(next_addr m \<mapsto> take (i - start) (drop start bs)) \<and> live m1 p = Some bs \<and>
    next_addr m1 = Suc (next_addr m) \<and> budget m1 = budget m - (i - start) \<and>
    bad_free m1 = bad_free m \<and> mem_wf m1"
proof -
  have "mem_read m p i = Some newline"
    using assms by (simp add: mem_read_def)
  moreover obtain msg m1 where "slf_emit fill (now i) p start (i - start) m = (Inr msg, m1)"
    "im_buffer msg = \<lparr>rb_data = Some (next_addr m), rb_size = i - start, rb_deleter = Some op_delete\<rparr>"
    "live m1 = (live m)(next_addr m \<mapsto> take (i - start) (drop start bs))"
    "next_addr m1 = Suc (next_addr m)" "budget m1 = budget m - (i - start)"
    "bad_free m1 = bad_free m" "mem_wf m1"
    using slf_emit_line [OF m, of start "i - start" fill "now i"] assms by auto
  moreover have "p \<noteq> next_addr m" using m by (auto simp: mem_wf_def)
  ultimately show ?thesis
    using assms(1) m(2) by (subst slf_scan.simps) (auto intro!: exI [of _ msg] exI [of _ m1])
qed

text \<open>The part of the scratch area the current line lies in, one byte further.\<close>

lemma no_newline_extend:
  assumes "start \<le> i" and "i < length bs" and "bs ! i \<noteq> newline"
    and "newline \<notin> set (take (i - start) (drop start bs))"
  shows "newline \<notin> set (take (Suc i - start) (drop start bs))"
  using assms by (simp add: Suc_diff_le take_Suc_conv_app_nth)

lemma split_nl_at_newline:
  assumes "start \<le> i" and "i < wp" and "wp \<le> length bs" and "bs ! i = newline"
    and "newline \<notin> set (take (i - start) (drop start bs))"
  shows "split_nl (take (wp - start) (drop start bs)) =
    (take (i - start) (drop start bs) # fst (split_nl (take (wp - Suc i) (drop (Suc i) bs))),
     snd (split_nl (take (wp - Suc i) (drop (Suc i) bs))))"
  using drop_split_newline [OF assms(1-4)] split_nl_line [OF assms(5)] by simp

lemma slf_scan_splits:
  assumes "mem_wf m" and "live m p = Some bs" and "wp \<le> length bs" and "start \<le> i" and "i \<le> wp"
    and "newline \<notin> set (take (i - start) (drop start bs))"
    and "split_nl (take (wp - start) (drop start bs)) = (ls, r)"
    and "[] \<notin> set ls" and "wp - start \<le> budget m"
  shows "\<exists>msgs m'. slf_scan fill now p wp i start out m = (Inr (wp - length r, out @ msgs), m') \<and>
    carries m' (next_addr m) msgs ls \<and> next_addr m' = next_addr m + length ls \<and> mem_wf m' \<and>
    bad_free m' = bad_free m \<and> (\<forall>q < next_addr m. live m' q = live m q) \<and>
    budget m' + length (concat ls) = budget m"
  using assms
proof (induction "wp - i" arbitrary: i start out m ls)
  case 0
  then have "i = wp" "ls = []" "length r = wp - start"
    using split_nl_no_newline [of "take (i - start) (drop start bs)"] by auto
  with 0 show ?case by (auto simp: slf_scan_end intro!: exI [of _ "[]"])
next
  case (Suc k)
  then have i: "i < wp" "k = wp - Suc i" "i < length bs" by auto
  show ?case
  proof (cases "bs ! i = newline")
    case False
    with Suc.prems i have "mem_read m p i = Some (bs ! i)" by (simp add: mem_read_def)
    with Suc.hyps(1) [OF i(2)] Suc.prems i False no_newline_extend [of start i bs] show ?thesis
      by (simp add: slf_scan_byte)
  next
    case True
    let ?l = "take (i - start) (drop start bs)"
    let ?rest = "split_nl (take (wp - Suc i) (drop (Suc i) bs))"
    from Suc.prems True i have ls: "ls = ?l # fst ?rest" and r: "r = snd ?rest"
      using split_nl_at_newline [of start i wp bs] by auto
    with Suc.prems(4,8,9) i have "start < i" "i - start \<le> budget m" by (auto simp: order_le_less)
    with slf_scan_line [of i wp bs start m p fill now out] Suc.prems i True
    obtain msg m1 where scan: "slf_scan fill now p wp i start out m =
        slf_scan fill now p wp (Suc i) (Suc i) (out @ [msg]) m1"
      and msg: "im_buffer msg = \<lparr>rb_data = Some (next_addr m), rb_size = i - start, rb_deleter = Some op_delete\<rparr>"
      and m1: "live m1 = (live m)(next_addr m \<mapsto> ?l)" "live m1 p = Some bs" "next_addr m1 = Suc (next_addr m)"
        "budget m1 = budget m - (i - start)" "bad_free m1 = bad_free m" "mem_wf m1"
      by auto
    have "\<exists>msgs m'. slf_scan fill now p wp (Suc i) (Suc i) (out @ [msg]) m1 =
        (Inr (wp - length r, (out @ [msg]) @ msgs), m') \<and> carries m' (next_addr m1) msgs (fst ?rest) \<and>
        next_addr m' = next_addr m1 + length (fst ?rest) \<and> mem_wf m' \<and> bad_free m' = bad_free m1 \<and>
        (\<forall>q < next_addr m1. live m' q = live m1 q) \<and> budget m' + length (concat (fst ?rest)) = budget m1"
      by (rule Suc.hyps(1) [OF i(2) m1(6,2) Suc.prems(3)]) (use i ls r Suc.prems m1 in auto)
    then obtain msgs m' where IH: "slf_scan fill now p wp (Suc i) (Suc i) (out @ [msg]) m1 =
        (Inr (wp - length r, out @ msg # msgs), m')" "carries m' (next_addr m1) msgs (fst ?rest)"
        "next_addr m' = next_addr m1 + length (fst ?rest)" "mem_wf m'" "bad_free m' = bad_free m1"
        "\<forall>q < next_addr m1. live m' q = live m1 q" "budget m' + length (concat (fst ?rest)) = budget m1"
      by auto
    have "min (length bs - start) (i - start) = i - start" using i by linarith
    moreover have "budget m' + (i - start + length (concat (fst ?rest))) = budget m"
      using IH(7) m1(4) \<open>i - start \<le> budget m\<close> by linarith
    ultimately show ?thesis
      using scan msg m1 ls IH(1-6) by (intro exI [of _ "msg # msgs"] exI [of _ m']) simp
  qed
qed

text \<open>A scan that meets an empty line throws out of \<^verbatim>\<open>RawBuffer::Make(0, \<dots>)\<close>.\<close>

lemma slf_scan_empty_line:
  assumes "mem_wf m" and "live m p = Some bs" and "wp \<le> length bs" and "start \<le> i" and "i \<le> wp"
    and "newline \<notin> set (take (i - start) (drop start bs))"
    and "[] \<in> set (fst (split_nl (take (wp - start) (drop start bs))))" and "wp - start \<le> budget m"
  shows "\<exists>m'. slf_scan fill now p wp i start out m =
    (Inl (Throws (InvalidArgument ''RawBuffer: invalid construction arguments.'')), m')"
  using assms
proof (induction "wp - i" arbitrary: i start out m)
  case 0
  then show ?case using split_nl_no_newline [of "take (i - start) (drop start bs)"] by auto
next
  case (Suc k)
  then have i: "i < wp" "k = wp - Suc i" "i < length bs" by auto
  with Suc.prems have read: "mem_read m p i = Some (bs ! i)" by (simp add: mem_read_def)
  show ?case
  proof (cases "bs ! i = newline")
    case False
    with Suc.hyps(1) [OF i(2)] Suc.prems i read no_newline_extend [of start i bs] show ?thesis
      by (simp add: slf_scan_byte)
  next
    case True
    show ?thesis
    proof (cases "start = i")
      case True
      with i read \<open>bs ! i = newline\<close> show ?thesis
        by (subst slf_scan.simps) (simp add: slf_emit_def rb_Make_def rb_new_def op_new_def)
    next
      case False
      with Suc.prems(4,8) i have "start < i" "i - start \<le> budget m" by auto
      with slf_scan_line [of i wp bs start m p fill now out] Suc.prems i True
      obtain msg m1 where scan: "slf_scan fill now p wp i start out m =
          slf_scan fill now p wp (Suc i) (Suc i) (out @ [msg]) m1"
        and m1: "live m1 p = Some bs" "budget m1 = budget m - (i - start)" "mem_wf m1"
        by auto
      have "[] \<in> set (fst (split_nl (take (wp - Suc i) (drop (Suc i) bs))))"
        using split_nl_at_newline [of start i wp bs] Suc.prems i True \<open>start < i\<close> by auto
      with Suc.hyps(1) [OF i(2) m1(3,1) Suc.prems(3), of "Suc i" "out @ [msg]"] i m1 Suc.prems scan
      show ?thesis by auto
    qed
  qed
qed

subsection \<open>OnData and the read protocol\<close>

lemma uadd_small: "a + b < 2 ^ 64 \<Longrightarrow> uadd a b = a + b"
  by (simp add: uadd_def)

lemma usub_le: "b \<le> a \<Longrightarrow> a < 2 ^ 64 \<Longrightarrow> usub a b = a - b"
proof -
  assume "b \<le> a" "a < 2 ^ 64"
  from \<open>b \<le> a\<close> have "a + 2 ^ 64 - b = (a - b) + 2 ^ 64" by linarith
  moreover from \<open>a < 2 ^ 64\<close> have "a - b < 2 ^ 64" by linarith
  ultimately show ?thesis by (simp only: usub_def mod_add_self2 mod_less)
qed

lemma split_nl_rest_drop:
  "split_nl xs = (ls, r) \<Longrightarrow> drop (length xs - length r) xs = r"
  using split_nl_parts [of xs ls r] by simp

lemma slf_OnData_splits:
  assumes "mem_wf m" and p: "rb_data (scratch f) = Some p" "live m p = Some bs"
    and "write_pos f + n \<le> length bs" and "length bs < 2 ^ 64"
    and split: "split_nl (take (write_pos f + n) bs) = (ls, r)"
    and "[] \<notin> set ls" and "write_pos f + n \<le> budget m"
  shows "\<exists>msgs f' m' bs'. slf_OnData fill now n f m = (Inr msgs, f', m') \<and>
    carries m' (next_addr m) msgs ls \<and> scratch f' = scratch f \<and> write_pos f' = length r \<and>
    live m' p = Some bs' \<and> length bs' = length bs \<and> bs' = r @ drop (length r) bs \<and>
    mem_wf m' \<and> bad_free m' = bad_free m \<and> next_addr m' = next_addr m + length ls \<and>
    (\<forall>q < next_addr m. q \<noteq> p \<longrightarrow> live m' q = live m q) \<and> budget m' + length (concat ls) = budget m"
proof -
  let ?wp = "write_pos f + n"
  have wp: "uadd (write_pos f) n = ?wp" using assms by (simp add: uadd_small)
  obtain msgs m1 where scan: "slf_scan fill now p ?wp 0 0 [] m = (Inr (?wp - length r, msgs), m1)"
    and m1: "carries m1 (next_addr m) msgs ls" "mem_wf m1" "bad_free m1 = bad_free m"
      "next_addr m1 = next_addr m + length ls" "\<forall>q < next_addr m. live m1 q = live m q"
      "budget m1 + length (concat ls) = budget m"
    using slf_scan_splits [of m p bs ?wp 0 0 ls r fill now "[]"] assms by auto
  have pm: "p < next_addr m" using assms(1) p(2) by (auto simp: mem_wf_def not_less [symmetric])
  with m1 p have live1: "live m1 p = Some bs" by simp
  have r: "length r \<le> ?wp" "drop (?wp - length r) (take ?wp bs) = r"
    using length_split_nl [of "take ?wp bs"] split_nl_rest_drop [OF split] split assms(4) by auto
  show ?thesis
  proof (cases "r = []")
    case True
    with scan m1 live1 p wp show ?thesis by (simp add: slf_OnData_def)
  next
    case False
    let ?m2 = "m1\<lparr>live := (live m1)(p \<mapsto> r @ drop (length r) bs)\<rparr>"
    have "mem_slice m1 p (?wp - length r) (length r) = Some r"
      using live1 r assms(4) by (simp add: mem_slice_eq drop_take)
    then have "mem_copy m1 p 0 p (?wp - length r) (length r) = Some ?m2"
      using live1 r assms(4) by (simp add: mem_copy_def mem_write_eq)
    moreover have "0 < length r" using False by simp
    then have "?wp - (?wp - length r) = length r" "?wp - length r < ?wp" using r(1) by linarith+
    ultimately have "slf_OnData fill now n f m = (Inr msgs, f\<lparr>write_pos := length r\<rparr>, ?m2)"
      using scan p wp by (simp add: slf_OnData_def)
    moreover have "carries ?m2 (next_addr m) msgs ls"
      using pm by (intro carries_mono [OF m1(1)]) auto
    moreover have "mem_wf ?m2"
      using m1 live1 by (auto simp: mem_wf_def)
    ultimately show ?thesis using m1 r assms(4) by simp
  qed
qed

lemma slf_PrepareRead_keeps:
  assumes "rb_size (scratch f) = sz" and "sz < 2 ^ 64" and "write_pos f + 1024 \<le> sz"
  shows "slf_PrepareRead fill f m = (Inr (), f, m)"
proof -
  have "usub sz (write_pos f) = sz - write_pos f" using assms by (intro usub_le) auto
  moreover have "\<not> sz - write_pos f < 1024" using assms(3) by linarith
  ultimately show ?thesis using assms(1) by (simp add: slf_PrepareRead_def)
qed

text \<open>A framer whose scratch buffer owns the block \<open>p\<close> with contents \<open>bs\<close>.\<close>

definition framer_at :: "line_framer \<Rightarrow> mem \<Rightarrow> address \<Rightarrow> payload \<Rightarrow> bool" where
  "framer_at f m p bs \<longleftrightarrow> mem_wf m \<and> live m p = Some bs \<and> length bs < 2 ^ 64 \<and>
     scratch f = \<lparr>rb_data = Some p, rb_size = length bs, rb_deleter = Some op_delete\<rparr>"

lemma framer_receive_splits:
  assumes at: "framer_at f m p bs" and "write_pos f + 1024 \<le> length bs"
    and fits: "write_pos f + length chunk \<le> length bs" "write_pos f + length chunk \<le> budget m"
    and split: "split_nl (take (write_pos f + length chunk) (chunk @ drop (length chunk) bs)) = (ls, r)"
    and "[] \<notin> set ls"
  shows "\<exists>msgs f' m' bs'. framer_receive fill now chunk f m = (Inr msgs, f', m') \<and>
    carries m' (next_addr m) msgs ls \<and> framer_at f' m' p bs' \<and>
    length bs' = length bs \<and> bs' = r @ drop (length r) (chunk @ drop (length chunk) bs) \<and>
    write_pos f' = length r \<and> bad_free m' = bad_free m \<and>
    next_addr m' = next_addr m + length ls \<and> (\<forall>q < next_addr m. q \<noteq> p \<longrightarrow> live m' q = live m q) \<and>
    budget m' + length (concat ls) = budget m"
proof -
  let ?m1 = "m\<lparr>live := (live m)(p \<mapsto> chunk @ drop (length chunk) bs)\<rparr>"
  from at have f: "rb_data (scratch f) = Some p" "rb_size (scratch f) = length bs"
    and m: "mem_wf m" "live m p = Some bs" "length bs < 2 ^ 64"
    by (auto simp: framer_at_def)
  have "framer_receive fill now chunk f m = slf_OnData fill now (length chunk) f ?m1"
    using slf_PrepareRead_keeps [OF f(2) m(3) assms(2)] f m fits
    by (simp add: framer_receive_def mem_write_eq)
  moreover have "mem_wf ?m1" using m by (auto simp: mem_wf_def)
  ultimately show ?thesis
    using slf_OnData_splits [of ?m1 f p "chunk @ drop (length chunk) bs" "length chunk" ls r fill now]
      f m at assms by (auto simp: framer_at_def)
qed

subsection \<open>Properties\<close>


lemma framer_example: "framer_at
    \<lparr>scratch = \<lparr>rb_data = Some 1, rb_size = 8, rb_deleter = Some op_delete\<rparr>, write_pos = 2\<rparr>
    \<lparr>live = [1 \<mapsto> ''ab'' @ [newline] @ ''cd'' @ [newline] @ ''ef''], next_addr = 2, budget = 100, bad_free = False\<rparr>
    1 (''ab'' @ [newline] @ ''cd'' @ [newline] @ ''ef'')"
  by (simp add: framer_at_def mem_wf_def)


text \<open>
  An empty line is an exception: when two newlines follow each other (or a line starts with one)
  \<^verbatim>\<open>RawBuffer::Make(0, \<dots>)\<close> throws \<^verbatim>\<open>std::invalid_argument\<close> out of \<^verbatim>\<open>OnData\<close>, no message of the call
  is delivered, and \<^verbatim>\<open>write_pos_\<close> has already been advanced.
\<close>

theorem slf_OnData_empty_line_throws:
  assumes "framer_at f m p bs" and "write_pos f + n \<le> length bs" and "write_pos f + n \<le> budget m"
    and "[] \<in> set (fst (split_nl (take (write_pos f + n) bs)))"
  shows "\<exists>e m'. slf_OnData fill now n f m =
    (Inl (Throws (InvalidArgument e)), f\<lparr>write_pos := write_pos f + n\<rparr>, m')"
proof -
  from assms have "rb_data (scratch f) = Some p" "mem_wf m" "live m p = Some bs"
    "uadd (write_pos f) n = write_pos f + n"
    by (auto simp: framer_at_def uadd_small)
  with slf_scan_empty_line [of m p bs "write_pos f + n" 0 0 fill now "[]"] assms show ?thesis
    by (auto simp: slf_OnData_def)
qed

theorem slf_OnData_empty_line_throws_witness:
  "\<exists>e m'. slf_OnData (\<lambda>_ _. CHR ''?'') int 2
      \<lparr>scratch = \<lparr>rb_data = Some 1, rb_size = 4, rb_deleter = Some op_delete\<rparr>, write_pos = 1\<rparr>
      \<lparr>live = [1 \<mapsto> [CHR ''a'', newline, newline, CHR ''b'']], next_addr = 2, budget = 100, bad_free = False\<rparr>
      = (Inl (Throws (InvalidArgument e)),
         \<lparr>scratch = \<lparr>rb_data = Some 1, rb_size = 4, rb_deleter = Some op_delete\<rparr>, write_pos = 3\<rparr>, m')"
  using slf_OnData_empty_line_throws
      [of "\<lparr>scratch = \<lparr>rb_data = Some 1, rb_size = 4, rb_deleter = Some op_delete\<rparr>, write_pos = 1\<rparr>"
        "\<lparr>live = [1 \<mapsto> [CHR ''a'', newline, newline, CHR ''b'']], next_addr = 2, budget = 100, bad_free = False\<rparr>"
        1 "[CHR ''a'', newline, newline, CHR ''b'']" 2 "\<lambda>_ _. CHR ''?''" int]
  by (simp add: framer_at_def mem_wf_def newline_def numeral_3_eq_3)

lemma carries_append:
  "carries m a xs ls \<Longrightarrow> carries m (a + length ls) ys ks \<Longrightarrow> carries m a (xs @ ys) (ls @ ks)"
  by (induction m a xs ls rule: carries.induct) auto

lemma length_split_nl_lines:
  "length (concat (fst (split_nl xs))) + length (snd (split_nl xs)) \<le> length xs"
  by (induction xs) (auto split: prod.splits list.splits)

lemma framer_receive_all_carries:
  assumes "framer_at f m p bs" and "write_pos f = 0" and "1024 \<le> length bs"
    and "\<forall>c \<in> set chunks. length c \<le> length bs \<and> snd (split_nl c) = []"
    and "[] \<notin> set (fst (split_nl (concat chunks)))" and "length (concat chunks) \<le> budget m"
  shows "\<exists>msgs f' m' bs'. framer_receive_all fill now chunks f m = (Inr msgs, f', m') \<and>
    carries m' (next_addr m) msgs (fst (split_nl (concat chunks))) \<and>
    framer_at f' m' p bs' \<and> write_pos f' = 0 \<and>
    (\<forall>q < next_addr m. q \<noteq> p \<longrightarrow> live m' q = live m q)"
  using assms
proof (induction chunks arbitrary: f m bs)
  case (Cons c cs)
  let ?ls = "fst (split_nl c)"
  have split: "split_nl c = (?ls, [])" using Cons.prems(4) by (simp add: prod_eq_iff)
  have all: "fst (split_nl (concat (c # cs))) = ?ls @ fst (split_nl (concat cs))"
    using split_nl_append [of c "concat cs"] Cons.prems(4) by simp
  have bytes: "length (concat ?ls) \<le> length c"
    using length_split_nl_lines [of c] by linarith
  obtain msgs f1 m1 bs1 where r1: "framer_receive fill now c f m = (Inr msgs, f1, m1)"
    and c1: "carries m1 (next_addr m) msgs ?ls" "framer_at f1 m1 p bs1" "length bs1 = length bs"
      "write_pos f1 = 0" "next_addr m1 = next_addr m + length ?ls"
      "\<forall>q < next_addr m. q \<noteq> p \<longrightarrow> live m1 q = live m q" "budget m1 + length (concat ?ls) = budget m"
    using framer_receive_splits [OF Cons.prems(1), of c ?ls "[]" fill now] Cons.prems split all by auto
  have "length (concat cs) \<le> budget m1" using Cons.prems(6) c1(7) bytes by simp
  with Cons.IH [OF c1(2,4)] c1(3) Cons.prems all
  obtain msgs' f2 m2 bs2 where r2: "framer_receive_all fill now cs f1 m1 = (Inr msgs', f2, m2)"
    and c2: "carries m2 (next_addr m1) msgs' (fst (split_nl (concat cs)))" "framer_at f2 m2 p bs2"
      "write_pos f2 = 0" "\<forall>q < next_addr m1. q \<noteq> p \<longrightarrow> live m2 q = live m1 q"
    by auto
  have "p < next_addr m"
    using Cons.prems(1) by (auto simp: framer_at_def mem_wf_def not_less [symmetric])
  with c1(1,5) c2(4) have "carries m2 (next_addr m) msgs ?ls"
    by (auto intro: carries_mono)
  with c2(1) c1(5) all have "carries m2 (next_addr m) (msgs @ msgs') (fst (split_nl (concat (c # cs))))"
    by (simp add: carries_append)
  with r1 r2 c1 c2 show ?case by auto
qed auto

text \<open>
  Streams of whole lines: if every read ends at a line end, receiving the reads one after the
  other delivers exactly the lines of the concatenated bytes, in order and with intact payloads, however
  the lines are grouped into reads.
\<close>

theorem framer_delivers_whole_lines:
  assumes "framer_at f m p bs" and "write_pos f = 0" and "1024 \<le> length bs"
    and "\<forall>c \<in> set chunks. length c \<le> length bs \<and> snd (split_nl c) = []"
    and "[] \<notin> set (fst (split_nl (concat chunks)))" and "length (concat chunks) \<le> budget m"
  shows "\<exists>msgs f' m'. framer_receive_all fill now chunks f m = (Inr msgs, f', m') \<and>
    map (im_payload m') msgs = map Some (fst (split_nl (concat chunks))) \<and> write_pos f' = 0"
  using framer_receive_all_carries [OF assms, of fill now] carries_payloads by blast

text \<open>A framer as its constructor leaves it, over a heap with 8192 bytes left.\<close>

definition framer0 :: line_framer where
  "framer0 = \<lparr>scratch = \<lparr>rb_data = Some 1, rb_size = 4096, rb_deleter = Some op_delete\<rparr>, write_pos = 0\<rparr>"

definition framer0_mem :: mem where
  "framer0_mem = \<lparr>live = [1 \<mapsto> replicate 4096 (CHR ''?'')], next_addr = 2, budget = 8192, bad_free = False\<rparr>"

lemma framer0_at: "framer_at framer0 framer0_mem 1 (replicate 4096 (CHR ''?''))"
  by (simp add: framer_at_def framer0_def framer0_mem_def mem_wf_def)

theorem framer_delivers_whole_lines_witness:
  "\<exists>msgs f' m'. framer_receive_all (\<lambda>_ _. CHR ''?'') int
      [''ab'' @ [newline], ''c'' @ [newline] @ ''de'' @ [newline]] framer0 framer0_mem = (Inr msgs, f', m') \<and>
    map (im_payload m') msgs = [Some ''ab'', Some ''c'', Some ''de''] \<and> write_pos f' = 0"
  using framer_delivers_whole_lines [OF framer0_at,
      of "[''ab'' @ [newline], ''c'' @ [newline] @ ''de'' @ [newline]]" "\<lambda>_ _. CHR ''?''" int]
  by (simp add: newline_def framer0_def framer0_mem_def)

text \<open>
  Partial lines are overwritten. The documented read protocol reads to \<^verbatim>\<open>buf.data()\<close>, that is over
  the \<open>write_pos\<close> bytes \<^verbatim>\<open>OnData\<close> kept for the next call, so the bytes framed are those of the new
  read followed by stale bytes, not the kept bytes followed by the new read. (The witness: with
  \<^verbatim>\<open>ab\<close> kept, the read \<^verbatim>\<open>c\n\<close> delivers the line \<^verbatim>\<open>c\<close> instead of \<^verbatim>\<open>abc\<close>.)
\<close>

theorem framer_receive_overwrites_partial_line:
  assumes "framer_at f m p bs" and "write_pos f + 1024 \<le> length bs"
    and "write_pos f + length chunk \<le> length bs" and "write_pos f + length chunk \<le> budget m"
    and "[] \<notin> set (fst (split_nl (take (write_pos f + length chunk) (chunk @ drop (length chunk) bs))))"
  shows "\<exists>msgs f' m'. framer_receive fill now chunk f m = (Inr msgs, f', m') \<and>
    map (im_payload m') msgs =
      map Some (fst (split_nl (take (write_pos f + length chunk) (chunk @ drop (length chunk) bs))))"
  using framer_receive_splits [OF assms(1-4) surjective_pairing assms(5), of fill now] carries_payloads
  by blast

theorem framer_receive_overwrites_partial_line_witness:
  "\<exists>msgs f' m'. framer_receive (\<lambda>_ _. CHR ''?'') int (''c'' @ [newline]) (framer0\<lparr>write_pos := 2\<rparr>)
      (framer0_mem\<lparr>live := [1 \<mapsto> ''ab'' @ replicate 4094 (CHR ''?'')]\<rparr>) = (Inr msgs, f', m') \<and>
    map (im_payload m') msgs = [Some ''c''] \<and>
    fst (split_nl (''ab'' @ ''c'' @ [newline])) = [''abc'']"
proof -
  have at: "framer_at (framer0\<lparr>write_pos := 2\<rparr>)
      (framer0_mem\<lparr>live := [1 \<mapsto> ''ab'' @ replicate 4094 (CHR ''?'')]\<rparr>) 1 (''ab'' @ replicate 4094 (CHR ''?''))"
    by (simp add: framer_at_def framer0_def framer0_mem_def mem_wf_def)
  have "take 4 ((''c'' @ [newline]) @ drop 2 (''ab'' @ replicate 4094 (CHR ''?''))) = ''c'' @ [newline] @ ''??''"
    by (simp add: numeral_eq_Suc)
  then show ?thesis
    using framer_receive_overwrites_partial_line [OF at, of "''c'' @ [newline]" "\<lambda>_ _. CHR ''?''" int]
    by (simp add: framer0_def framer0_mem_def newline_def)
qed

text \<open>
  When less than 1024 bytes are free, \<^verbatim>\<open>PrepareRead\<close> does not extend the scratch area: it frees
  it, allocates \<open>write_pos + 4096\<close> new bytes and forgets \<^verbatim>\<open>write_pos_\<close>, so a line whose beginning was
  kept is lost. Otherwise it changes nothing. Either way at least 1024 bytes are free afterwards.
\<close>

theorem slf_PrepareRead_discards:
  assumes "framer_at f m p bs" and "write_pos f \<le> length bs" and "write_pos f + 4096 < 2 ^ 64"
    and "write_pos f + 4096 \<le> budget m"
  shows "\<exists>f' m' q bs'. slf_PrepareRead fill f m = (Inr (), f', m') \<and> framer_at f' m' q bs' \<and>
    write_pos f' + 1024 \<le> length bs' \<and>
    (if length bs < write_pos f + 1024
     then write_pos f' = 0 \<and> length bs' = write_pos f + 4096 \<and> live m' p = None
     else f' = f \<and> m' = m)"
proof (cases "length bs < write_pos f + 1024")
  case False
  from assms have "slf_PrepareRead fill f m = (Inr (), f, m)"
    using False by (intro slf_PrepareRead_keeps [of f "length bs"]) (auto simp: framer_at_def)
  with False assms(1) show ?thesis by (auto intro!: exI [of _ p] exI [of _ bs])
next
  case True
  from assms(1) have f: "scratch f = \<lparr>rb_data = Some p, rb_size = length bs, rb_deleter = Some op_delete\<rparr>"
    and m: "mem_wf m" "live m p = Some bs" "length bs < 2 ^ 64"
    by (auto simp: framer_at_def)
  let ?m1 = "m\<lparr>live := (live m)(p := None), budget := budget m + length bs\<rparr>"
  let ?m2 = "?m1\<lparr>live := (live ?m1)(next_addr m \<mapsto> map (fill (next_addr m)) [0..<write_pos f + 4096]),
      next_addr := Suc (next_addr m), budget := budget ?m1 - (write_pos f + 4096)\<rparr>"
  have "usub (rb_size (scratch f)) (write_pos f) < 1024"
    using True assms(2) m by (simp add: f usub_le)
  moreover have "rb_Reset (scratch f) m = (rb_null, ?m1)"
    using m by (simp add: rb_Reset_def f op_delete_def)
  moreover have "rb_Make (write_pos f + 4096) (Some (op_new fill)) (Some op_delete) ?m1 =
      (Inr \<lparr>rb_data = Some (next_addr m), rb_size = write_pos f + 4096, rb_deleter = Some op_delete\<rparr>, ?m2)"
    using assms(4) by (simp add: rb_Make_Inr_iff op_new_def)
  ultimately have "slf_PrepareRead fill f m = (Inr (),
      f\<lparr>scratch := \<lparr>rb_data = Some (next_addr m), rb_size = write_pos f + 4096, rb_deleter = Some op_delete\<rparr>,
        write_pos := 0\<rparr>, ?m2)"
    using assms(3) by (simp add: slf_PrepareRead_def uadd_small rb_MoveFrom_eq rb_destroy_def)
  moreover have "p \<noteq> next_addr m" using m by (auto simp: mem_wf_def)
  ultimately show ?thesis
    using True m assms(3) by (simp add: framer_at_def mem_wf_def)
qed

theorem slf_PrepareRead_discards_witness:
  "\<exists>f' m'. slf_PrepareRead (\<lambda>_ _. CHR ''?'') (framer0\<lparr>write_pos := 3500\<rparr>) framer0_mem = (Inr (), f', m') \<and>
     write_pos f' = 0 \<and> live m' 1 = None"
proof -
  have "framer_at (framer0\<lparr>write_pos := 3500\<rparr>) framer0_mem 1 (replicate 4096 (CHR ''?''))"
    using framer0_at by (simp add: framer_at_def framer0_def)
  from slf_PrepareRead_discards [OF this, of "\<lambda>_ _. CHR ''?''"] show ?thesis
    by (auto simp: framer0_def framer0_mem_def)
qed

lemma slf_scan_overrun:
  assumes "live m p = Some bs" and "newline \<notin> set bs" and "length bs < wp" and "i \<le> length bs"
  shows "slf_scan fill now p wp i start out m = (Inl OutOfBounds, m)"
  using assms(4)
proof (induction "length bs - i" arbitrary: i)
  case 0
  with assms show ?case by (subst slf_scan.simps) (simp add: mem_read_def)
next
  case (Suc k)
  then have "i < length bs" by simp
  with assms have "mem_read m p i = Some (bs ! i)" "bs ! i \<noteq> newline" "i < wp"
    by (auto simp: mem_read_def in_set_conv_nth)
  with Suc.hyps(1) [of "Suc i"] Suc.hyps(2) Suc.prems show ?case
    by (simp add: slf_scan_byte)
qed

text \<open>
  A full read overruns the scratch area. The documented protocol offers all \<^verbatim>\<open>buf.size()\<close> bytes
  for reading although \<open>write_pos > 0\<close> of them count as occupied; when the peer sends that many bytes
  without a newline, \<^verbatim>\<open>OnData\<close> reads past the end of the block.
\<close>

theorem framer_full_read_overruns:
  assumes "framer_at f m p bs" and "0 < write_pos f" and "write_pos f + 1024 \<le> length bs"
    and "length chunk = length bs" and "newline \<notin> set chunk" and "write_pos f + length bs < 2 ^ 64"
  shows "fst (framer_receive fill now chunk f m) = Inl OutOfBounds"
proof -
  let ?m1 = "m\<lparr>live := (live m)(p \<mapsto> chunk)\<rparr>"
  from assms(1) have f: "rb_data (scratch f) = Some p" "rb_size (scratch f) = length bs"
    and m: "live m p = Some bs" "length bs < 2 ^ 64"
    by (auto simp: framer_at_def)
  have "framer_receive fill now chunk f m = slf_OnData fill now (length chunk) f ?m1"
    using slf_PrepareRead_keeps [OF f(2) m(2) assms(3)] f m assms(4)
    by (simp add: framer_receive_def mem_write_eq)
  moreover have "slf_scan fill now p (write_pos f + length chunk) 0 0 [] ?m1 = (Inl OutOfBounds, ?m1)"
    using assms by (intro slf_scan_overrun [of _ _ chunk]) auto
  ultimately show ?thesis
    using f assms(4,6) by (simp add: slf_OnData_def uadd_small)
qed

theorem framer_full_read_overruns_witness:
  "fst (framer_receive (\<lambda>_ _. CHR ''?'') int (replicate 4096 (CHR ''a'')) (framer0\<lparr>write_pos := 1\<rparr>) framer0_mem) =
     Inl OutOfBounds"
proof -
  have "framer_at (framer0\<lparr>write_pos := 1\<rparr>) framer0_mem 1 (replicate 4096 (CHR ''?''))"
    using framer0_at by (simp add: framer_at_def framer0_def)
  from framer_full_read_overruns [OF this] show ?thesis
    by (simp add: framer0_def newline_def)
qed

end
