(* ===== verification/Line_Session.thy ===== *)
theory Line_Session
  imports Session Simple_Line_Framer
begin

text \<open>
  A session with the line framer: \<^verbatim>\<open>src/src/vectro/session.h\<close> reading through
  \<^verbatim>\<open>src/src/vectro/frame/simple_line_framer.h\<close>, as the example server puts them together. The framer parameter of
  \<open>Session\<close> is instantiated with the framer's model, whose state is the framer and the heap it
  allocates from. A read puts its bytes at the address \<^verbatim>\<open>PrepareRead\<close> returned and then calls \<^verbatim>\<open>OnData\<close>. The
  line framer has no \<^verbatim>\<open>Frame\<close>, which \<^verbatim>\<open>AsyncSend\<close> calls: it stays a parameter.
\<close>

type_synonym framer_state = "line_framer \<times> mem"

definition line_PrepareRead :: "(address \<Rightarrow> nat \<Rightarrow> char) \<Rightarrow> framer_state \<Rightarrow> framer_state" where
  "line_PrepareRead fill st = snd (slf_PrepareRead fill (fst st) (snd st))"

text \<open>The bytes arrive in the scratch buffer, then \<^verbatim>\<open>OnData\<close> runs.\<close>

definition line_OnData ::
  "(address \<Rightarrow> nat \<Rightarrow> char) \<Rightarrow> (nat \<Rightarrow> int) \<Rightarrow> framer_state \<Rightarrow> payload \<Rightarrow>
   (framer_error + internal_message list) \<times> framer_state" where
  "line_OnData fill now st data =
     (case rb_data (scratch (fst st)) of
        None \<Rightarrow> (Inl OutOfBounds, st)
      | Some p \<Rightarrow>
          (case mem_write (snd st) p 0 data of
             None \<Rightarrow> (Inl OutOfBounds, st)
           | Some m \<Rightarrow> slf_OnData fill now (length data) (fst st) m))"

definition line_env ::
  "(address \<Rightarrow> nat \<Rightarrow> char) \<Rightarrow> (nat \<Rightarrow> int) \<Rightarrow> (framer_state \<Rightarrow> internal_message \<Rightarrow> framer_error + 'b) \<Rightarrow>
   ('p \<Rightarrow> 'i option) \<Rightarrow> ('i \<Rightarrow> internal_message \<Rightarrow> framer_error + bool \<times> internal_message) \<Rightarrow>
   (framer_state, internal_message, 'b, 'p, 'i, framer_error) ses_env" where
  "line_env fill now frame as_ic filt =
     \<lparr>fr_Frame = frame, fr_PrepareRead = line_PrepareRead fill, fr_OnData = line_OnData fill now,
      as_Interceptor = as_ic, ic_Filter = filt\<rparr>"

text \<open>A running session that waits for its next read, with the beginning of no line kept.\<close>

definition line_waiting :: "address \<Rightarrow> payload \<Rightarrow> line_framer \<Rightarrow> mem \<Rightarrow>
    (framer_state, internal_message, 'b, 'p, framer_error) session \<Rightarrow> bool" where
  "line_waiting p bs f m s \<longleftrightarrow>
     framer s = Some (f, m) \<and> framer_at f m p bs \<and> write_pos f = 0 \<and> 1024 \<le> length bs \<and>
     reads_out s = 1 \<and> \<not> shutdown_in_progress s \<and> on_message s"

lemma line_PrepareRead_keeps:
  "framer_at f m p bs \<Longrightarrow> write_pos f + 1024 \<le> length bs \<Longrightarrow> line_PrepareRead fill (f, m) = (f, m)"
  using slf_PrepareRead_keeps [of f "length bs" fill m] by (simp add: line_PrepareRead_def framer_at_def)

lemma line_OnData_receive:
  assumes "framer_at f m p bs" and "write_pos f + 1024 \<le> length bs"
  shows "line_OnData fill now (f, m) chunk = framer_receive fill now chunk f m"
  using slf_PrepareRead_keeps [of f "length bs" fill m] assms
  by (auto simp: line_OnData_def framer_receive_def framer_at_def split: option.splits)

text \<open>One read of whole lines.\<close>

lemma line_session_read:
  fixes s :: "(framer_state, internal_message, 'b, 'p, framer_error) session"
  assumes s: "line_waiting p bs f m s" and c: "length c \<le> length bs" "snd (split_nl c) = []"
    and ls: "[] \<notin> set (fst (split_nl c))" and b: "length c \<le> budget m"
  shows "\<exists>msgs f' m' bs'. framer_receive fill now c f m = (Inr msgs, f', m') \<and>
    line_waiting p bs' f' m' (ses_event (line_env fill now frame as_ic filt) (SesRead (Some c)) s) \<and>
    ses_log (ses_event (line_env fill now frame as_ic filt) (SesRead (Some c)) s) = ses_log s @ map Delivered msgs \<and>
    length bs' = length bs \<and> budget m' + length (concat (fst (split_nl c))) = budget m"
proof -
  have at: "framer_at f m p bs" "write_pos f = 0" "1024 \<le> length bs" using s by (simp_all add: line_waiting_def)
  obtain msgs f' m' bs' where r: "framer_receive fill now c f m = (Inr msgs, f', m')"
    and at': "framer_at f' m' p bs'" "length bs' = length bs" "write_pos f' = 0"
      "budget m' + length (concat (fst (split_nl c))) = budget m"
    using framer_receive_splits [OF at(1), of c "fst (split_nl c)" "[]" fill now] at c ls b
    by (auto simp: prod_eq_iff)
  have "line_OnData fill now (f, m) c = (Inr msgs, (f', m'))"
    using line_OnData_receive [OF at(1)] at r by simp
  moreover have "line_PrepareRead fill (f', m') = (f', m')"
    using at at' line_PrepareRead_keeps [OF at'(1)] by simp
  ultimately show ?thesis
    using s r at' at
    by (simp add: line_waiting_def ses_event_def ses_on_read_def ses_StartRead_def ses_emit_def line_env_def Let_def)
      (metis at'(1))
qed

lemma line_session_reads:
  fixes s :: "(framer_state, internal_message, 'b, 'p, framer_error) session"
  assumes "line_waiting p bs f m s"
    and "\<forall>c \<in> set chunks. length c \<le> length bs \<and> snd (split_nl c) = []"
    and "[] \<notin> set (fst (split_nl (concat chunks)))" and "length (concat chunks) \<le> budget m"
    and "t = fold (\<lambda>c. ses_event (line_env fill now frame as_ic filt) (SesRead (Some c))) chunks s"
  shows "\<exists>msgs f' m' bs'. framer_receive_all fill now chunks f m = (Inr msgs, f', m') \<and>
    line_waiting p bs' f' m' t \<and> ses_log t = ses_log s @ map Delivered msgs"
  using assms
proof (induction chunks arbitrary: s f m bs)
  case (Cons c cs)
  let ?ls = "fst (split_nl c)"
  have all: "fst (split_nl (concat (c # cs))) = ?ls @ fst (split_nl (concat cs))"
    using split_nl_append [of c "concat cs"] Cons.prems(2) by simp
  let ?s = "ses_event (line_env fill now frame as_ic filt) (SesRead (Some c)) s"
  obtain msgs f1 m1 bs1 where 1: "framer_receive fill now c f m = (Inr msgs, f1, m1)" "line_waiting p bs1 f1 m1 ?s"
    "ses_log ?s = ses_log s @ map Delivered msgs" "length bs1 = length bs" "budget m1 + length (concat ?ls) = budget m"
    using line_session_read [OF Cons.prems(1), of c fill now frame as_ic filt] Cons.prems all by auto
  have "length (concat cs) \<le> budget m1"
    using Cons.prems(4) 1(5) length_split_nl_lines [of c] by simp
  with Cons.IH [OF 1(2)] 1(4) Cons.prems all
  obtain msgs' f2 m2 bs2 where "framer_receive_all fill now cs f1 m1 = (Inr msgs', f2, m2)" "line_waiting p bs2 f2 m2 t"
    "ses_log t = ses_log ?s @ map Delivered msgs'" by auto
  with 1 show ?case by auto
qed auto

subsection \<open>Properties\<close>


text \<open>A session just started over a fresh framer.\<close>

definition demo_line_env :: "(framer_state, internal_message, unit, unit, unit, framer_error) ses_env" where
  "demo_line_env = line_env (\<lambda>_ _. CHR ''?'') int (\<lambda>_ _. Inr ()) (\<lambda>_. None) (\<lambda>_ m. Inr (True, m))"

definition demo_line_session :: "(framer_state, internal_message, unit, unit, framer_error) session" where
  "demo_line_session = ses_Start demo_line_env 1 ''10.0.0.1'' 5000 80 True True (ses_new (framer0, framer0_mem))"

lemma demo_line_prepare: "line_PrepareRead (\<lambda>_ _. CHR ''?'') (framer0, framer0_mem) = (framer0, framer0_mem)"
  by (rule line_PrepareRead_keeps [OF framer0_at]) (simp add: framer0_def)

lemma demo_line_waiting: "line_waiting 1 (replicate 4096 (CHR ''?'')) framer0 framer0_mem demo_line_session"
  using framer0_at demo_line_prepare
  by (simp add: line_waiting_def demo_line_session_def demo_line_env_def line_env_def ses_Start_def ses_new_def
      ses_StartRead_def ses_StartIdleTimer_def Let_def framer0_def)


text \<open>
  C40. One empty line from the peer kills a session without ending it. The framer throws out of the read handler: the
  message handler sees nothing of that read, no read and no timer is outstanding any more, and
  nothing the peer or the clock does later changes that or closes the connection.
\<close>

theorem line_session_empty_line_wedges:
  fixes s :: "(framer_state, internal_message, 'b, 'p, framer_error) session"
  assumes "line_waiting p bs f m s" and "\<not> ses_graceful s" and "due (read_timer s) = 0" and "due (idle_timer s) = 0"
    and "length c \<le> length bs" and "length c \<le> budget m" and "[] \<in> set (fst (split_nl c))"
    and "env = line_env fill now frame as_ic filt"
    and "(\<lambda>s t. \<exists>ev. from_peer_or_clock ev \<and> t = ses_event env ev s)\<^sup>*\<^sup>* (ses_event env (SesRead (Some c)) s) t"
  shows "delivered t = delivered s \<and> reads_out t = 0 \<and> armed (read_timer t) = 0 \<and> armed (idle_timer t) = 0 \<and>
    \<not> shutdown_in_progress t"
proof -
  let ?m = "m\<lparr>live := (live m)(p \<mapsto> c @ drop (length c) bs)\<rparr>"
  have at: "framer_at f m p bs" "write_pos f = 0" using assms(1) by (simp_all add: line_waiting_def)
  then have "framer_at f ?m p (c @ drop (length c) bs)"
    using assms(5) by (auto simp: framer_at_def mem_wf_def)
  from slf_OnData_empty_line_throws [OF this, of "length c" fill now] at(2) assms(5-7)
  obtain e m' where "slf_OnData fill now (length c) f ?m = (Inl e, f\<lparr>write_pos := length c\<rparr>, m')" by auto
  then have "line_OnData fill now (f, m) c = (Inl e, (f\<lparr>write_pos := length c\<rparr>, m'))"
    using at(1) assms(5) by (simp add: line_OnData_def framer_at_def mem_write_eq)
  then have "ses_wedged (delivered s) (ses_event env (SesRead (Some c)) s)"
    using assms(1-4)
    by (simp add: assms(8) line_waiting_def line_env_def ses_wedged_def ses_event_def ses_on_read_def ses_emit_def Let_def
        timer_defs delivered_def List.map_filter_def)
  then have "ses_wedged (delivered s) t" by (rule ses_wedge.steps_inv [OF assms(9)])
  then show ?thesis by (simp add: ses_wedged_def timer_defs)
qed

theorem line_session_empty_line_wedges_witness:
  "reads_out (ses_event demo_line_env (SesRead (Some (''a'' @ [newline, newline]))) demo_line_session) = 0"
proof -
  have "\<not> ses_graceful demo_line_session" "due (read_timer demo_line_session) = 0" "due (idle_timer demo_line_session) = 0"
    by (simp_all add: demo_line_session_def demo_line_env_def line_env_def ses_Start_def ses_new_def
      ses_StartRead_def ses_StartIdleTimer_def Let_def timer_defs)
  from line_session_empty_line_wedges [OF demo_line_waiting this, of "''a'' @ [newline, newline]", OF _ _ _ demo_line_env_def
      rtranclp.rtrancl_refl]
  show ?thesis by (simp add: newline_def framer0_mem_def)
qed

end
