(* ===== verification/Task_Multi_Processor.thy ===== *)
theory Task_Multi_Processor
  imports Prelude Complex_Main
begin

text \<open>
  \<^verbatim>\<open>src/src/vectro/pool/task_multi_processor.h\<close>, the operations one at a time: submitting, one turn
  of a worker's loop, drop notification, futures and metrics. The theory \<open>Task_Concurrency\<close> interleaves
  the same operations at the granularity of their atomic accesses and critical sections.

  Counters are 64-bit words. A task's wrappers are the closures \<^verbatim>\<open>SubmitWithResult\<close> builds, so they are
  data here: the function, the promise and the cancellation token they captured. Promises and tokens
  are objects at addresses. The clock, the random draw of the backoff and the results of the callbacks
  are arguments.
\<close>

subsection \<open>Configuration\<close>

datatype schedule_mode = FIFO | RoundRobin | WorkStealing

record tmp_config =
  cfg_id :: string
  num_threads :: nat
  mode :: schedule_mode
  cfg_steal_policy :: "(nat list \<Rightarrow> nat) option"
  cfg_max_queue_size :: u64
  backpressure_threshold :: u64
  backoff_duration :: int
  jitter_fraction :: rat
  drop_notification_interval :: int
  shutdown_timeout :: int
  enable_circuit_breaker :: bool
  enable_backoff :: bool
  bind_threads :: bool
  enable_drain_on_shutdown :: bool

text \<open>The defaults; \<^verbatim>\<open>hardware_concurrency()\<close> is an argument.\<close>

definition tmp_config_default :: "nat \<Rightarrow> tmp_config" where
  "tmp_config_default hw =
     \<lparr>cfg_id = ''TaskProcessor'', num_threads = hw, mode = FIFO, cfg_steal_policy = None,
      cfg_max_queue_size = 10000, backpressure_threshold = 5000, backoff_duration = 10,
      jitter_fraction = 1 / 10, drop_notification_interval = 1000, shutdown_timeout = 5000,
      enable_circuit_breaker = True, enable_backoff = True, bind_threads = False,
      enable_drain_on_shutdown = True\<rparr>"

subsection \<open>Tasks, promises, state\<close>

datatype 'e tmp_exn = UserExn 'e | RuntimeError string

datatype ('r, 'e) promise = Pending | Value 'r | Exception "'e tmp_exn"

datatype ('t, 'r, 'e) wrapper =
    ResultW "'t \<Rightarrow> 'e + 'r" address
  | CancelW "'t \<Rightarrow> 'e + 'r" address "address option"

record ('t, 'r, 'e) task_item =
  payload :: 't
  wrappers :: "('t, 'r, 'e) wrapper list"

record ('t, 'r, 'e) tmp =
  cfg :: tmp_config
  running :: bool
  stopped :: bool
  active_workers :: u64
  queues :: "('t, 'r, 'e) task_item list list"
  tasks_in_queue :: u64
  dropped_count :: u64
  high_water_mark :: u64
  processed_count :: u64
  stolen_count :: u64
  rr_index :: u64
  last_drop_notification :: int
  steal_policy :: "nat list \<Rightarrow> nat"
  global_callbacks :: nat
  promises :: "address \<Rightarrow> ('r, 'e) promise"
  tokens :: "address \<Rightarrow> bool"
  executed :: "('t, 'r, 'e) task_item list"
  callback_calls :: "(nat \<times> 't) list"
  notified :: "(string \<times> u64) list"

datatype tmp_fault = DivisionByZero | QueueOutOfRange

text \<open>\<^verbatim>\<open>std::max_element\<close>: the position of the first largest element, the end for an empty range.\<close>

fun max_element :: "nat list \<Rightarrow> nat" where
  "max_element [] = 0"
| "max_element [x] = 0"
| "max_element (x # xs) = (let i = max_element xs in if x < xs ! i then Suc i else 0)"

definition DefaultStealPolicy :: "nat list \<Rightarrow> nat" where
  "DefaultStealPolicy sizes = max_element sizes"

definition tmp_new :: "tmp_config \<Rightarrow> int \<Rightarrow> ('t, 'r, 'e) tmp" where
  "tmp_new c now =
     \<lparr>cfg = c, running = True, stopped = False, active_workers = of_nat (num_threads c),
      queues = replicate (num_threads c) [], tasks_in_queue = 0, dropped_count = 0, high_water_mark = 0,
      processed_count = 0, stolen_count = 0, rr_index = 0, last_drop_notification = now,
      steal_policy = (case cfg_steal_policy c of Some p \<Rightarrow> p | None \<Rightarrow> DefaultStealPolicy),
      global_callbacks = 0, promises = \<lambda>_. Pending, tokens = \<lambda>_. False, executed = [],
      callback_calls = [], notified = []\<rparr>"

definition tmp_UpdateConfig :: "tmp_config \<Rightarrow> ('t, 'r, 'e) tmp \<Rightarrow> ('t, 'r, 'e) tmp" where
  "tmp_UpdateConfig c s = s\<lparr>cfg := c\<rparr>"

text \<open>Callbacks are numbered in the order of their registration.\<close>

definition tmp_RegisterCallback :: "('t, 'r, 'e) tmp \<Rightarrow> ('t, 'r, 'e) tmp" where
  "tmp_RegisterCallback s = s\<lparr>global_callbacks := Suc (global_callbacks s)\<rparr>"

subsection \<open>Submitting\<close>

text \<open>The circuit breaker's test on the counter value \<open>cur\<close>.\<close>

definition tmp_trips :: "tmp_config \<Rightarrow> u64 \<Rightarrow> bool" where
  "tmp_trips c cur \<longleftrightarrow>
     enable_circuit_breaker c \<and> cfg_max_queue_size c \<noteq> 0 \<and> cfg_max_queue_size c \<le> cur"

text \<open>The sleep of the backpressure branch in milliseconds, for a draw from \<open>[- jit, jit]\<close>.\<close>

definition tmp_jitter :: "tmp_config \<Rightarrow> int" where
  "tmp_jitter c =
     (let x = of_int (backoff_duration c) * jitter_fraction c in if 0 \<le> x then \<lfloor>x\<rfloor> else \<lceil>x\<rceil>)"

definition tmp_backoff :: "tmp_config \<Rightarrow> u64 \<Rightarrow> int \<Rightarrow> int" where
  "tmp_backoff c cur draw =
     (if enable_backoff c \<and> backpressure_threshold c \<noteq> 0 \<and> backpressure_threshold c \<le> cur
      then let ms = backoff_duration c + draw in if 0 < ms then ms else 0
      else 0)"

text \<open>The choice of a queue.\<close>

definition tmp_pick :: "('t, 'r, 'e) tmp \<Rightarrow> tmp_fault + nat \<times> ('t, 'r, 'e) tmp" where
  "tmp_pick s =
     (if mode (cfg s) = FIFO then Inr (0, s)
      else if num_threads (cfg s) = 0 then Inl DivisionByZero
      else Inr (unat (rr_index s) mod num_threads (cfg s), s\<lparr>rr_index := rr_index s + 1\<rparr>))"

text \<open>The critical section that appends the task and raises the high-water mark.\<close>

definition tmp_push :: "nat \<Rightarrow> ('t, 'r, 'e) task_item \<Rightarrow> ('t, 'r, 'e) tmp \<Rightarrow> tmp_fault + ('t, 'r, 'e) tmp" where
  "tmp_push idx ti s =
     (if idx < length (queues s) then
        let q = queues s ! idx @ [ti]; hwm = of_nat (length q)
        in Inr (s\<lparr>queues := (queues s)[idx := q],
                  high_water_mark := (if high_water_mark s < hwm then hwm else high_water_mark s)\<rparr>)
      else Inl QueueOutOfRange)"

definition tmp_counted :: "('t, 'r, 'e) tmp \<Rightarrow> ('t, 'r, 'e) tmp" where
  "tmp_counted s = s\<lparr>tasks_in_queue := tasks_in_queue s + 1\<rparr>"

definition tmp_SubmitImpl ::
  "'t \<Rightarrow> ('t, 'r, 'e) wrapper list \<Rightarrow> ('t, 'r, 'e) tmp \<Rightarrow> tmp_fault + ('t, 'r, 'e) tmp" where
  "tmp_SubmitImpl item ws s =
     (if tmp_trips (cfg s) (tasks_in_queue s) then Inr (s\<lparr>dropped_count := dropped_count s + 1\<rparr>)
      else
        case tmp_pick s of
          Inl e \<Rightarrow> Inl e
        | Inr (idx, s1) \<Rightarrow>
            (case tmp_push idx \<lparr>payload = item, wrappers = ws\<rparr> s1 of
               Inl e \<Rightarrow> Inl e
             | Inr s2 \<Rightarrow> Inr (tmp_counted s2)))"

definition tmp_Submit :: "'t \<Rightarrow> ('t, 'r, 'e) tmp \<Rightarrow> tmp_fault + ('t, 'r, 'e) tmp" where
  "tmp_Submit item s = tmp_SubmitImpl item [] s"

text \<open>Both overloads of \<^verbatim>\<open>SubmitWithTimeout\<close>; the first passes no token.\<close>

definition tmp_SubmitWithTimeout ::
  "'t \<Rightarrow> int \<Rightarrow> address option \<Rightarrow> int \<Rightarrow> ('t, 'r, 'e) tmp \<Rightarrow> tmp_fault + bool \<times> ('t, 'r, 'e) tmp" where
  "tmp_SubmitWithTimeout item deadline token now s =
     (if (case token of Some k \<Rightarrow> tokens s k | None \<Rightarrow> False) \<or> deadline \<le> now then Inr (False, s)
      else case tmp_SubmitImpl item [] s of Inl e \<Rightarrow> Inl e | Inr s' \<Rightarrow> Inr (True, s'))"

text \<open>Both overloads of \<^verbatim>\<open>SubmitWithResult\<close>, for a fresh promise at \<open>p\<close>.\<close>

definition tmp_SubmitWithResult ::
  "'t \<Rightarrow> ('t \<Rightarrow> 'e + 'r) \<Rightarrow> address \<Rightarrow> ('t, 'r, 'e) tmp \<Rightarrow> tmp_fault + ('t, 'r, 'e) tmp" where
  "tmp_SubmitWithResult item fn p s =
     tmp_SubmitImpl item [ResultW fn p] (s\<lparr>promises := (promises s)(p := Pending)\<rparr>)"

definition tmp_SubmitWithResultToken ::
  "'t \<Rightarrow> ('t \<Rightarrow> 'e + 'r) \<Rightarrow> address option \<Rightarrow> address \<Rightarrow> ('t, 'r, 'e) tmp \<Rightarrow> tmp_fault + ('t, 'r, 'e) tmp" where
  "tmp_SubmitWithResultToken item fn token p s =
     (if (case token of Some k \<Rightarrow> tokens s k | None \<Rightarrow> False)
      then Inr (s\<lparr>promises := (promises s)(p := Exception (RuntimeError ''Task canceled before enqueue''))\<rparr>)
      else tmp_SubmitImpl item [CancelW fn p token] (s\<lparr>promises := (promises s)(p := Pending)\<rparr>))"

subsection \<open>A worker's turn\<close>

definition tmp_own ::
  "nat \<Rightarrow> ('t, 'r, 'e) tmp \<Rightarrow> tmp_fault + ('t, 'r, 'e) task_item option \<times> ('t, 'r, 'e) tmp" where
  "tmp_own w s =
     (if w < length (queues s) then
        case queues s ! w of
          [] \<Rightarrow> Inr (None, s)
        | ti # rest \<Rightarrow> Inr (Some ti, s\<lparr>queues := (queues s)[w := rest]\<rparr>)
      else Inl QueueOutOfRange)"

text \<open>The sizes are read without locks, then the policy picks a victim.\<close>

definition tmp_victim :: "('t, 'r, 'e) tmp \<Rightarrow> tmp_fault + nat" where
  "tmp_victim s =
     (if num_threads (cfg s) \<le> length (queues s)
      then Inr (steal_policy s (map (\<lambda>i. length (queues s ! i)) [0..<num_threads (cfg s)]))
      else Inl QueueOutOfRange)"

definition tmp_steal ::
  "nat \<Rightarrow> ('t, 'r, 'e) tmp \<Rightarrow> tmp_fault + ('t, 'r, 'e) task_item option \<times> ('t, 'r, 'e) tmp" where
  "tmp_steal vic s =
     (if vic < length (queues s) then
        if queues s ! vic = [] then Inr (None, s)
        else Inr (Some (last (queues s ! vic)),
               s\<lparr>queues := (queues s)[vic := butlast (queues s ! vic)], stolen_count := stolen_count s + 1\<rparr>)
      else Inl QueueOutOfRange)"

fun run_wrapper :: "'t \<Rightarrow> ('t, 'r, 'e) wrapper \<Rightarrow> ('t, 'r, 'e) tmp \<Rightarrow> ('t, 'r, 'e) tmp" where
  "run_wrapper t (ResultW fn p) s =
     s\<lparr>promises := (promises s)(p := (case fn t of Inr r \<Rightarrow> Value r | Inl e \<Rightarrow> Exception (UserExn e)))\<rparr>"
| "run_wrapper t (CancelW fn p token) s =
     s\<lparr>promises := (promises s)(p :=
        (if (case token of Some k \<Rightarrow> tokens s k | None \<Rightarrow> False)
         then Exception (RuntimeError ''Task canceled before execution'')
         else case fn t of Inr r \<Rightarrow> Value r | Inl e \<Rightarrow> Exception (UserExn e)))\<rparr>"

text \<open>The counters, the global callbacks and the wrappers; exceptions of callbacks are swallowed.\<close>

definition tmp_uncounted :: "('t, 'r, 'e) tmp \<Rightarrow> ('t, 'r, 'e) tmp" where
  "tmp_uncounted s = s\<lparr>tasks_in_queue := tasks_in_queue s - 1\<rparr>"

definition tmp_run :: "('t, 'r, 'e) task_item \<Rightarrow> ('t, 'r, 'e) tmp \<Rightarrow> ('t, 'r, 'e) tmp" where
  "tmp_run ti s =
     (let s1 = s\<lparr>processed_count := processed_count s + 1\<rparr>;
          s2 = s1\<lparr>callback_calls := callback_calls s1 @ map (\<lambda>g. (g, payload ti)) [0..<global_callbacks s1]\<rparr>
      in fold (run_wrapper (payload ti)) (wrappers ti) (s2\<lparr>executed := executed s2 @ [ti]\<rparr>))"

definition tmp_HandleDrops :: "int \<Rightarrow> ('t, 'r, 'e) tmp \<Rightarrow> ('t, 'r, 'e) tmp" where
  "tmp_HandleDrops now s =
     (let d = dropped_count s; s1 = s\<lparr>dropped_count := 0\<rparr>
      in if d \<noteq> 0 \<and> drop_notification_interval (cfg s) \<le> now - last_drop_notification s
         then s1\<lparr>notified := notified s1 @ [(cfg_id (cfg s), d)], last_drop_notification := now\<rparr>
         else s1)"

text \<open>What a worker takes in one turn, past the wait.\<close>

definition tmp_take ::
  "nat \<Rightarrow> ('t, 'r, 'e) tmp \<Rightarrow> tmp_fault + ('t, 'r, 'e) task_item option \<times> ('t, 'r, 'e) tmp" where
  "tmp_take w s =
     (case tmp_own w s of
        Inr (None, s') \<Rightarrow>
          if mode (cfg s') = WorkStealing
          then (case tmp_victim s' of Inl e \<Rightarrow> Inl e | Inr vic \<Rightarrow> tmp_steal vic s')
          else Inr (None, s')
      | r \<Rightarrow> r)"

definition tmp_turn :: "nat \<Rightarrow> int \<Rightarrow> ('t, 'r, 'e) tmp \<Rightarrow> tmp_fault + ('t, 'r, 'e) tmp" where
  "tmp_turn w now s =
     (case tmp_take w s of
        Inl e \<Rightarrow> Inl e
      | Inr (Some ti, s') \<Rightarrow> Inr (tmp_HandleDrops now (tmp_run ti (tmp_uncounted s')))
      | Inr (None, s') \<Rightarrow> Inr (tmp_HandleDrops now s'))"

subsection \<open>Metrics\<close>

definition tmp_GetQueueSize :: "('t, 'r, 'e) tmp \<Rightarrow> u64" where
  "tmp_GetQueueSize s = tasks_in_queue s"

definition tmp_GetDroppedCount :: "('t, 'r, 'e) tmp \<Rightarrow> u64 \<times> ('t, 'r, 'e) tmp" where
  "tmp_GetDroppedCount s = (dropped_count s, s\<lparr>dropped_count := 0\<rparr>)"

definition tmp_GetHighWaterMark :: "('t, 'r, 'e) tmp \<Rightarrow> u64" where
  "tmp_GetHighWaterMark s = high_water_mark s"

definition tmp_GetProcessedCount :: "('t, 'r, 'e) tmp \<Rightarrow> u64" where
  "tmp_GetProcessedCount s = processed_count s"

definition tmp_GetStolenCount :: "('t, 'r, 'e) tmp \<Rightarrow> u64" where
  "tmp_GetStolenCount s = stolen_count s"

lemmas tmp_submit_defs [vec_defs] =
  tmp_trips_def tmp_pick_def tmp_push_def tmp_counted_def tmp_SubmitImpl_def tmp_Submit_def

lemmas tmp_worker_defs [vec_defs] =
  tmp_own_def tmp_victim_def tmp_steal_def tmp_uncounted_def tmp_run_def tmp_HandleDrops_def
  tmp_take_def tmp_turn_def

subsection \<open>The invariant between operations\<close>

definition queued :: "('t, 'r, 'e) tmp \<Rightarrow> ('t, 'r, 'e) task_item list" where
  "queued s = concat (queues s)"

text \<open>One queue per thread, at least one thread, and a counter that counts the queued tasks.\<close>

definition tmp_wf :: "('t, 'r, 'e) tmp \<Rightarrow> bool" where
  "tmp_wf s \<longleftrightarrow>
     length (queues s) = num_threads (cfg s) \<and> 0 < num_threads (cfg s) \<and>
     tasks_in_queue s = of_nat (length (queued s))"

lemma cfg_tmp_new [simp]: "cfg (tmp_new c now) = c"
  by (simp add: tmp_new_def)

lemma tmp_wf_new: "0 < num_threads c \<Longrightarrow> tmp_wf (tmp_new c now)"
  by (simp add: tmp_wf_def tmp_new_def queued_def)

lemma length_queued_update:
  "i < length (queues s) \<Longrightarrow>
     length (concat ((queues s)[i := q])) + length (queues s ! i) = length (queued s) + length q"
  unfolding queued_def by (rule length_concat_update)

lemma tmp_pick_wf:
  assumes "tmp_wf s"
  shows "\<exists>idx r. idx < length (queues s) \<and> tmp_pick s = Inr (idx, s\<lparr>rr_index := r\<rparr>)"
proof (cases "mode (cfg s) = FIFO")
  case True
  with assms show ?thesis
    by (intro exI [of _ 0] exI [of _ "rr_index s"]) (simp add: tmp_pick_def tmp_wf_def)
next
  case False
  with assms show ?thesis by (auto simp: tmp_pick_def tmp_wf_def)
qed

lemma tmp_SubmitImpl_accepts:
  assumes "tmp_wf s" and "\<not> tmp_trips (cfg s) (tasks_in_queue s)"
  shows "\<exists>idx r h. idx < length (queues s) \<and>
    tmp_SubmitImpl item ws s =
      Inr (s\<lparr>rr_index := r, queues := (queues s)[idx := queues s ! idx @ [\<lparr>payload = item, wrappers = ws\<rparr>]],
             high_water_mark := h, tasks_in_queue := tasks_in_queue s + 1\<rparr>)"
proof -
  from tmp_pick_wf [OF assms(1)] obtain idx r
    where pick: "tmp_pick s = Inr (idx, s\<lparr>rr_index := r\<rparr>)" and idx: "idx < length (queues s)" by blast
  let ?n = "of_nat (length (queues s ! idx @ [\<lparr>payload = item, wrappers = ws\<rparr>])) :: u64"
  show ?thesis
    by (rule exI [of _ idx], rule exI [of _ r],
        rule exI [of _ "if high_water_mark s < ?n then ?n else high_water_mark s"])
      (simp add: assms(2) tmp_SubmitImpl_def pick idx tmp_push_def tmp_counted_def Let_def)
qed

lemma tmp_wf_push:
  assumes "tmp_wf s" and "idx < length (queues s)"
  shows "tmp_wf (s\<lparr>rr_index := r, queues := (queues s)[idx := queues s ! idx @ [ti]],
             high_water_mark := h, tasks_in_queue := tasks_in_queue s + 1\<rparr>)"
  using assms length_queued_update [OF assms(2), of "queues s ! idx @ [ti]"]
  by (simp add: tmp_wf_def queued_def)

lemma tmp_SubmitImpl_drops:
  "tmp_trips (cfg s) (tasks_in_queue s) \<Longrightarrow>
     tmp_SubmitImpl item ws s = Inr (s\<lparr>dropped_count := dropped_count s + 1\<rparr>)"
  by (simp add: tmp_SubmitImpl_def)

lemma tmp_SubmitImpl_wf:
  assumes "tmp_wf s"
  shows "\<exists>s'. tmp_SubmitImpl item ws s = Inr s' \<and> tmp_wf s' \<and> cfg s' = cfg s"
proof (cases "tmp_trips (cfg s) (tasks_in_queue s)")
  case True
  with assms show ?thesis by (simp add: tmp_SubmitImpl_drops tmp_wf_def queued_def)
next
  case False
  from tmp_SubmitImpl_accepts [OF assms this, of item ws] tmp_wf_push [OF assms] show ?thesis
    by fastforce
qed

subsection \<open>The victim of a theft\<close>

lemma max_element_first:
  "xs \<noteq> [] \<Longrightarrow> max_element xs < length xs \<and> (\<forall>j<length xs. xs ! j \<le> xs ! max_element xs) \<and>
     (\<forall>j<max_element xs. xs ! j < xs ! max_element xs)"
proof (induction xs rule: max_element.induct)
  case (3 x y ys)
  define zs where "zs = y # ys"
  define i where "i = max_element zs"
  have max: "max_element (x # zs) = (if x < zs ! i then Suc i else 0)"
    by (simp add: zs_def i_def Let_def)
  have IH: "i < length zs" "\<forall>j<length zs. zs ! j \<le> zs ! i" "\<forall>j<i. zs ! j < zs ! i"
    using 3 by (simp_all add: zs_def i_def)
  have "(x # zs) ! j \<le> (x # zs) ! max_element (x # zs)" if "j < length (x # zs)" for j
    using that IH(2) by (cases j) (fastforce simp: max)+
  moreover have "(x # zs) ! j < (x # zs) ! max_element (x # zs)" if "j < max_element (x # zs)" for j
    using that IH(3) by (cases j) (auto simp: max split: if_splits)
  moreover have "max_element (x # zs) < length (x # zs)" using IH(1) by (simp add: max)
  ultimately show ?case by (simp only: zs_def) blast
qed auto

lemma tmp_victim_default:
  assumes "tmp_wf s" and "steal_policy s = DefaultStealPolicy"
  shows "\<exists>v. tmp_victim s = Inr v \<and> v < length (queues s) \<and>
    (\<forall>j<length (queues s). length (queues s ! j) \<le> length (queues s ! v)) \<and>
    (\<forall>j<v. length (queues s ! j) < length (queues s ! v))"
proof -
  let ?sizes = "map (\<lambda>i. length (queues s ! i)) [0..<num_threads (cfg s)]"
  have n: "num_threads (cfg s) = length (queues s)" "?sizes \<noteq> []"
    using assms(1) by (auto simp: tmp_wf_def)
  have "tmp_victim s = Inr (max_element ?sizes)"
    using assms(2) n(1) by (simp add: tmp_victim_def DefaultStealPolicy_def)
  with max_element_first [OF n(2)] n(1) show ?thesis
    by (intro exI [of _ "max_element ?sizes"]) auto
qed

lemma queued_nonempty_ex:
  "queued s \<noteq> [] \<Longrightarrow> \<exists>i<length (queues s). queues s ! i \<noteq> []"
  by (auto simp: queued_def in_set_conv_nth)

subsection \<open>Turns\<close>

lemma fold_run_wrapper_fields [simp]:
  "queues (fold (run_wrapper t) ws s) = queues s" "cfg (fold (run_wrapper t) ws s) = cfg s"
  "tasks_in_queue (fold (run_wrapper t) ws s) = tasks_in_queue s"
  "executed (fold (run_wrapper t) ws s) = executed s" "tokens (fold (run_wrapper t) ws s) = tokens s"
  "steal_policy (fold (run_wrapper t) ws s) = steal_policy s"
  "dropped_count (fold (run_wrapper t) ws s) = dropped_count s"
  "callback_calls (fold (run_wrapper t) ws s) = callback_calls s"
  "processed_count (fold (run_wrapper t) ws s) = processed_count s"
  "global_callbacks (fold (run_wrapper t) ws s) = global_callbacks s"
proof (induction ws arbitrary: s)
  case (Cons w ws)
  { case 1 then show ?case by (cases w) (simp_all add: Cons)
  next case 2 then show ?case by (cases w) (simp_all add: Cons)
  next case 3 then show ?case by (cases w) (simp_all add: Cons)
  next case 4 then show ?case by (cases w) (simp_all add: Cons)
  next case 5 then show ?case by (cases w) (simp_all add: Cons)
  next case 6 then show ?case by (cases w) (simp_all add: Cons)
  next case 7 then show ?case by (cases w) (simp_all add: Cons)
  next case 8 then show ?case by (cases w) (simp_all add: Cons)
  next case 9 then show ?case by (cases w) (simp_all add: Cons)
  next case 10 then show ?case by (cases w) (simp_all add: Cons) }
qed simp_all

lemma tmp_HandleDrops_fields [simp]:
  "queues (tmp_HandleDrops now s) = queues s" "cfg (tmp_HandleDrops now s) = cfg s"
  "tasks_in_queue (tmp_HandleDrops now s) = tasks_in_queue s" "executed (tmp_HandleDrops now s) = executed s"
  "promises (tmp_HandleDrops now s) = promises s" "callback_calls (tmp_HandleDrops now s) = callback_calls s"
  "processed_count (tmp_HandleDrops now s) = processed_count s" "dropped_count (tmp_HandleDrops now s) = 0"
  "global_callbacks (tmp_HandleDrops now s) = global_callbacks s" "steal_policy (tmp_HandleDrops now s) = steal_policy s"
  by (simp_all add: tmp_HandleDrops_def Let_def)

lemma tmp_run_fields [simp]:
  "queues (tmp_run ti s) = queues s" "cfg (tmp_run ti s) = cfg s" "tasks_in_queue (tmp_run ti s) = tasks_in_queue s"
  "executed (tmp_run ti s) = executed s @ [ti]" "processed_count (tmp_run ti s) = processed_count s + 1"
  "callback_calls (tmp_run ti s) = callback_calls s @ map (\<lambda>g. (g, payload ti)) [0..<global_callbacks s]"
  "global_callbacks (tmp_run ti s) = global_callbacks s" "steal_policy (tmp_run ti s) = steal_policy s"
  by (simp_all add: tmp_run_def Let_def)

lemma tmp_take_own:
  "w < length (queues s) \<Longrightarrow> queues s ! w = ti # rest \<Longrightarrow>
     tmp_take w s = Inr (Some ti, s\<lparr>queues := (queues s)[w := rest]\<rparr>)"
  by (simp add: tmp_take_def tmp_own_def)

lemma tmp_take_own_empty:
  "w < length (queues s) \<Longrightarrow> queues s ! w = [] \<Longrightarrow> mode (cfg s) \<noteq> WorkStealing \<Longrightarrow> tmp_take w s = Inr (None, s)"
  by (simp add: tmp_take_def tmp_own_def)

lemma tmp_steal_longest:
  assumes "tmp_wf s" and "steal_policy s = DefaultStealPolicy" and "mode (cfg s) = WorkStealing"
    and "w < length (queues s)" and "queues s ! w = []" and "queued s \<noteq> []"
  shows "\<exists>v. v < length (queues s) \<and> queues s ! v \<noteq> [] \<and>
    (\<forall>j<length (queues s). length (queues s ! j) \<le> length (queues s ! v)) \<and>
    tmp_take w s = Inr (Some (last (queues s ! v)),
      s\<lparr>queues := (queues s)[v := butlast (queues s ! v)], stolen_count := stolen_count s + 1\<rparr>)"
proof -
  from tmp_victim_default [OF assms(1,2)] obtain v where v: "tmp_victim s = Inr v" "v < length (queues s)"
    "\<forall>j<length (queues s). length (queues s ! j) \<le> length (queues s ! v)" by blast
  from queued_nonempty_ex [OF assms(6)] obtain i where i: "i < length (queues s)" "queues s ! i \<noteq> []" by blast
  have "0 < length (queues s ! i)" using i(2) by simp
  also have "\<dots> \<le> length (queues s ! v)" using v(3) i(1) by blast
  finally have "queues s ! v \<noteq> []" by simp
  with v assms(3-5) show ?thesis
    by (intro exI [of _ v]) (simp add: tmp_take_def tmp_own_def tmp_steal_def)
qed

subsection \<open>Bursts and distribution\<close>

text \<open>Submitting without faults; by \<open>tmp_SubmitImpl_wf\<close> there are none on a well-formed processor.\<close>

definition tmp_submitted :: "'t \<Rightarrow> ('t, 'r, 'e) tmp \<Rightarrow> ('t, 'r, 'e) tmp" where
  "tmp_submitted item s = (case tmp_Submit item s of Inr s' \<Rightarrow> s' | Inl _ \<Rightarrow> s)"

lemma cfg_submitted [simp]: "cfg (tmp_submitted t s) = cfg s"
  by (auto simp: tmp_submitted_def tmp_Submit_def tmp_SubmitImpl_def tmp_pick_def tmp_push_def
      tmp_counted_def Let_def split: sum.splits)

lemma cfg_fold_submitted [simp]: "cfg (fold tmp_submitted ys s) = cfg s"
  by (induction ys arbitrary: s) simp_all

definition plain :: "'t \<Rightarrow> ('t, 'r, 'e) task_item" where
  "plain t = \<lparr>payload = t, wrappers = []\<rparr>"

text \<open>A processor in FIFO mode with the circuit breaker on, all tasks in queue 0.\<close>

definition tmp_fifo_ready :: "('t, 'r, 'e) tmp \<Rightarrow> bool" where
  "tmp_fifo_ready s \<longleftrightarrow>
     tmp_wf s \<and> mode (cfg s) = FIFO \<and> enable_circuit_breaker (cfg s) \<and> cfg_max_queue_size (cfg s) \<noteq> 0 \<and>
     (\<forall>i. 0 < i \<and> i < length (queues s) \<longrightarrow> queues s ! i = []) \<and>
     length (queues s ! 0) \<le> unat (cfg_max_queue_size (cfg s))"

lemma concat_only_first:
  "qs \<noteq> [] \<Longrightarrow> (\<forall>i. 0 < i \<and> i < length qs \<longrightarrow> qs ! i = []) \<Longrightarrow> concat qs = qs ! 0"
proof (cases qs)
  case (Cons q rest)
  assume "\<forall>i. 0 < i \<and> i < length qs \<longrightarrow> qs ! i = []"
  then have "rest ! j = []" if "j < length rest" for j
    using that Cons by (metis Suc_less_eq length_Cons nth_Cons_Suc zero_less_Suc)
  then have "concat rest = []" by (auto simp: in_set_conv_nth)
  with Cons show ?thesis by simp
qed simp

lemma tmp_fifo_queued: "tmp_fifo_ready s \<Longrightarrow> queued s = queues s ! 0"
  unfolding queued_def by (rule concat_only_first) (auto simp: tmp_fifo_ready_def tmp_wf_def)

lemma tmp_fifo_trips:
  assumes "tmp_fifo_ready s"
  shows "tmp_trips (cfg s) (tasks_in_queue s) \<longleftrightarrow> length (queues s ! 0) = unat (cfg_max_queue_size (cfg s))"
proof -
  let ?n = "length (queues s ! 0)"
  have "?n \<le> unat (cfg_max_queue_size (cfg s))" and t: "tasks_in_queue s = of_nat ?n"
    using assms tmp_fifo_queued [OF assms] by (simp_all add: tmp_fifo_ready_def tmp_wf_def)
  then have "?n < 2 ^ 64" using unat_u64_less [of "cfg_max_queue_size (cfg s)"] by linarith
  then have "unat (of_nat ?n :: u64) = ?n" by (rule unat_of_nat_u64)
  with assms t show ?thesis
    by (auto simp: tmp_trips_def tmp_fifo_ready_def word_le_nat_alt)
qed

lemma tmp_submitted_fifo:
  assumes "tmp_fifo_ready s"
  shows "tmp_submitted t s =
    (if length (queues s ! 0) < unat (cfg_max_queue_size (cfg s))
     then s\<lparr>queues := (queues s)[0 := queues s ! 0 @ [plain t]],
            high_water_mark := max (high_water_mark s) (of_nat (Suc (length (queues s ! 0)))),
            tasks_in_queue := tasks_in_queue s + 1\<rparr>
     else s\<lparr>dropped_count := dropped_count s + 1\<rparr>)"
proof -
  have r: "mode (cfg s) = FIFO" "0 < length (queues s)" "length (queues s ! 0) \<le> unat (cfg_max_queue_size (cfg s))"
    using assms by (auto simp: tmp_fifo_ready_def tmp_wf_def)
  then show ?thesis
    using tmp_fifo_trips [OF assms]
    by (auto simp: tmp_submitted_def tmp_Submit_def tmp_SubmitImpl_def tmp_pick_def tmp_push_def
        tmp_counted_def plain_def Let_def max_def)
qed

lemma tmp_fifo_ready_submitted: "tmp_fifo_ready s \<Longrightarrow> tmp_fifo_ready (tmp_submitted t s)"
proof -
  assume r: "tmp_fifo_ready s"
  then have "0 < length (queues s)" by (simp add: tmp_fifo_ready_def tmp_wf_def)
  with length_queued_update [of 0 s "queues s ! 0 @ [plain t]"]
  have "length (concat ((queues s)[0 := queues s ! 0 @ [plain t]])) = Suc (length (queued s))" by simp
  with r show ?thesis
    by (auto simp: tmp_submitted_fifo tmp_fifo_ready_def tmp_wf_def queued_def)
qed

interpretation fifo_pool: counting_queue
  tmp_submitted "\<lambda>s. map payload (queues s ! 0)" "\<lambda>s. unat (cfg_max_queue_size (cfg s))"
  tmp_fifo_ready dropped_count
proof
  fix s :: "('t, 'r, 'e) tmp" and t
  assume r: "tmp_fifo_ready s"
  then have "0 < length (queues s)" by (simp add: tmp_fifo_ready_def tmp_wf_def)
  then show "map payload (queues (tmp_submitted t s) ! 0) =
      (if length (map payload (queues s ! 0)) < unat (cfg_max_queue_size (cfg s))
       then map payload (queues s ! 0) @ [t] else map payload (queues s ! 0))"
    and "unat (cfg_max_queue_size (cfg (tmp_submitted t s))) = unat (cfg_max_queue_size (cfg s))"
    and "dropped_count (tmp_submitted t s) =
      (if length (map payload (queues s ! 0)) < unat (cfg_max_queue_size (cfg s))
       then dropped_count s else dropped_count s + 1)"
    using r by (simp_all add: tmp_submitted_fifo plain_def)
qed (rule tmp_fifo_ready_submitted)

text \<open>Round robin: after \<open>k\<close> submissions, queue \<open>i\<close> holds every task whose number is \<open>i\<close> modulo the threads.\<close>

definition rr_share :: "nat \<Rightarrow> 't list \<Rightarrow> nat \<Rightarrow> 't list" where
  "rr_share n xs i = map ((!) xs) (filter (\<lambda>k. k mod n = i) [0..<length xs])"

lemma rr_share_snoc:
  "rr_share n (xs @ [x]) i = rr_share n xs i @ (if length xs mod n = i then [x] else [])"
  by (auto simp: rr_share_def nth_append intro!: map_cong)

text \<open>The state after submitting \<open>xs\<close> to a fresh processor in round-robin or work-stealing mode.\<close>

definition rr_state :: "'t list \<Rightarrow> ('t, 'r, 'e) tmp \<Rightarrow> bool" where
  "rr_state xs s \<longleftrightarrow>
     mode (cfg s) \<noteq> FIFO \<and> length (queues s) = num_threads (cfg s) \<and> 0 < num_threads (cfg s) \<and>
     rr_index s = of_nat (length xs) \<and> tasks_in_queue s = of_nat (length xs) \<and>
     (\<forall>i<num_threads (cfg s). map payload (queues s ! i) = rr_share (num_threads (cfg s)) xs i)"

lemma rr_state_new: "mode c \<noteq> FIFO \<Longrightarrow> 0 < num_threads c \<Longrightarrow> rr_state [] (tmp_new c now)"
  by (simp add: rr_state_def tmp_new_def rr_share_def)

lemma rr_state_submitted:
  assumes "rr_state xs s" and "\<not> tmp_trips (cfg s) (of_nat (length xs))" and "length xs < 2 ^ 64"
  shows "rr_state (xs @ [x]) (tmp_submitted x s) \<and> cfg (tmp_submitted x s) = cfg s"
proof -
  let ?n = "num_threads (cfg s)" and ?k = "length xs mod num_threads (cfg s)"
  have r: "mode (cfg s) \<noteq> FIFO" "length (queues s) = ?n" "0 < ?n" "rr_index s = of_nat (length xs)"
    "tasks_in_queue s = of_nat (length xs)"
    and q: "\<And>i. i < ?n \<Longrightarrow> map payload (queues s ! i) = rr_share ?n xs i"
    using assms(1) by (simp_all add: rr_state_def)
  have k: "?k < ?n" "unat (rr_index s) mod ?n = ?k"
    using r(3,4) assms(3) by (simp_all add: unat_of_nat_u64)
  let ?q = "queues s ! ?k @ [plain x]"
  obtain h where s': "tmp_submitted x s =
      s\<lparr>rr_index := rr_index s + 1, queues := (queues s)[?k := ?q], high_water_mark := h,
        tasks_in_queue := tasks_in_queue s + 1\<rparr>"
    using r k assms(2)
    by (auto simp: tmp_submitted_def tmp_Submit_def tmp_SubmitImpl_def tmp_pick_def tmp_push_def
        tmp_counted_def plain_def Let_def)
  have "map payload ((queues s)[?k := ?q] ! i) = rr_share ?n (xs @ [x]) i" if "i < ?n" for i
    using q [OF that] r(2) that k(1)
    by (cases "i = ?k") (simp_all add: rr_share_snoc plain_def)
  with r s' show ?thesis by (simp add: rr_state_def add.commute)
qed

lemma rr_state_burst:
  "rr_state xs s \<Longrightarrow> (\<forall>k<length ys. \<not> tmp_trips (cfg s) (of_nat (length xs + k))) \<Longrightarrow>
   length xs + length ys < 2 ^ 64 \<Longrightarrow> rr_state (xs @ ys) (fold tmp_submitted ys s)"
proof (induction ys arbitrary: xs s)
  case (Cons y ys)
  have "\<not> tmp_trips (cfg s) (of_nat (length xs))" using Cons.prems(2) [rule_format, of 0] by simp
  then have s1: "rr_state (xs @ [y]) (tmp_submitted y s)" "cfg (tmp_submitted y s) = cfg s"
    using rr_state_submitted [OF Cons.prems(1), of y] Cons.prems(3) by simp_all
  have "\<not> tmp_trips (cfg s) (of_nat (length (xs @ [y]) + k))" if "k < length ys" for k
    using Cons.prems(2) [rule_format, of "Suc k"] that by simp
  with Cons.IH [OF s1(1)] s1(2) Cons.prems(3) show ?case by simp
qed simp

lemma not_trips_below:
  "unat x < unat (cfg_max_queue_size c) \<Longrightarrow> \<not> tmp_trips c x"
  by (simp add: tmp_trips_def word_le_nat_alt)

lemma tmp_jitter_bound:
  assumes "0 \<le> backoff_duration c" and "0 \<le> jitter_fraction c" and "jitter_fraction c \<le> 1"
  shows "0 \<le> tmp_jitter c \<and> tmp_jitter c \<le> backoff_duration c"
proof -
  let ?x = "of_int (backoff_duration c) * jitter_fraction c"
  have "0 \<le> ?x" using assms by simp
  moreover have "?x \<le> of_int (backoff_duration c) * 1"
    by (rule mult_left_mono) (use assms in simp_all)
  ultimately show ?thesis by (simp add: tmp_jitter_def Let_def floor_le_iff)
qed

lemma tmp_SubmitWithResult_enqueues:
  assumes "tmp_wf s" and "\<not> tmp_trips (cfg s) (tasks_in_queue s)"
  shows "\<exists>s'. tmp_SubmitImpl item ws (s\<lparr>promises := P\<rparr>) = Inr s' \<and> promises s' = P \<and>
    mset (queued s') = add_mset \<lparr>payload = item, wrappers = ws\<rparr> (mset (queued s))"
proof -
  let ?s = "s\<lparr>promises := P\<rparr>" and ?ti = "\<lparr>payload = item, wrappers = ws\<rparr>"
  have "tmp_wf ?s" using assms(1) by (simp add: tmp_wf_def queued_def)
  from tmp_SubmitImpl_accepts [OF this, of item ws] assms(2) obtain idx r h where
    i: "idx < length (queues s)" and
    e: "tmp_SubmitImpl item ws ?s =
      Inr (?s\<lparr>rr_index := r, queues := (queues s)[idx := queues s ! idx @ [?ti]],
             high_water_mark := h, tasks_in_queue := tasks_in_queue s + 1\<rparr>)" by auto
  have "mset (concat ((queues s)[idx := queues s ! idx @ [?ti]])) = add_mset ?ti (mset (queued s))"
    using mset_concat_update [OF i, of "queues s ! idx @ [?ti]"] by (simp add: queued_def)
  with e show ?thesis by (simp add: queued_def)
qed

lemma promises_fold_run_wrapper:
  "tokens s = tokens s' \<Longrightarrow> promises s = promises s' \<Longrightarrow>
     promises (fold (run_wrapper t) ws s) = promises (fold (run_wrapper t) ws s')"
proof (induction ws arbitrary: s s')
  case (Cons w ws)
  then show ?case by (cases w) (auto intro!: Cons.IH split: option.splits)
qed simp

lemma tmp_run_promises:
  "promises (tmp_run ti s) = promises (fold (run_wrapper (payload ti)) (wrappers ti) s)"
  unfolding tmp_run_def Let_def by (rule promises_fold_run_wrapper) simp_all

subsection \<open>Properties\<close>


lemma tmp_fifo_ready_new:
  "mode c = FIFO \<Longrightarrow> 0 < num_threads c \<Longrightarrow> enable_circuit_breaker c \<Longrightarrow> cfg_max_queue_size c \<noteq> 0 \<Longrightarrow>
     tmp_fifo_ready (tmp_new c now)"
  using tmp_wf_new [of c now] by (simp add: tmp_fifo_ready_def) (simp add: tmp_new_def)


text \<open>
  Round-robin and work-stealing submission deals the tasks out like cards: starting from a fresh
  processor, the \<open>k\<close>-th accepted task goes to queue \<open>k mod num_threads\<close>, each queue in submission order.
\<close>

theorem tmp_round_robin:
  fixes s :: "('t, 'r, 'e) tmp"
  assumes "mode c \<noteq> FIFO" and "i < num_threads c" and "length xs < 2 ^ 64"
    and "\<forall>k<length xs. \<not> tmp_trips c (of_nat k)" and s: "s = tmp_new c now"
  shows "map payload (queues (fold tmp_submitted xs s) ! i) =
    map ((!) xs) (filter (\<lambda>k. k mod num_threads c = i) [0..<length xs])"
proof -
  have "rr_state [] s" using rr_state_new [OF assms(1)] assms(2) unfolding s by simp
  then have "rr_state xs (fold tmp_submitted xs s)"
    using rr_state_burst [of "[]" s xs] assms(3,4) by (simp add: s)
  with assms(2) show ?thesis by (simp add: rr_state_def rr_share_def s)
qed

theorem tmp_round_robin_witness:
  "map payload (queues (fold tmp_submitted ''abcde''
     (tmp_new ((tmp_config_default 2)\<lparr>mode := RoundRobin\<rparr>) 0 :: (char, unit, unit) tmp)) ! 1) = ''bd''"
proof -
  let ?c = "(tmp_config_default 2)\<lparr>mode := RoundRobin\<rparr>"
  have "\<not> tmp_trips ?c (of_nat k)" if "k < length ''abcde''" for k
    using that by (intro not_trips_below) (simp add: unat_of_nat_u64 tmp_config_default_def)
  then have trips: "\<forall>k<length ''abcde''. \<not> tmp_trips ?c (of_nat k)" by blast
  have c: "mode ?c \<noteq> FIFO" "1 < num_threads ?c" "length ''abcde'' < 2 ^ 64"
    by (simp_all add: tmp_config_default_def)
  have "map payload (queues (fold tmp_submitted ''abcde'' (tmp_new ?c 0 :: (char, unit, unit) tmp)) ! 1) =
      map ((!) ''abcde'') (filter (\<lambda>k. k mod num_threads ?c = 1) [0..<length ''abcde''])"
    by (rule tmp_round_robin [OF c trips refl])
  also have "\<dots> = ''bd''" unfolding tmp_config_default_def by code_simp
  finally show ?thesis .
qed

text \<open>
  Work stealing finds work: with the default policy, a worker whose own queue is empty takes,
  whenever any task is queued, the newest task of a longest queue.
\<close>

theorem tmp_stealing_finds_work:
  assumes "tmp_wf s" and "steal_policy s = DefaultStealPolicy" and "mode (cfg s) = WorkStealing"
    and "w < length (queues s)" and "queues s ! w = []" and "queued s \<noteq> []"
  shows "\<exists>v ti s'. v < length (queues s) \<and> (\<forall>j<length (queues s). length (queues s ! j) \<le> length (queues s ! v)) \<and>
    tmp_take w s = Inr (Some ti, s') \<and> queues s ! v = queues s' ! v @ [ti] \<and>
    (\<forall>j. j = v \<or> queues s' ! j = queues s ! j) \<and> stolen_count s' = stolen_count s + 1"
proof -
  from tmp_steal_longest [OF assms] obtain v where v: "v < length (queues s)" "queues s ! v \<noteq> []"
    "\<forall>j<length (queues s). length (queues s ! j) \<le> length (queues s ! v)"
    "tmp_take w s = Inr (Some (last (queues s ! v)),
      s\<lparr>queues := (queues s)[v := butlast (queues s ! v)], stolen_count := stolen_count s + 1\<rparr>)" by blast
  moreover have "\<forall>j. j = v \<or> (queues s)[v := butlast (queues s ! v)] ! j = queues s ! j"
    by (metis nth_list_update_neq)
  ultimately show ?thesis by (intro exI [of _ v] exI [of _ "last (queues s ! v)"]) simp
qed

definition steal_demo :: "(char, unit, unit) tmp" where
  "steal_demo = (tmp_new ((tmp_config_default 3)\<lparr>mode := WorkStealing\<rparr>) 0)
     \<lparr>queues := [[plain CHR ''a''], [plain CHR ''b'', plain CHR ''c''], []], tasks_in_queue := 3\<rparr>"

theorem tmp_stealing_finds_work_witness:
  "\<exists>ti s'. tmp_take 2 steal_demo = Inr (Some ti, s') \<and> stolen_count s' = 1"
proof -
  have "tmp_wf steal_demo"
    by (simp add: steal_demo_def tmp_wf_def queued_def tmp_new_def tmp_config_default_def)
  from tmp_stealing_finds_work [OF this, of 2] show ?thesis
    by (auto simp: steal_demo_def queued_def tmp_new_def tmp_config_default_def)
qed

text \<open>
  In FIFO mode every task goes to queue 0 and only worker 0 can take it: a turn of any other
  worker executes nothing, whatever is queued. A turn of worker 0 executes the oldest task: it runs
  every registered callback on it once, in order, and counts it.
\<close>

theorem tmp_fifo_turns:
  assumes "tmp_fifo_ready s" and "w < length (queues s)"
  shows "\<exists>s'. tmp_turn w now s = Inr s' \<and>
    (case (w, queues s ! 0) of
       (0, ti # rest) \<Rightarrow>
         executed s' = executed s @ [ti] \<and> queues s' ! 0 = rest \<and> tasks_in_queue s' = tasks_in_queue s - 1 \<and>
         processed_count s' = processed_count s + 1 \<and>
         callback_calls s' = callback_calls s @ map (\<lambda>g. (g, payload ti)) [0..<global_callbacks s]
     | _ \<Rightarrow> executed s' = executed s \<and> queues s' = queues s \<and> callback_calls s' = callback_calls s)"
proof -
  have m: "mode (cfg s) \<noteq> WorkStealing" and e: "0 < w \<Longrightarrow> queues s ! w = []"
    using assms by (auto simp: tmp_fifo_ready_def)
  show ?thesis
  proof (cases "queues s ! w")
    case Nil
    with m assms(2) show ?thesis
      by (cases w) (simp_all add: tmp_turn_def tmp_take_own_empty)
  next
    case (Cons ti rest)
    with e have w: "w = 0" by (cases w) auto
    with Cons assms(2) show ?thesis
      by (simp add: tmp_turn_def tmp_take_own tmp_uncounted_def)
  qed
qed

theorem tmp_fifo_turns_witness:
  "\<exists>s'. tmp_turn 1 5 (fold tmp_submitted ''ab'' (tmp_new (tmp_config_default 2) 0 :: (char, unit, unit) tmp)) = Inr s' \<and>
     executed s' = executed (fold tmp_submitted ''ab'' (tmp_new (tmp_config_default 2) 0 :: (char, unit, unit) tmp))"
proof -
  let ?n = "tmp_new (tmp_config_default 2) 0 :: (char, unit, unit) tmp"
  have n: "tmp_fifo_ready ?n" by (rule tmp_fifo_ready_new) (simp_all add: tmp_config_default_def)
  then have r: "tmp_fifo_ready (fold tmp_submitted ''ab'' ?n)" by (rule fifo_pool.ready_burst)
  have "1 < length (queues (fold tmp_submitted ''ab'' ?n))"
    using r by (simp add: tmp_fifo_ready_def tmp_wf_def tmp_config_default_def)
  from tmp_fifo_turns [OF r this, of 5] show ?thesis by auto
qed

text \<open>
  Futures. \<^verbatim>\<open>SubmitWithResult\<close> either enqueues one task that, whenever it is executed, resolves
  this promise - and no other - with the function's value or exception, or, when the breaker trips,
  drops the task: then nothing will ever resolve the promise (its future reports a broken promise).
\<close>

theorem tmp_future_resolves:
  assumes "tmp_wf s"
  shows "\<exists>s'. tmp_SubmitWithResult item fn p s = Inr s' \<and> promises s' = (promises s)(p := Pending) \<and>
    (if tmp_trips (cfg s) (tasks_in_queue s)
     then queued s' = queued s \<and> dropped_count s' = dropped_count s + 1
     else \<exists>ti. mset (queued s') = add_mset ti (mset (queued s)) \<and> payload ti = item \<and>
       (\<forall>s2. promises (tmp_run ti s2) =
          (promises s2)(p := (case fn item of Inr r \<Rightarrow> Value r | Inl e \<Rightarrow> Exception (UserExn e)))))"
proof (cases "tmp_trips (cfg s) (tasks_in_queue s)")
  case True
  then show ?thesis by (simp add: tmp_SubmitWithResult_def tmp_SubmitImpl_drops queued_def)
next
  case False
  from tmp_SubmitWithResult_enqueues [OF assms this, of item "[ResultW fn p]" "(promises s)(p := Pending)"] False
  show ?thesis
    by (auto simp: tmp_SubmitWithResult_def tmp_run_promises
        intro!: exI [of _ "\<lparr>payload = item, wrappers = [ResultW fn p]\<rparr>"])
qed

theorem tmp_future_resolves_witness:
  "\<exists>s'. tmp_SubmitWithResult (3 :: nat) (\<lambda>n. Inr (n + 1)) 7
      (tmp_new (tmp_config_default 2) 0 :: (nat, nat, unit) tmp) = Inr s' \<and> promises s' 7 = Pending"
proof -
  let ?s = "tmp_new (tmp_config_default 2) 0 :: (nat, nat, unit) tmp"
  have "tmp_wf ?s" by (rule tmp_wf_new) (simp add: tmp_config_default_def)
  from tmp_future_resolves [OF this, of 3 "\<lambda>n. Inr (n + 1)" 7] show ?thesis
    by (elim exE conjE) (rule exI, erule conjI, simp)
qed

text \<open>
  Cancellation. With a token already set, the promise is resolved at once with the cancellation
  error and nothing is enqueued; a token set between submission and execution makes the execution
  resolve the promise with the cancellation error instead of calling the function.
\<close>

theorem tmp_future_cancels:
  assumes "tmp_wf s"
  shows "(tokens s k \<longrightarrow>
      tmp_SubmitWithResultToken item fn (Some k) p s =
        Inr (s\<lparr>promises := (promises s)(p := Exception (RuntimeError ''Task canceled before enqueue''))\<rparr>)) \<and>
    (\<not> tokens s k \<and> \<not> tmp_trips (cfg s) (tasks_in_queue s) \<longrightarrow>
      (\<exists>s' ti. tmp_SubmitWithResultToken item fn (Some k) p s = Inr s' \<and>
         mset (queued s') = add_mset ti (mset (queued s)) \<and>
         (\<forall>s2. promises (tmp_run ti s2) p =
            (if tokens s2 k then Exception (RuntimeError ''Task canceled before execution'')
             else case fn item of Inr r \<Rightarrow> Value r | Inl e \<Rightarrow> Exception (UserExn e)))))"
proof -
  have "\<exists>s' ti. tmp_SubmitWithResultToken item fn (Some k) p s = Inr s' \<and>
         mset (queued s') = add_mset ti (mset (queued s)) \<and>
         (\<forall>s2. promises (tmp_run ti s2) p =
            (if tokens s2 k then Exception (RuntimeError ''Task canceled before execution'')
             else case fn item of Inr r \<Rightarrow> Value r | Inl e \<Rightarrow> Exception (UserExn e)))"
    if "\<not> tokens s k" "\<not> tmp_trips (cfg s) (tasks_in_queue s)"
    using tmp_SubmitWithResult_enqueues [OF assms that(2), of item "[CancelW fn p (Some k)]" "(promises s)(p := Pending)"] that(1)
    by (auto simp: tmp_SubmitWithResultToken_def tmp_run_promises)
  then show ?thesis by (simp add: tmp_SubmitWithResultToken_def)
qed

theorem tmp_future_cancels_witness:
  "tmp_SubmitWithResultToken (3 :: nat) (\<lambda>n. Inr (n + 1)) (Some 1) 7
     ((tmp_new (tmp_config_default 2) 0)\<lparr>tokens := \<lambda>_. True\<rparr> :: (nat, nat, unit) tmp) =
   Inr ((tmp_new (tmp_config_default 2) 0)\<lparr>tokens := \<lambda>_. True,
     promises := (\<lambda>_. Pending)(7 := Exception (RuntimeError ''Task canceled before enqueue''))\<rparr>)"
proof -
  let ?s = "(tmp_new (tmp_config_default 2) 0)\<lparr>tokens := \<lambda>_. True\<rparr> :: (nat, nat, unit) tmp"
  have "tmp_wf ?s" by (simp add: tmp_wf_def queued_def tmp_new_def tmp_config_default_def)
  from tmp_future_cancels [OF this, THEN conjunct1, of 1] show ?thesis by (simp add: tmp_new_def)
qed

text \<open>
  Drops inside the notification interval are lost: a turn that finds drops before the interval
  since the last report has passed resets the count without a report, and no later turn, however
  late, reports them.
\<close>

theorem tmp_drops_lost:
  assumes "now - last_drop_notification s < drop_notification_interval (cfg s)"
  shows "notified (fold tmp_HandleDrops later (tmp_HandleDrops now s)) = notified s \<and>
    dropped_count (fold tmp_HandleDrops later (tmp_HandleDrops now s)) = 0"
proof -
  have "notified (fold tmp_HandleDrops later t) = notified t \<and> dropped_count (fold tmp_HandleDrops later t) = 0"
    if "dropped_count t = 0" for t :: "('a, 'b, 'c) tmp"
    using that by (induction later arbitrary: t) (simp_all add: tmp_HandleDrops_def Let_def)
  from this [of "tmp_HandleDrops now s"] assms show ?thesis
    by (simp add: tmp_HandleDrops_def Let_def)
qed

theorem tmp_drops_lost_witness:
  "notified (fold tmp_HandleDrops [5000, 9000] (tmp_HandleDrops 10
     ((tmp_new (tmp_config_default 2) 0 :: (char, unit, unit) tmp)\<lparr>dropped_count := 4\<rparr>))) = []"
  using tmp_drops_lost [of 10 "(tmp_new (tmp_config_default 2) 0 :: (char, unit, unit) tmp)\<lparr>dropped_count := 4\<rparr>" "[5000, 9000]"]
  by (simp add: tmp_new_def tmp_config_default_def)

text \<open>
  \<^verbatim>\<open>SubmitWithTimeout\<close> answers false only for an expired deadline or a cancelled token; a task that the
  circuit breaker drops is reported as submitted.
\<close>

lemma tmp_timeout_outcomes:
  assumes "tmp_wf s"
  shows "\<exists>ok s'. tmp_SubmitWithTimeout item deadline token now s = Inr (ok, s') \<and>
    (ok \<longleftrightarrow> now < deadline \<and> (case token of Some k \<Rightarrow> \<not> tokens s k | None \<Rightarrow> True)) \<and>
    (\<not> ok \<longrightarrow> s' = s) \<and>
    (ok \<and> tmp_trips (cfg s) (tasks_in_queue s) \<longrightarrow> s' = s\<lparr>dropped_count := dropped_count s + 1\<rparr>)"
proof -
  obtain s1 where s1: "tmp_SubmitImpl item [] s = Inr s1"
    and "tmp_trips (cfg s) (tasks_in_queue s) \<longrightarrow> s1 = s\<lparr>dropped_count := dropped_count s + 1\<rparr>"
    using tmp_SubmitImpl_accepts [OF assms, of item "[]"]
    by (cases "tmp_trips (cfg s) (tasks_in_queue s)") (auto simp: tmp_SubmitImpl_def)
  then show ?thesis by (auto simp: tmp_SubmitWithTimeout_def split: option.splits)
qed

text \<open>
  Backoff. With a jitter fraction between 0 and 1 and a draw from the jitter interval, a submitter
  above the threshold sleeps between 0 and twice the configured duration, and below it not at all.
\<close>

theorem tmp_backoff_bounds:
  assumes "0 \<le> backoff_duration c" and "0 \<le> jitter_fraction c" and "jitter_fraction c \<le> 1"
    and "- tmp_jitter c \<le> draw" and "draw \<le> tmp_jitter c"
  shows "0 \<le> tmp_backoff c cur draw \<and> tmp_backoff c cur draw \<le> 2 * backoff_duration c \<and>
    (cur < backpressure_threshold c \<longrightarrow> tmp_backoff c cur draw = 0)"
  using tmp_jitter_bound [OF assms(1-3)] assms(1,4,5)
  by (auto simp: tmp_backoff_def Let_def)

theorem tmp_backoff_bounds_witness:
  "tmp_backoff (tmp_config_default 4) 6000 1 \<le> 20"
  using tmp_backoff_bounds [of "tmp_config_default 4" 1 6000]
  by (simp add: tmp_config_default_def tmp_jitter_def)

end
