(* ===== verification/Task_Concurrency.thy ===== *)
theory Task_Concurrency
  imports Task_Multi_Processor
begin

text \<open>
  \<^verbatim>\<open>src/src/vectro/pool/task_multi_processor.h\<close> under concurrency: submitting threads, the workers and
  the destructor, interleaved at every atomic access and every critical section. The steps are the
  pieces of \<^verbatim>\<open>SubmitImpl\<close>, \<^verbatim>\<open>ProcessLoop\<close> and \<^verbatim>\<open>~TaskMultiProcessor\<close> of the theory
  \<open>Task_Multi_Processor\<close>; a program counter per thread says which piece comes next.

  \<^verbatim>\<open>mutex_\<close> is held by a worker between its test of the wait condition and \<^verbatim>\<open>cv_.Wait\<close>
  (\<open>WTest\<close>, \<open>WBlock\<close>) and by a submitter while it signals; the destructor signals without it. Atomic
  operations are sequentially consistent, the source's default ordering. The \<open>compare_exchange\<close> loop of
  the high-water mark runs inside the queue's lock and is part of its critical section. \<open>spurious\<close> says
  whether \<^verbatim>\<open>cv_.Wait\<close> may return without a signal. \<open>pushed\<close> records the tasks in the order of their
  critical sections.
\<close>

datatype ('t, 'r, 'e) sub_pc =
    SIdle
  | SDrop
  | SChosen "('t, 'r, 'e) task_item"
  | SPush nat "('t, 'r, 'e) task_item"
  | SCount
  | SSignal

datatype ('t, 'r, 'e) wrk_pc =
    WLoop
  | WTest
  | WBlock
  | WSleep
  | WWoken
  | WPop
  | WVictim
  | WSteal nat
  | WHold "('t, 'r, 'e) task_item"
  | WRun "('t, 'r, 'e) task_item"
  | WDrops
  | WDone

datatype dtor_pc = DNone | DStored | DDrain | DJoin | DDone

record ('t, 'r, 'e) pool =
  shared :: "('t, 'r, 'e) tmp"
  subs :: "('t, 'r, 'e) sub_pc list"
  wrks :: "('t, 'r, 'e) wrk_pc list"
  dtor :: dtor_pc
  pushed :: "('t, 'r, 'e) task_item list"

definition pool_start :: "tmp_config \<Rightarrow> int \<Rightarrow> nat \<Rightarrow> ('t, 'r, 'e) pool" where
  "pool_start c now submitters =
     \<lparr>shared = tmp_new c now, subs = replicate submitters SIdle, wrks = replicate (num_threads c) WLoop,
      dtor = DNone, pushed = []\<rparr>"

definition mutex_free :: "('t, 'r, 'e) pool \<Rightarrow> bool" where
  "mutex_free s \<longleftrightarrow> WTest \<notin> set (wrks s) \<and> WBlock \<notin> set (wrks s)"

fun wake :: "('t, 'r, 'e) wrk_pc \<Rightarrow> ('t, 'r, 'e) wrk_pc" where
  "wake WSleep = WWoken"
| "wake pc = pc"

text \<open>\<^verbatim>\<open>cv_.SignalAll()\<close>\<close>

definition signal_all :: "('t, 'r, 'e) pool \<Rightarrow> ('t, 'r, 'e) pool" where
  "signal_all s = s\<lparr>wrks := map wake (wrks s)\<rparr>"

definition set_sub :: "nat \<Rightarrow> ('t, 'r, 'e) sub_pc \<Rightarrow> ('t, 'r, 'e) pool \<Rightarrow> ('t, 'r, 'e) pool" where
  "set_sub i pc s = s\<lparr>subs := (subs s)[i := pc]\<rparr>"

definition set_wrk :: "nat \<Rightarrow> ('t, 'r, 'e) wrk_pc \<Rightarrow> ('t, 'r, 'e) pool \<Rightarrow> ('t, 'r, 'e) pool" where
  "set_wrk i pc s = s\<lparr>wrks := (wrks s)[i := pc]\<rparr>"

definition at_sub :: "('t, 'r, 'e) pool \<Rightarrow> nat \<Rightarrow> ('t, 'r, 'e) sub_pc \<Rightarrow> bool" where
  "at_sub s i pc \<longleftrightarrow> i < length (subs s) \<and> subs s ! i = pc"

definition at_wrk :: "('t, 'r, 'e) pool \<Rightarrow> nat \<Rightarrow> ('t, 'r, 'e) wrk_pc \<Rightarrow> bool" where
  "at_wrk s i pc \<longleftrightarrow> i < length (wrks s) \<and> wrks s ! i = pc"

text \<open>The submitting threads: \<^verbatim>\<open>SubmitImpl\<close>.\<close>

inductive sub_step :: "('t, 'r, 'e) pool \<Rightarrow> ('t, 'r, 'e) pool \<Rightarrow> bool" where
  sub_load: "at_sub s i SIdle \<Longrightarrow>
    sub_step s (set_sub i (if tmp_trips (cfg (shared s)) (tasks_in_queue (shared s)) then SDrop else SChosen ti) s)"
| sub_drop: "at_sub s i SDrop \<Longrightarrow>
    sub_step s (set_sub i SIdle (s\<lparr>shared := (shared s)\<lparr>dropped_count := dropped_count (shared s) + 1\<rparr>\<rparr>))"
| sub_pick: "at_sub s i (SChosen ti) \<Longrightarrow> tmp_pick (shared s) = Inr (idx, sh) \<Longrightarrow>
    sub_step s (set_sub i (SPush idx ti) (s\<lparr>shared := sh\<rparr>))"
| sub_push: "at_sub s i (SPush idx ti) \<Longrightarrow> tmp_push idx ti (shared s) = Inr sh \<Longrightarrow>
    sub_step s (set_sub i SCount (s\<lparr>shared := sh, pushed := pushed s @ [ti]\<rparr>))"
| sub_count: "at_sub s i SCount \<Longrightarrow> sub_step s (set_sub i SSignal (s\<lparr>shared := tmp_counted (shared s)\<rparr>))"
| sub_signal: "at_sub s i SSignal \<Longrightarrow> mutex_free s \<Longrightarrow> sub_step s (set_sub i SIdle (signal_all s))"

text \<open>The workers: \<^verbatim>\<open>ProcessLoop\<close>.\<close>

inductive wrk_step :: "bool \<Rightarrow> ('t, 'r, 'e) pool \<Rightarrow> ('t, 'r, 'e) pool \<Rightarrow> bool" for spurious :: bool where
  wrk_loop: "at_wrk s i WLoop \<Longrightarrow> running (shared s) \<Longrightarrow> mutex_free s \<Longrightarrow> wrk_step spurious s (set_wrk i WTest s)"
| wrk_exit: "at_wrk s i WLoop \<Longrightarrow> \<not> running (shared s) \<Longrightarrow>
    wrk_step spurious s
      (set_wrk i WDone (s\<lparr>shared := (shared s)\<lparr>active_workers := active_workers (shared s) - 1, stopped := True\<rparr>\<rparr>))"
| wrk_test: "at_wrk s i WTest \<Longrightarrow>
    wrk_step spurious s
      (set_wrk i (if running (shared s) \<and> tasks_in_queue (shared s) = 0 then WBlock else WPop) s)"
| wrk_wait: "at_wrk s i WBlock \<Longrightarrow> wrk_step spurious s (set_wrk i WSleep s)"
| wrk_spurious: "at_wrk s i WSleep \<Longrightarrow> spurious \<Longrightarrow> wrk_step spurious s (set_wrk i WWoken s)"
| wrk_woken: "at_wrk s i WWoken \<Longrightarrow> mutex_free s \<Longrightarrow> wrk_step spurious s (set_wrk i WTest s)"
| wrk_own: "at_wrk s i WPop \<Longrightarrow> tmp_own i (shared s) = Inr (Some ti, sh) \<Longrightarrow>
    wrk_step spurious s (set_wrk i (WHold ti) (s\<lparr>shared := sh\<rparr>))"
| wrk_none: "at_wrk s i WPop \<Longrightarrow> tmp_own i (shared s) = Inr (None, sh) \<Longrightarrow>
    wrk_step spurious s
      (set_wrk i (if mode (cfg (shared s)) = WorkStealing then WVictim else WDrops) (s\<lparr>shared := sh\<rparr>))"
| wrk_victim: "at_wrk s i WVictim \<Longrightarrow> tmp_victim (shared s) = Inr vic \<Longrightarrow>
    wrk_step spurious s (set_wrk i (WSteal vic) s)"
| wrk_steal: "at_wrk s i (WSteal vic) \<Longrightarrow> tmp_steal vic (shared s) = Inr (Some ti, sh) \<Longrightarrow>
    wrk_step spurious s (set_wrk i (WHold ti) (s\<lparr>shared := sh\<rparr>))"
| wrk_no_steal: "at_wrk s i (WSteal vic) \<Longrightarrow> tmp_steal vic (shared s) = Inr (None, sh) \<Longrightarrow>
    wrk_step spurious s (set_wrk i WDrops (s\<lparr>shared := sh\<rparr>))"
| wrk_uncount: "at_wrk s i (WHold ti) \<Longrightarrow>
    wrk_step spurious s (set_wrk i (WRun ti) (s\<lparr>shared := tmp_uncounted (shared s)\<rparr>))"
| wrk_run: "at_wrk s i (WRun ti) \<Longrightarrow>
    wrk_step spurious s (set_wrk i WDrops (s\<lparr>shared := tmp_run ti (shared s)\<rparr>))"
| wrk_drops: "at_wrk s i WDrops \<Longrightarrow>
    wrk_step spurious s (set_wrk i WLoop (s\<lparr>shared := tmp_HandleDrops now (shared s)\<rparr>))"

text \<open>
  The destructor. The drain loop ends when the counter is zero or the timeout has passed; time is not
  modelled, so it may end at any moment.
\<close>

inductive dtor_step :: "('t, 'r, 'e) pool \<Rightarrow> ('t, 'r, 'e) pool \<Rightarrow> bool" where
  dtor_store: "dtor s = DNone \<Longrightarrow> dtor_step s (s\<lparr>dtor := DStored, shared := (shared s)\<lparr>running := False\<rparr>\<rparr>)"
| dtor_signal: "dtor s = DStored \<Longrightarrow> dtor_step s ((signal_all s)\<lparr>dtor := DDrain\<rparr>)"
| dtor_drain: "dtor s = DDrain \<Longrightarrow> dtor_step s (s\<lparr>dtor := DJoin\<rparr>)"
| dtor_join: "dtor s = DJoin \<Longrightarrow> set (wrks s) \<subseteq> {WDone} \<Longrightarrow> active_workers (shared s) = 0 \<Longrightarrow>
    dtor_step s (s\<lparr>dtor := DDone, shared := (shared s)\<lparr>stopped := True\<rparr>\<rparr>)"

definition pool_step :: "bool \<Rightarrow> ('t, 'r, 'e) pool \<Rightarrow> ('t, 'r, 'e) pool \<Rightarrow> bool" where
  "pool_step spurious s t \<longleftrightarrow> sub_step s t \<or> wrk_step spurious s t \<or> dtor_step s t"

lemmas pool_defs = set_sub_def set_wrk_def at_sub_def at_wrk_def signal_all_def

lemma pool_step_cases [consumes 1, case_names sub wrk dtor]:
  "pool_step spurious s t \<Longrightarrow> (sub_step s t \<Longrightarrow> P) \<Longrightarrow> (wrk_step spurious s t \<Longrightarrow> P) \<Longrightarrow> (dtor_step s t \<Longrightarrow> P) \<Longrightarrow> P"
  by (auto simp: pool_step_def)

subsection \<open>What is in the hands of the threads\<close>

fun hand :: "('t, 'r, 'e) wrk_pc \<Rightarrow> ('t, 'r, 'e) task_item list" where
  "hand (WHold ti) = [ti]"
| "hand (WRun ti) = [ti]"
| "hand _ = []"

definition in_hand :: "('t, 'r, 'e) pool \<Rightarrow> ('t, 'r, 'e) task_item list" where
  "in_hand s = concat (map hand (wrks s))"

fun is_hold :: "('t, 'r, 'e) wrk_pc \<Rightarrow> nat" where
  "is_hold (WHold ti) = 1"
| "is_hold _ = 0"

fun is_count :: "('t, 'r, 'e) sub_pc \<Rightarrow> nat" where
  "is_count SCount = 1"
| "is_count _ = 0"

text \<open>Tasks in a queue and not yet counted; tasks out of their queue and still counted.\<close>

definition uncounted :: "('t, 'r, 'e) pool \<Rightarrow> nat" where
  "uncounted s = sum_list (map is_count (subs s))"

definition overcounted :: "('t, 'r, 'e) pool \<Rightarrow> nat" where
  "overcounted s = sum_list (map is_hold (wrks s))"

lemma hand_wake [simp]: "hand (wake pc) = hand pc" "is_hold (wake pc) = is_hold pc"
  by (cases pc; simp)+

lemma sum_list_set_nth:
  "i < length xs \<Longrightarrow> sum_list (map f (xs[i := x])) + f (xs ! i) = sum_list (map f xs) + (f x :: nat)"
  by (induction xs arbitrary: i) (auto split: nat.splits)

lemma overcounted_set:
  "i < length (wrks s) \<Longrightarrow> sum_list (map is_hold ((wrks s)[i := pc])) + is_hold (wrks s ! i) = overcounted s + is_hold pc"
  unfolding overcounted_def by (rule sum_list_set_nth)

lemma uncounted_set:
  "i < length (subs s) \<Longrightarrow> sum_list (map is_count ((subs s)[i := pc])) + is_count (subs s ! i) = uncounted s + is_count pc"
  unfolding uncounted_def by (rule sum_list_set_nth)

lemma in_hand_set:
  "i < length (wrks s) \<Longrightarrow>
     mset (concat (map hand ((wrks s)[i := pc]))) + mset (hand (wrks s ! i)) = mset (in_hand s) + mset (hand pc)"
  using mset_concat_update [of i "map hand (wrks s)" "hand pc"] by (simp add: map_update in_hand_def)

lemma wake_all_fields [simp]:
  "map hand (map wake pcs) = map hand pcs" "map is_hold (map wake pcs) = map is_hold pcs"
  by (simp_all add: comp_def)

subsection \<open>What the pieces do to the queues\<close>

lemma tmp_pick_effect:
  "tmp_pick sh = Inr (idx, sh') \<Longrightarrow>
     queues sh' = queues sh \<and> tasks_in_queue sh' = tasks_in_queue sh \<and> executed sh' = executed sh \<and> cfg sh' = cfg sh"
  by (auto simp: tmp_pick_def split: if_splits)

lemma tmp_push_effect:
  assumes "tmp_push idx ti sh = Inr sh'"
  shows "idx < length (queues sh) \<and> queues sh' = (queues sh)[idx := queues sh ! idx @ [ti]] \<and>
    tasks_in_queue sh' = tasks_in_queue sh \<and> executed sh' = executed sh \<and> cfg sh' = cfg sh \<and>
    mset (queued sh') = add_mset ti (mset (queued sh)) \<and> length (queued sh') = Suc (length (queued sh))"
proof -
  have i: "idx < length (queues sh)" and q: "queues sh' = (queues sh)[idx := queues sh ! idx @ [ti]]"
    and r: "tasks_in_queue sh' = tasks_in_queue sh" "executed sh' = executed sh" "cfg sh' = cfg sh"
    using assms by (auto simp: tmp_push_def Let_def split: if_splits)
  have "mset (queued sh') = add_mset ti (mset (queued sh))"
    using mset_concat_update [OF i, of "queues sh ! idx @ [ti]"] by (simp add: queued_def q)
  moreover from this have "length (queued sh') = Suc (length (queued sh))"
    by (metis size_add_mset size_mset)
  ultimately show ?thesis using i q r by simp
qed

lemma taken_effect:
  assumes "i < length (queues sh)" and "mset (queues sh ! i) = add_mset ti (mset q)"
    and "queues sh' = (queues sh)[i := q]"
  shows "mset (queued sh) = add_mset ti (mset (queued sh')) \<and> length (queued sh) = Suc (length (queued sh'))"
proof -
  have "mset (queued sh) = add_mset ti (mset (queued sh'))"
    using mset_concat_update [OF assms(1), of q] assms(2,3) by (simp add: queued_def)
  moreover from this have "length (queued sh) = Suc (length (queued sh'))"
    by (metis size_add_mset size_mset)
  ultimately show ?thesis by simp
qed

lemma tmp_own_effect:
  assumes "tmp_own i sh = Inr (Some ti, sh')"
  shows "mset (queued sh) = add_mset ti (mset (queued sh')) \<and> length (queued sh) = Suc (length (queued sh')) \<and>
    tasks_in_queue sh' = tasks_in_queue sh \<and> executed sh' = executed sh \<and> cfg sh' = cfg sh \<and>
    length (queues sh') = length (queues sh) \<and> running sh' = running sh"
proof -
  obtain rest where i: "i < length (queues sh)" and q: "queues sh ! i = ti # rest"
    and s: "sh' = sh\<lparr>queues := (queues sh)[i := rest]\<rparr>"
    using assms by (auto simp: tmp_own_def split: if_splits list.splits)
  show ?thesis using taken_effect [OF i, of ti rest sh'] q by (simp add: s)
qed

lemma tmp_own_none: "tmp_own i sh = Inr (None, sh') \<Longrightarrow> sh' = sh"
  by (auto simp: tmp_own_def split: if_splits list.splits)

lemma tmp_steal_effect:
  assumes "tmp_steal vic sh = Inr (Some ti, sh')"
  shows "mset (queued sh) = add_mset ti (mset (queued sh')) \<and> length (queued sh) = Suc (length (queued sh')) \<and>
    tasks_in_queue sh' = tasks_in_queue sh \<and> executed sh' = executed sh \<and> cfg sh' = cfg sh \<and>
    length (queues sh') = length (queues sh) \<and> running sh' = running sh"
proof -
  have i: "vic < length (queues sh)" and ne: "queues sh ! vic \<noteq> []" and ti: "ti = last (queues sh ! vic)"
    and s: "sh' = sh\<lparr>queues := (queues sh)[vic := butlast (queues sh ! vic)], stolen_count := stolen_count sh + 1\<rparr>"
    using assms by (auto simp: tmp_steal_def split: if_splits)
  from ne have "queues sh ! vic = butlast (queues sh ! vic) @ [ti]" by (simp add: ti)
  then have "mset (queues sh ! vic) = add_mset ti (mset (butlast (queues sh ! vic)))"
    by (metis add_mset_add_single mset.simps(2) mset.simps(1) mset_append)
  from taken_effect [OF i this, of sh'] show ?thesis by (simp add: s)
qed

lemma tmp_steal_none: "tmp_steal vic sh = Inr (None, sh') \<Longrightarrow> sh' = sh"
  by (auto simp: tmp_steal_def split: if_splits)

subsection \<open>Counting and keeping tasks\<close>

text \<open>
  The counter and the queues agree up to the threads that are between moving a task and counting it;
  both sides are words, since the counter may wrap.
\<close>

definition pool_counts :: "('t, 'r, 'e) pool \<Rightarrow> bool" where
  "pool_counts s \<longleftrightarrow>
     tasks_in_queue (shared s) + of_nat (uncounted s) = of_nat (length (queued (shared s)) + overcounted s)"

text \<open>Every pushed task is in exactly one place: a queue, the hands of one worker, or executed.\<close>

definition pool_keeps :: "('t, 'r, 'e) pool \<Rightarrow> bool" where
  "pool_keeps s \<longleftrightarrow>
     mset (pushed s) = mset (queued (shared s)) + mset (in_hand s) + mset (executed (shared s))"

lemma pool_keeps_set_sub: "pool_keeps (set_sub i pc s) = pool_keeps s"
  by (simp add: pool_keeps_def in_hand_def set_sub_def)

lemma pool_keeps_signal: "pool_keeps (signal_all s) = pool_keeps s"
  by (simp add: pool_keeps_def in_hand_def signal_all_def comp_def)

lemma sub_step_keeps: "sub_step s t \<Longrightarrow> pool_keeps s \<Longrightarrow> pool_keeps t"
proof (induction rule: sub_step.induct)
  case (sub_pick s i ti idx sh)
  then show ?case
    using tmp_pick_effect [OF sub_pick(2)]
    by (simp add: pool_keeps_set_sub) (simp add: pool_keeps_def in_hand_def queued_def)
next
  case (sub_push s i idx ti sh)
  then show ?case
    using tmp_push_effect [OF sub_push(2)]
    by (simp add: pool_keeps_set_sub) (simp add: pool_keeps_def in_hand_def)
qed (simp_all add: pool_keeps_set_sub pool_keeps_signal, simp_all add: pool_keeps_def in_hand_def queued_def tmp_counted_def)

lemma in_hand_set_wrk:
  "at_wrk s i pc \<Longrightarrow>
     mset (in_hand (set_wrk i pc' (s\<lparr>shared := sh\<rparr>))) + mset (hand pc) = mset (in_hand s) + mset (hand pc')"
  "at_wrk s i pc \<Longrightarrow> mset (in_hand (set_wrk i pc' s)) + mset (hand pc) = mset (in_hand s) + mset (hand pc')"
  using in_hand_set [of i s pc'] by (auto simp: at_wrk_def set_wrk_def in_hand_def)

lemma overcounted_set_wrk:
  "at_wrk s i pc \<Longrightarrow> overcounted (set_wrk i pc' (s\<lparr>shared := sh\<rparr>)) + is_hold pc = overcounted s + is_hold pc'"
  "at_wrk s i pc \<Longrightarrow> overcounted (set_wrk i pc' s) + is_hold pc = overcounted s + is_hold pc'"
  using overcounted_set [of i s pc'] by (auto simp: at_wrk_def set_wrk_def overcounted_def)

lemma set_wrk_fields [simp]:
  "shared (set_wrk i pc s) = shared s" "pushed (set_wrk i pc s) = pushed s" "subs (set_wrk i pc s) = subs s"
  "uncounted (set_wrk i pc s) = uncounted s" "uncounted (s\<lparr>shared := sh\<rparr>) = uncounted s" "dtor (set_wrk i pc s) = dtor s"
  by (simp_all add: set_wrk_def uncounted_def)

lemma queued_upd [simp]:
  "queued (sh\<lparr>active_workers := a\<rparr>) = queued sh" "queued (sh\<lparr>stopped := b\<rparr>) = queued sh"
  "queued (sh\<lparr>running := b\<rparr>) = queued sh" "queued (sh\<lparr>dropped_count := d\<rparr>) = queued sh"
  "queued (tmp_run ti sh) = queued sh" "queued (tmp_HandleDrops now sh) = queued sh"
  "queued (tmp_uncounted sh) = queued sh" "queued (tmp_counted sh) = queued sh"
  by (simp_all add: queued_def tmp_uncounted_def tmp_counted_def)

lemma counted_fields [simp]:
  "executed (tmp_counted sh) = executed sh" "executed (tmp_uncounted sh) = executed sh"
  "queues (tmp_counted sh) = queues sh" "queues (tmp_uncounted sh) = queues sh"
  "cfg (tmp_counted sh) = cfg sh" "cfg (tmp_uncounted sh) = cfg sh"
  by (simp_all add: tmp_counted_def tmp_uncounted_def)

lemma tasks_in_queue_upd [simp]:
  "tasks_in_queue (tmp_counted sh) = tasks_in_queue sh + 1" "tasks_in_queue (tmp_uncounted sh) = tasks_in_queue sh - 1"
  by (simp_all add: tmp_counted_def tmp_uncounted_def)

lemma wrk_step_keeps: "wrk_step spurious s t \<Longrightarrow> pool_keeps s \<Longrightarrow> pool_keeps t"
proof (induction rule: wrk_step.induct)
  case (wrk_own s i ti sh)
  then show ?case
    using tmp_own_effect [OF wrk_own(2)] in_hand_set_wrk(1) [OF wrk_own(1), of "WHold ti" sh] by (simp add: pool_keeps_def)
next
  case (wrk_steal s i vic ti sh)
  then show ?case
    using tmp_steal_effect [OF wrk_steal(2)] in_hand_set_wrk(1) [OF wrk_steal(1), of "WHold ti" sh] by (simp add: pool_keeps_def)
next
  case (wrk_none s i sh)
  then show ?case using tmp_own_none [OF wrk_none(2)] in_hand_set_wrk(2) [OF wrk_none(1)] by (simp add: pool_keeps_def)
next
  case (wrk_no_steal s i vic sh)
  then show ?case using tmp_steal_none [OF wrk_no_steal(2)] in_hand_set_wrk(2) [OF wrk_no_steal(1)] by (simp add: pool_keeps_def)
next
  case (wrk_uncount s i ti)
  then show ?case
    using in_hand_set_wrk(1) [OF wrk_uncount(1), of "WRun ti"] by (simp add: pool_keeps_def)
next
  case (wrk_run s i ti)
  then show ?case using in_hand_set_wrk(1) [OF wrk_run(1), of WDrops] by (simp add: pool_keeps_def)
qed (insert in_hand_set_wrk, fastforce simp: pool_keeps_def)+

lemma dtor_step_keeps: "dtor_step s t \<Longrightarrow> pool_keeps s \<Longrightarrow> pool_keeps t"
  by (induction rule: dtor_step.induct) (auto simp: pool_keeps_def in_hand_def signal_all_def comp_def)

lemma pool_step_keeps: "pool_step spurious s t \<Longrightarrow> pool_keeps s \<Longrightarrow> pool_keeps t"
  by (auto simp: pool_step_def intro: sub_step_keeps wrk_step_keeps dtor_step_keeps)

lemma pool_start_keeps: "pool_keeps (pool_start c now n)"
proof -
  have "concat (map hand (replicate k WLoop)) = []" for k by (induction k) auto
  then show ?thesis by (simp add: pool_keeps_def pool_start_def in_hand_def queued_def tmp_new_def)
qed

interpretation pool_tasks: inductive_invariant "\<lambda>s. s = pool_start c now n" "pool_step spurious" pool_keeps
  by unfold_locales (auto intro: pool_start_keeps pool_step_keeps)

lemma uncounted_set_sub:
  "at_sub s i pc \<Longrightarrow> uncounted (set_sub i pc' s) + is_count pc = uncounted s + is_count pc'"
  using uncounted_set [of i s pc'] by (auto simp: at_sub_def set_sub_def uncounted_def)

lemma set_sub_fields [simp]:
  "shared (set_sub i pc s) = shared s" "wrks (set_sub i pc s) = wrks s" "overcounted (set_sub i pc s) = overcounted s"
  "overcounted (s\<lparr>shared := sh\<rparr>) = overcounted s" "overcounted (s\<lparr>shared := sh, pushed := ps\<rparr>) = overcounted s"
  "dtor (set_sub i pc s) = dtor s"
  by (simp_all add: set_sub_def overcounted_def)

lemma at_sub_upd [simp]:
  "at_sub (s\<lparr>shared := sh\<rparr>) i pc = at_sub s i pc" "at_sub (s\<lparr>shared := sh, pushed := ps\<rparr>) i pc = at_sub s i pc"
  "at_sub (signal_all s) i pc = at_sub s i pc"
  by (simp_all add: at_sub_def signal_all_def)

lemma signal_all_fields [simp]:
  "shared (signal_all s) = shared s" "uncounted (signal_all s) = uncounted s" "overcounted (signal_all s) = overcounted s"
  "uncounted (s\<lparr>shared := sh, pushed := ps\<rparr>) = uncounted s" "pushed (signal_all s) = pushed s"
  by (simp_all add: signal_all_def uncounted_def overcounted_def comp_def)

lemma sub_step_counts: "sub_step s t \<Longrightarrow> pool_counts s \<Longrightarrow> pool_counts t"
proof (induction rule: sub_step.induct)
  case (sub_pick s i ti idx sh)
  then show ?case
    using tmp_pick_effect [OF sub_pick(2)] uncounted_set_sub [of "s\<lparr>shared := sh\<rparr>" i "SChosen ti" "SPush idx ti"]
    by (simp add: pool_counts_def queued_def)
next
  case (sub_push s i idx ti sh)
  then show ?case
    using tmp_push_effect [OF sub_push(2)]
      uncounted_set_sub [of "s\<lparr>shared := sh, pushed := pushed s @ [ti]\<rparr>" i "SPush idx ti" SCount]
    by (simp add: pool_counts_def algebra_simps)
next
  case (sub_count s i)
  let ?t = "set_sub i SSignal (s\<lparr>shared := tmp_counted (shared s)\<rparr>)"
  have "uncounted s = Suc (uncounted ?t)"
    using uncounted_set_sub [of "s\<lparr>shared := tmp_counted (shared s)\<rparr>" i SCount SSignal] sub_count(1) by simp
  with sub_count(2) show ?case by (simp add: pool_counts_def algebra_simps)
next
  case (sub_signal s i)
  then show ?case
    using uncounted_set_sub [of "signal_all s" i SSignal SIdle] by (simp add: pool_counts_def)
next
  case (sub_drop s i)
  then show ?case
    using uncounted_set_sub [of "s\<lparr>shared := (shared s)\<lparr>dropped_count := dropped_count (shared s) + 1\<rparr>\<rparr>" i SDrop SIdle]
    by (simp add: pool_counts_def)
next
  case (sub_load s i ti)
  then show ?case
    using uncounted_set_sub [of s i SIdle "if tmp_trips (cfg (shared s)) (tasks_in_queue (shared s)) then SDrop else SChosen ti"]
    by (simp add: pool_counts_def split: if_splits)
qed

lemma wrk_step_counts: "wrk_step spurious s t \<Longrightarrow> pool_counts s \<Longrightarrow> pool_counts t"
proof (induction rule: wrk_step.induct)
  case (wrk_own s i ti sh)
  then show ?case
    using tmp_own_effect [OF wrk_own(2)] overcounted_set_wrk(1) [OF wrk_own(1), of "WHold ti" sh]
    by (simp add: pool_counts_def algebra_simps)
next
  case (wrk_steal s i vic ti sh)
  then show ?case
    using tmp_steal_effect [OF wrk_steal(2)] overcounted_set_wrk(1) [OF wrk_steal(1), of "WHold ti" sh]
    by (simp add: pool_counts_def algebra_simps)
next
  case (wrk_none s i sh)
  then show ?case
    using tmp_own_none [OF wrk_none(2)] overcounted_set_wrk(2) [OF wrk_none(1)] by (simp add: pool_counts_def)
next
  case (wrk_no_steal s i vic sh)
  then show ?case
    using tmp_steal_none [OF wrk_no_steal(2)] overcounted_set_wrk(2) [OF wrk_no_steal(1)]
    by (simp add: pool_counts_def)
next
  case (wrk_uncount s i ti)
  let ?t = "set_wrk i (WRun ti) (s\<lparr>shared := tmp_uncounted (shared s)\<rparr>)"
  have "overcounted s = Suc (overcounted ?t)"
    using overcounted_set_wrk(1) [OF wrk_uncount(1), of "WRun ti" "tmp_uncounted (shared s)"] by simp
  with wrk_uncount(2) show ?case by (simp add: pool_counts_def algebra_simps)
next
  case (wrk_run s i ti)
  then show ?case
    using overcounted_set_wrk(1) [OF wrk_run(1), of WDrops "tmp_run ti (shared s)"] by (simp add: pool_counts_def)
next
  case (wrk_drops s i now)
  then show ?case
    using overcounted_set_wrk(1) [OF wrk_drops(1), of WLoop "tmp_HandleDrops now (shared s)"]
    by (simp add: pool_counts_def)
next
  case (wrk_exit s i)
  then show ?case
    using overcounted_set_wrk(1) [OF wrk_exit(1), of WDone] by (simp add: pool_counts_def)
qed (use overcounted_set_wrk(2) in \<open>fastforce simp: pool_counts_def split: if_splits\<close>)+

lemma dtor_step_counts: "dtor_step s t \<Longrightarrow> pool_counts s \<Longrightarrow> pool_counts t"
  by (induction rule: dtor_step.induct) (simp_all add: pool_counts_def uncounted_def overcounted_def signal_all_def comp_def)

lemma pool_start_counts: "pool_counts (pool_start c now n)"
  by (simp add: pool_counts_def pool_start_def queued_def tmp_new_def uncounted_def overcounted_def sum_list_replicate)

interpretation pool_counter: inductive_invariant "\<lambda>s. s = pool_start c now n" "pool_step spurious" pool_counts
proof
  show "pool_step spurious s t \<Longrightarrow> pool_counts s \<Longrightarrow> pool_counts t" for s t :: "('t, 'r, 'e) pool"
    by (auto simp: pool_step_def intro: sub_step_counts wrk_step_counts dtor_step_counts)
qed (simp add: pool_start_counts)

subsection \<open>One queue: tasks run in the order they were pushed\<close>

definition not_thief :: "('t, 'r, 'e) wrk_pc \<Rightarrow> bool" where
  "not_thief w \<longleftrightarrow> w \<noteq> WVictim \<and> (\<forall>v. w \<noteq> WSteal v)"

text \<open>
  Everything goes to queue 0, whose worker takes from the front; the other workers hold nothing.
\<close>

definition pool_serial :: "('t, 'r, 'e) pool \<Rightarrow> bool" where
  "pool_serial s \<longleftrightarrow>
     mode (cfg (shared s)) \<noteq> WorkStealing \<and> (mode (cfg (shared s)) = FIFO \<or> num_threads (cfg (shared s)) = 1) \<and>
     (\<forall>i ti. SPush i ti \<in> set (subs s) \<longrightarrow> i = 0) \<and> (\<forall>w \<in> set (wrks s). not_thief w) \<and>
     (\<forall>i. 0 < i \<longrightarrow> i < length (wrks s) \<longrightarrow> hand (wrks s ! i) = []) \<and>
     (\<exists>q k. queues (shared s) = q # replicate k [] \<and> wrks s \<noteq> [] \<and>
       pushed s = executed (shared s) @ hand (wrks s ! 0) @ q)"

lemma not_thief_simps [simp]:
  "not_thief WLoop" "not_thief WTest" "not_thief WBlock" "not_thief WSleep" "not_thief WWoken" "not_thief WPop"
  "not_thief (WHold ti)" "not_thief (WRun ti)" "not_thief WDrops" "not_thief WDone"
  "\<not> not_thief WVictim" "\<not> not_thief (WSteal v)" "not_thief (wake w) = not_thief w"
  by (auto simp: not_thief_def) (cases w; simp)+

lemma set_update_mem: "x \<in> set (xs[i := y]) \<Longrightarrow> x = y \<or> x \<in> set xs"
  using set_update_subset_insert [of xs i y] by auto

lemma sub_step_serial: "sub_step s t \<Longrightarrow> pool_serial s \<Longrightarrow> pool_serial t"
proof (induction rule: sub_step.induct)
  case (sub_pick s i ti idx sh)
  then have "idx = 0" by (auto simp: pool_serial_def tmp_pick_def split: if_splits)
  with sub_pick show ?case using tmp_pick_effect [OF sub_pick(2)]
    by (auto simp: pool_serial_def set_sub_def dest!: set_update_mem)
next
  case (sub_push s i idx ti sh)
  then have "SPush idx ti \<in> set (subs s)" by (metis at_sub_def nth_mem)
  with sub_push(3) have "idx = 0" unfolding pool_serial_def by blast
  with sub_push show ?case
    using tmp_push_effect [OF sub_push(2)] by (auto simp: pool_serial_def set_sub_def dest!: set_update_mem)
qed (auto simp: pool_serial_def set_sub_def signal_all_def dest!: set_update_mem split: if_splits)

lemma serial_set_wrk:
  assumes "pool_serial s" and "at_wrk s i pc" and "hand pc' = hand pc" and "not_thief pc'"
    and "cfg sh = cfg (shared s)" and "queues sh = queues (shared s)" and "executed sh = executed (shared s)"
  shows "pool_serial (set_wrk i pc' (s\<lparr>shared := sh\<rparr>))"
  using assms by (auto simp: pool_serial_def set_wrk_def at_wrk_def nth_list_update dest!: set_update_mem)

lemma serial_set_wrk':
  assumes "pool_serial s" and "at_wrk s i pc" and "hand pc' = hand pc" and "not_thief pc'"
  shows "pool_serial (set_wrk i pc' s)"
  using serial_set_wrk [OF assms, of "shared s"] by simp

lemma serial_hand: "pool_serial s \<Longrightarrow> at_wrk s i pc \<Longrightarrow> hand pc \<noteq> [] \<Longrightarrow> i = 0"
  by (auto simp: pool_serial_def at_wrk_def)

lemma serial_no_thief: "pool_serial s \<Longrightarrow> at_wrk s i pc \<Longrightarrow> not_thief pc"
  by (auto simp: pool_serial_def at_wrk_def)

lemma wrk_step_serial: "wrk_step spurious s t \<Longrightarrow> pool_serial s \<Longrightarrow> pool_serial t"
proof (induction rule: wrk_step.induct)
  case (wrk_own s i ti sh)
  then have i: "i = 0"
    by (auto simp: pool_serial_def tmp_own_def nth_Cons' split: if_splits list.splits)
  with wrk_own show ?case
    by (auto simp: pool_serial_def set_wrk_def at_wrk_def tmp_own_def split: if_splits list.splits dest!: set_update_mem)
next
  case (wrk_none s i sh)
  moreover have "mode (cfg (shared s)) \<noteq> WorkStealing" using wrk_none by (simp add: pool_serial_def)
  ultimately show ?case using tmp_own_none [OF wrk_none(2)] by (auto intro: serial_set_wrk')
next
  case (wrk_run s i ti)
  then have "i = 0" by (auto dest: serial_hand)
  with wrk_run show ?case
    by (auto simp: pool_serial_def set_wrk_def at_wrk_def dest!: set_update_mem)
qed (auto intro: serial_set_wrk serial_set_wrk' dest: serial_no_thief)

lemma dtor_step_serial: "dtor_step s t \<Longrightarrow> pool_serial s \<Longrightarrow> pool_serial t"
  by (induction rule: dtor_step.induct) (auto simp: pool_serial_def signal_all_def)

interpretation pool_order: inductive_invariant
  "\<lambda>s. s = pool_start c now n \<and> 0 < num_threads c \<and> mode c \<noteq> WorkStealing \<and> (mode c = FIFO \<or> num_threads c = 1)"
  "pool_step spurious" pool_serial
proof
  show "pool_step spurious s t \<Longrightarrow> pool_serial s \<Longrightarrow> pool_serial t" for s t :: "('t, 'r, 'e) pool"
    by (auto simp: pool_step_def intro: sub_step_serial wrk_step_serial dtor_step_serial)
next
  fix s :: "('t, 'r, 'e) pool"
  assume "s = pool_start c now n \<and> 0 < num_threads c \<and> mode c \<noteq> WorkStealing \<and> (mode c = FIFO \<or> num_threads c = 1)"
  moreover from this obtain k where "num_threads c = Suc k" by (cases "num_threads c") auto
  ultimately show "pool_serial s" by (auto simp: pool_serial_def pool_start_def tmp_new_def nth_Cons')
qed

subsection \<open>Shutting down\<close>

text \<open>A worker that will test \<open>running\<close> before it executes another task, or never does.\<close>

fun spent :: "('t, 'r, 'e) wrk_pc \<Rightarrow> bool" where
  "spent WLoop \<longleftrightarrow> True"
| "spent WDrops \<longleftrightarrow> True"
| "spent WDone \<longleftrightarrow> True"
| "spent _ \<longleftrightarrow> False"

definition still_active :: "('t, 'r, 'e) pool \<Rightarrow> nat" where
  "still_active s = sum_list (map (\<lambda>pc. if spent pc then 0 else 1) (wrks s))"

definition pool_ending :: "nat \<Rightarrow> ('t, 'r, 'e) pool \<Rightarrow> bool" where
  "pool_ending bound s \<longleftrightarrow> \<not> running (shared s) \<and> length (executed (shared s)) + still_active s \<le> bound"

lemma still_active_set_wrk:
  "at_wrk s i pc \<Longrightarrow>
     still_active (set_wrk i pc' (s\<lparr>shared := sh\<rparr>)) + (if spent pc then 0 else 1) = still_active s + (if spent pc' then 0 else 1)"
  "at_wrk s i pc \<Longrightarrow>
     still_active (set_wrk i pc' s) + (if spent pc then 0 else 1) = still_active s + (if spent pc' then 0 else 1)"
  using sum_list_set_nth [of i "wrks s" "\<lambda>pc. if spent pc then 0 else 1" pc']
  by (auto simp: at_wrk_def set_wrk_def still_active_def)

lemma spent_wake [simp]: "spent (wake pc) = spent pc"
  by (cases pc) simp_all

lemma running_fields [simp]:
  "running (tmp_counted sh) = running sh" "running (tmp_uncounted sh) = running sh"
  "running (tmp_HandleDrops now sh) = running sh" "running (tmp_run ti sh) = running sh"
proof -
  have "running (fold (run_wrapper p) ws s) = running s" for p ws and s :: "('a, 'b, 'c) tmp"
  proof (induction ws arbitrary: s)
    case (Cons w ws)
    then show ?case by (cases w) simp_all
  qed simp
  then show "running (tmp_run ti sh) = running sh" by (simp add: tmp_run_def Let_def)
qed (simp_all add: tmp_counted_def tmp_uncounted_def tmp_HandleDrops_def Let_def)

lemma sub_step_ending: "sub_step s t \<Longrightarrow> pool_ending k s \<Longrightarrow> pool_ending k t"
proof (induction rule: sub_step.induct)
  case (sub_pick s i ti idx sh)
  moreover have "running sh = running (shared s)"
    using sub_pick(2) by (auto simp: tmp_pick_def split: if_splits)
  ultimately show ?case
    using tmp_pick_effect [OF sub_pick(2)] by (simp add: pool_ending_def still_active_def set_sub_def)
next
  case (sub_push s i idx ti sh)
  moreover have "running sh = running (shared s)"
    using sub_push(2) by (auto simp: tmp_push_def Let_def split: if_splits)
  ultimately show ?case
    using tmp_push_effect [OF sub_push(2)] by (simp add: pool_ending_def still_active_def set_sub_def)
qed (simp_all add: pool_ending_def still_active_def set_sub_def signal_all_def comp_def)

lemma wrk_step_ending: "wrk_step spurious s t \<Longrightarrow> pool_ending k s \<Longrightarrow> pool_ending k t"
proof (induction rule: wrk_step.induct)
  case (wrk_own s i ti sh)
  then show ?case
    using tmp_own_effect [OF wrk_own(2)] still_active_set_wrk(1) [OF wrk_own(1), of "WHold ti" sh]
    by (simp add: pool_ending_def)
next
  case (wrk_steal s i vic ti sh)
  then show ?case
    using tmp_steal_effect [OF wrk_steal(2)] still_active_set_wrk(1) [OF wrk_steal(1), of "WHold ti" sh]
    by (simp add: pool_ending_def)
next
  case (wrk_none s i sh)
  then show ?case
    using tmp_own_none [OF wrk_none(2)] still_active_set_wrk(2) [OF wrk_none(1), of WVictim]
      still_active_set_wrk(2) [OF wrk_none(1), of WDrops] by (auto simp: pool_ending_def)
next
  case (wrk_no_steal s i vic sh)
  then show ?case
    using tmp_steal_none [OF wrk_no_steal(2)] still_active_set_wrk(2) [OF wrk_no_steal(1), of WDrops]
    by (simp add: pool_ending_def)
next
  case (wrk_uncount s i ti)
  then show ?case
    using still_active_set_wrk(1) [OF wrk_uncount(1), of "WRun ti" "tmp_uncounted (shared s)"]
    by (simp add: pool_ending_def)
next
  case (wrk_run s i ti)
  then show ?case
    using still_active_set_wrk(1) [OF wrk_run(1), of WDrops "tmp_run ti (shared s)"] by (simp add: pool_ending_def)
next
  case (wrk_drops s i now)
  then show ?case
    using still_active_set_wrk(1) [OF wrk_drops(1), of WLoop "tmp_HandleDrops now (shared s)"]
    by (simp add: pool_ending_def)
next
  case (wrk_exit s i)
  then show ?case
    using still_active_set_wrk(1) [OF wrk_exit(1), of WDone] by (simp add: pool_ending_def)
next
  case (wrk_loop s i)
  then show ?case by (simp add: pool_ending_def)
next
  case (wrk_test s i)
  then show ?case using still_active_set_wrk(2) [OF wrk_test(1), of WPop] by (simp add: pool_ending_def)
next
  case (wrk_wait s i)
  then show ?case using still_active_set_wrk(2) [OF wrk_wait(1), of WSleep] by (simp add: pool_ending_def)
next
  case (wrk_spurious s i)
  then show ?case using still_active_set_wrk(2) [OF wrk_spurious(1), of WWoken] by (simp add: pool_ending_def)
next
  case (wrk_woken s i)
  then show ?case using still_active_set_wrk(2) [OF wrk_woken(1), of WTest] by (simp add: pool_ending_def)
next
  case (wrk_victim s i vic)
  then show ?case using still_active_set_wrk(2) [OF wrk_victim(1), of "WSteal vic"] by (simp add: pool_ending_def)
qed

lemma dtor_step_ending: "dtor_step s t \<Longrightarrow> pool_ending k s \<Longrightarrow> pool_ending k t"
  by (induction rule: dtor_step.induct) (simp_all add: pool_ending_def still_active_def signal_all_def comp_def)

interpretation pool_end: inductive_invariant "pool_ending k" "pool_step spurious" "pool_ending k"
  by unfold_locales
    (auto simp: pool_step_def intro: sub_step_ending wrk_step_ending dtor_step_ending)

lemma still_active_le: "still_active s \<le> length (wrks s)"
proof -
  have "sum_list (map (\<lambda>pc. if spent pc then 0 else 1) pcs) \<le> length pcs" for pcs :: "('a, 'b, 'c) wrk_pc list"
    by (induction pcs) auto
  then show ?thesis by (simp add: still_active_def)
qed

subsection \<open>Runs\<close>

lemma pool_sub: "reachable init (pool_step b) s \<Longrightarrow> sub_step s t \<Longrightarrow> reachable init (pool_step b) t"
  by (rule reachable_step) (auto simp: pool_step_def)

lemma pool_wrk: "reachable init (pool_step b) s \<Longrightarrow> wrk_step b s t \<Longrightarrow> reachable init (pool_step b) t"
  by (rule reachable_step) (auto simp: pool_step_def)

lemma pool_dtor: "reachable init (pool_step b) s \<Longrightarrow> dtor_step s t \<Longrightarrow> reachable init (pool_step b) t"
  by (rule reachable_step) (auto simp: pool_step_def)

text \<open>The destructor signals between the worker's test and its wait; the wait then never ends.\<close>

lemma pool_lost_wakeup:
  fixes c :: tmp_config and now :: int
  defines "init \<equiv> \<lambda>s :: ('t, 'r, 'e) pool. s = pool_start c now 0"
  assumes "num_threads c = 1"
  shows "\<exists>s. reachable init (pool_step False) s \<and> dtor s = DJoin \<and> wrks s = [WSleep] \<and> subs s = []"
proof -
  let ?R = "reachable init (pool_step False)" and ?a = "tmp_new c now" and ?b = "(tmp_new c now)\<lparr>running := False\<rparr>"
  let ?s = "\<lambda>sh w d. \<lparr>shared = sh, subs = [], wrks = [w], dtor = d, pushed = []\<rparr> :: ('t, 'r, 'e) pool"
  have new: "running ?a" "tasks_in_queue ?a = 0" by (simp_all add: tmp_new_def)
  have "?R (?s ?a WLoop DNone)"
    by (rule reachable_init) (simp add: init_def pool_start_def assms(2))
  from pool_wrk [OF this wrk_loop [of _ 0]] have "?R (?s ?a WTest DNone)"
    by (simp add: pool_defs mutex_free_def new)
  from pool_wrk [OF this wrk_test [of _ 0]] have "?R (?s ?a WBlock DNone)"
    by (simp add: pool_defs new)
  from pool_dtor [OF this dtor_store] have "?R (?s ?b WBlock DStored)" by simp
  from pool_dtor [OF this dtor_signal] have "?R (?s ?b WBlock DDrain)" by (simp add: signal_all_def)
  from pool_wrk [OF this wrk_wait [of _ 0]] have "?R (?s ?b WSleep DDrain)" by (simp add: pool_defs)
  from pool_dtor [OF this dtor_drain] have "?R (?s ?b WSleep DJoin)" by simp
  then show ?thesis by - (intro exI conjI, assumption, simp_all)
qed

text \<open>One submitter and one worker that has not moved: the task is queued and counted, the signal is to come.\<close>

lemma pool_counted:
  fixes c :: tmp_config and now :: int and ti :: "('t, 'r, 'e) task_item"
  defines "init \<equiv> \<lambda>s :: ('t, 'r, 'e) pool. s = pool_start c now 1"
  assumes n: "num_threads c = 1"
  obtains p where "reachable init (pool_step spurious)
      \<lparr>shared = tmp_counted p, subs = [SSignal], wrks = [WLoop], dtor = DNone, pushed = [ti]\<rparr>"
    and "queues p = [[ti]]" and "executed p = []" and "running p" and "tasks_in_queue p = 0" and "active_workers p = 1"
proof -
  let ?R = "reachable init (pool_step spurious)" and ?a = "tmp_new c now :: ('t, 'r, 'e) tmp"
  let ?s = "\<lambda>sh p ps. \<lparr>shared = sh, subs = [p], wrks = [WLoop], dtor = DNone, pushed = ps\<rparr> :: ('t, 'r, 'e) pool"
  have new: "cfg ?a = c" "tasks_in_queue ?a = 0" "queues ?a = [[]]" "executed ?a = []" "active_workers ?a = 1" "running ?a"
    using n by (simp_all add: tmp_new_def)
  obtain r where pick: "tmp_pick ?a = Inr (0, ?a\<lparr>rr_index := r\<rparr>)"
    using n by (cases "mode c = FIFO") (auto simp: tmp_pick_def tmp_new_def)
  define h :: u64 where "h = (if high_water_mark ?a < 1 then 1 else high_water_mark ?a)"
  define p where "p = ?a\<lparr>rr_index := r, queues := [[ti]], high_water_mark := h\<rparr>"
  have push: "tmp_push 0 ti (?a\<lparr>rr_index := r\<rparr>) = Inr p"
    by (simp add: tmp_push_def p_def new h_def Let_def)
  have "?R (?s ?a SIdle [])"
    by (rule reachable_init) (simp add: init_def pool_start_def n)
  from pool_sub [OF this sub_load [of _ 0 ti]] have "?R (?s ?a (SChosen ti) [])"
    by (simp add: pool_defs new tmp_trips_def)
  from pool_sub [OF this sub_pick [of _ 0]] have "?R (?s (?a\<lparr>rr_index := r\<rparr>) (SPush 0 ti) [])"
    using pick by (simp add: pool_defs)
  from pool_sub [OF this sub_push [of _ 0]] have "?R (?s p SCount [ti])"
    using push by (simp add: pool_defs)
  from pool_sub [OF this sub_count [of _ 0]] have "?R (?s (tmp_counted p) SSignal [ti])" by (simp add: pool_defs)
  from that [OF this] show thesis by (simp add: p_def new)
qed

text \<open>The destructor runs before the worker's first turn; the worker exits without executing the task.\<close>

lemma pool_undrained:
  fixes c :: tmp_config and now :: int and ti :: "('t, 'r, 'e) task_item"
  assumes n: "num_threads c = 1"
  shows "\<exists>s. reachable (\<lambda>s. s = pool_start c now 1) (pool_step spurious) s \<and> dtor s = DDone \<and> pushed s = [ti] \<and>
    queued (shared s) = [ti] \<and> executed (shared s) = []"
proof -
  let ?R = "reachable (\<lambda>s. s = pool_start c now 1) (pool_step spurious)"
  let ?s = "\<lambda>sh w d. \<lparr>shared = sh, subs = [SSignal], wrks = [w], dtor = d, pushed = [ti]\<rparr> :: ('t, 'r, 'e) pool"
  from pool_counted [OF n, of now spurious ti] obtain p where r: "?R (?s (tmp_counted p) WLoop DNone)"
    and p: "queues p = [[ti]]" "executed p = []" "active_workers p = 1" by blast
  let ?e = "(tmp_counted p)\<lparr>running := False\<rparr>"
  let ?x = "?e\<lparr>active_workers := 0, stopped := True\<rparr>"
  have e: "active_workers ?e = 1" by (simp add: p tmp_counted_def)
  from pool_dtor [OF r dtor_store] have "?R (?s ?e WLoop DStored)" by simp
  from pool_dtor [OF this dtor_signal] have "?R (?s ?e WLoop DDrain)" by (simp add: signal_all_def)
  from pool_wrk [OF this wrk_exit [of _ 0]] have "?R (?s ?x WDone DDrain)" by (simp add: pool_defs e)
  from pool_dtor [OF this dtor_drain] have "?R (?s ?x WDone DJoin)" by simp
  from pool_dtor [OF this dtor_join] have "?R (?s (?x\<lparr>stopped := True\<rparr>) WDone DDone)" by simp
  then show ?thesis
    by - (intro exI conjI, assumption, simp_all add: queued_def p tmp_counted_def)
qed

text \<open>
  Two workers and two submitters: both workers see one counted task and pass the wait; one of them
  takes and uncounts a task that its submitter has pushed and not yet counted.
\<close>

definition pool_at ::
  "tmp_config \<Rightarrow> int \<Rightarrow> ('t, 'r, 'e) task_item list list \<Rightarrow> u64 \<Rightarrow> u64 \<Rightarrow> ('t, 'r, 'e) sub_pc list \<Rightarrow>
   ('t, 'r, 'e) wrk_pc list \<Rightarrow> bool" where
  "pool_at c now qs k r ss ws \<longleftrightarrow>
     (\<exists>s. reachable (\<lambda>s. s = pool_start c now (length ss)) (pool_step False) s \<and> cfg (shared s) = c \<and>
        running (shared s) \<and> queues (shared s) = qs \<and> tasks_in_queue (shared s) = k \<and> rr_index (shared s) = r \<and>
        subs s = ss \<and> wrks s = ws)"

lemma pool_at_sub:
  assumes "pool_at c now qs k r ss ws"
    and "\<And>s. cfg (shared s) = c \<Longrightarrow> queues (shared s) = qs \<Longrightarrow> tasks_in_queue (shared s) = k \<Longrightarrow> rr_index (shared s) = r \<Longrightarrow>
      running (shared s) \<Longrightarrow> subs s = ss \<Longrightarrow> wrks s = ws \<Longrightarrow>
      \<exists>t. sub_step s t \<and> cfg (shared t) = c \<and> running (shared t) \<and> queues (shared t) = qs' \<and>
        tasks_in_queue (shared t) = k' \<and> rr_index (shared t) = r' \<and> subs t = ss' \<and> wrks t = ws'"
    and "length ss' = length ss"
  shows "pool_at c now qs' k' r' ss' ws'"
proof -
  from assms(1) obtain s where r: "reachable (\<lambda>s. s = pool_start c now (length ss)) (pool_step False) s"
    and s: "cfg (shared s) = c" "queues (shared s) = qs" "tasks_in_queue (shared s) = k" "rr_index (shared s) = r"
      "running (shared s)" "subs s = ss" "wrks s = ws"
    unfolding pool_at_def by blast
  from assms(2) [OF s] obtain t where t: "sub_step s t"
    "cfg (shared t) = c \<and> running (shared t) \<and> queues (shared t) = qs' \<and>
     tasks_in_queue (shared t) = k' \<and> rr_index (shared t) = r' \<and> subs t = ss' \<and> wrks t = ws'" by blast
  from pool_sub [OF r t(1)] t(2) assms(3) show ?thesis unfolding pool_at_def by auto
qed

lemma pool_at_wrk:
  assumes "pool_at c now qs k r ss ws"
    and "\<And>s. cfg (shared s) = c \<Longrightarrow> queues (shared s) = qs \<Longrightarrow> tasks_in_queue (shared s) = k \<Longrightarrow> rr_index (shared s) = r \<Longrightarrow>
      running (shared s) \<Longrightarrow> subs s = ss \<Longrightarrow> wrks s = ws \<Longrightarrow>
      \<exists>t. wrk_step False s t \<and> cfg (shared t) = c \<and> running (shared t) \<and> queues (shared t) = qs' \<and>
        tasks_in_queue (shared t) = k' \<and> rr_index (shared t) = r' \<and> subs t = ss' \<and> wrks t = ws'"
    and "length ss' = length ss"
  shows "pool_at c now qs' k' r' ss' ws'"
proof -
  from assms(1) obtain s where r: "reachable (\<lambda>s. s = pool_start c now (length ss)) (pool_step False) s"
    and s: "cfg (shared s) = c" "queues (shared s) = qs" "tasks_in_queue (shared s) = k" "rr_index (shared s) = r"
      "running (shared s)" "subs s = ss" "wrks s = ws"
    unfolding pool_at_def by blast
  from assms(2) [OF s] obtain t where t: "wrk_step False s t"
    "cfg (shared t) = c \<and> running (shared t) \<and> queues (shared t) = qs' \<and>
     tasks_in_queue (shared t) = k' \<and> rr_index (shared t) = r' \<and> subs t = ss' \<and> wrks t = ws'" by blast
  from pool_wrk [OF r t(1)] t(2) assms(3) show ?thesis unfolding pool_at_def by auto
qed

text \<open>The single steps, on such a configuration.\<close>

lemma at_load:
  "pool_at c now qs k r ss ws \<Longrightarrow> i < length ss \<Longrightarrow> ss ! i = SIdle \<Longrightarrow> \<not> tmp_trips c k \<Longrightarrow>
     pool_at c now qs k r (ss[i := SChosen ti]) ws"
  by (erule pool_at_sub) (rule exI, rule conjI, rule sub_load [of _ i ti], simp_all add: pool_defs)

lemma at_pick:
  "pool_at c now qs k r ss ws \<Longrightarrow> i < length ss \<Longrightarrow> ss ! i = SChosen ti \<Longrightarrow> mode c \<noteq> FIFO \<Longrightarrow> 0 < num_threads c \<Longrightarrow>
     pool_at c now qs k (r + 1) (ss[i := SPush (unat r mod num_threads c) ti]) ws"
  by (erule pool_at_sub)
    (rule exI, rule conjI, rule sub_pick [of _ i ti], simp_all add: pool_defs tmp_pick_def, (simp_all)?)

lemma at_push:
  "pool_at c now qs k r ss ws \<Longrightarrow> i < length ss \<Longrightarrow> ss ! i = SPush idx ti \<Longrightarrow> idx < length qs \<Longrightarrow>
     pool_at c now (qs[idx := qs ! idx @ [ti]]) k r (ss[i := SCount]) ws"
  by (erule pool_at_sub)
    (rule exI, rule conjI, rule sub_push [of _ i idx ti], simp_all add: pool_defs tmp_push_def Let_def, (simp_all)?)

lemma at_count:
  "pool_at c now qs k r ss ws \<Longrightarrow> i < length ss \<Longrightarrow> ss ! i = SCount \<Longrightarrow>
     pool_at c now qs (k + 1) r (ss[i := SSignal]) ws"
  by (erule pool_at_sub) (rule exI, rule conjI, rule sub_count [of _ i], simp_all add: pool_defs tmp_counted_def)

lemma at_loop:
  "pool_at c now qs k r ss ws \<Longrightarrow> i < length ws \<Longrightarrow> ws ! i = WLoop \<Longrightarrow> WTest \<notin> set ws \<Longrightarrow> WBlock \<notin> set ws \<Longrightarrow>
     pool_at c now qs k r ss (ws[i := WTest])"
  by (erule pool_at_wrk) (rule exI, rule conjI, rule wrk_loop [of _ i], simp_all add: pool_defs mutex_free_def)

lemma at_test:
  "pool_at c now qs k r ss ws \<Longrightarrow> i < length ws \<Longrightarrow> ws ! i = WTest \<Longrightarrow> k \<noteq> 0 \<Longrightarrow>
     pool_at c now qs k r ss (ws[i := WPop])"
  by (erule pool_at_wrk) (rule exI, rule conjI, rule wrk_test [of _ i], simp_all add: pool_defs)

lemma at_own:
  "pool_at c now qs k r ss ws \<Longrightarrow> i < length ws \<Longrightarrow> ws ! i = WPop \<Longrightarrow> i < length qs \<Longrightarrow> qs ! i = ti # q \<Longrightarrow>
     pool_at c now (qs[i := q]) k r ss (ws[i := WHold ti])"
  by (erule pool_at_wrk)
    (rule exI, rule conjI, rule wrk_own [of _ i ti], simp_all add: pool_defs tmp_own_def, (simp_all)?)

lemma at_uncount:
  "pool_at c now qs k r ss ws \<Longrightarrow> i < length ws \<Longrightarrow> ws ! i = WHold ti \<Longrightarrow>
     pool_at c now qs (k - 1) r ss (ws[i := WRun ti])"
  by (erule pool_at_wrk)
    (rule exI, rule conjI, rule wrk_uncount [of _ i ti], simp_all add: pool_defs tmp_uncounted_def)

lemma pool_counter_wraps:
  assumes "num_threads c = 2" and "mode c = RoundRobin" and "\<not> tmp_trips c 1"
  shows "pool_at c now [[], []] (- 1) 2 [SSignal, SCount] [WRun t1, WRun t2]"
proof -
  have start: "pool_at c now [[], []] 0 0 [SIdle, SIdle] [WLoop, WLoop]"
    unfolding pool_at_def
    by (rule exI [of _ "pool_start c now 2"], rule conjI, rule reachable_init)
      (simp_all add: assms(1) pool_start_def tmp_new_def numeral_2_eq_2)
  have m: "mode c \<noteq> FIFO" "0 < num_threads c" "\<not> tmp_trips c 0"
    using assms by (simp_all add: tmp_trips_def)
  from at_load [OF start, of 0 t1] m have "pool_at c now [[], []] 0 0 [SChosen t1, SIdle] [WLoop, WLoop]" by simp
  from at_pick [OF this, of 0] m have "pool_at c now [[], []] 0 1 [SPush 0 t1, SIdle] [WLoop, WLoop]" by simp
  from at_push [OF this, of 0] have "pool_at c now [[t1], []] 0 1 [SCount, SIdle] [WLoop, WLoop]" by simp
  from at_count [OF this, of 0] have "pool_at c now [[t1], []] 1 1 [SSignal, SIdle] [WLoop, WLoop]" by simp
  from at_loop [OF this, of 0] have "pool_at c now [[t1], []] 1 1 [SSignal, SIdle] [WTest, WLoop]" by simp
  from at_test [OF this, of 0] have "pool_at c now [[t1], []] 1 1 [SSignal, SIdle] [WPop, WLoop]" by simp
  from at_loop [OF this, of 1] have "pool_at c now [[t1], []] 1 1 [SSignal, SIdle] [WPop, WTest]" by simp
  from at_test [OF this, of 1] have "pool_at c now [[t1], []] 1 1 [SSignal, SIdle] [WPop, WPop]" by simp
  from at_load [OF this, of 1 t2] assms(3) have "pool_at c now [[t1], []] 1 1 [SSignal, SChosen t2] [WPop, WPop]" by simp
  from at_pick [OF this, of 1] m assms(1) have "pool_at c now [[t1], []] 1 2 [SSignal, SPush 1 t2] [WPop, WPop]" by simp
  from at_push [OF this, of 1] have "pool_at c now [[t1], [t2]] 1 2 [SSignal, SCount] [WPop, WPop]" by simp
  from at_own [OF this, of 0] have "pool_at c now [[], [t2]] 1 2 [SSignal, SCount] [WHold t1, WPop]" by simp
  from at_uncount [OF this, of 0] have "pool_at c now [[], [t2]] 0 2 [SSignal, SCount] [WRun t1, WPop]" by simp
  from at_own [OF this, of 1] have "pool_at c now [[], []] 0 2 [SSignal, SCount] [WRun t1, WHold t2]" by simp
  from at_uncount [OF this, of 1] show ?thesis by simp
qed

lemma minus_one_trips:
  "enable_circuit_breaker c \<Longrightarrow> cfg_max_queue_size c \<noteq> 0 \<Longrightarrow> tmp_trips c (- 1)"
  by (simp add: tmp_trips_def)

subsection \<open>Properties\<close>

text \<open>
  C2. No task is lost and none is executed twice. However submitters, workers, thefts and the
  destructor interleave, every task that entered a queue is, at any time, in exactly one place: in a
  queue, in the hands of one worker, or among the executed ones.
\<close>

theorem pool_no_task_lost:
  assumes "reachable (\<lambda>s. s = pool_start c now n) (pool_step spurious) s"
  shows "mset (pushed s) = mset (queued (shared s)) + mset (in_hand s) + mset (executed (shared s))"
  using pool_tasks.reachable_inv [OF assms] by (simp add: pool_keeps_def)

theorem pool_no_task_lost_witness:
  "\<exists>s :: (char, unit, unit) pool. pushed s = [plain CHR ''a''] \<and> executed (shared s) = [] \<and>
     {#plain CHR ''a''#} = mset (queued (shared s)) + mset (in_hand s)"
proof -
  have "num_threads (tmp_config_default 1) = 1" by (simp add: tmp_config_default_def)
  from pool_undrained [OF this, of 0 True "plain CHR ''a'' :: (char, unit, unit) task_item"]
  obtain s :: "(char, unit, unit) pool" where
    r: "reachable (\<lambda>s. s = pool_start (tmp_config_default 1) 0 1) (pool_step True) s"
    and s: "pushed s = [plain CHR ''a'']" "executed (shared s) = []" by blast
  with pool_no_task_lost [OF r] show ?thesis by auto
qed

text \<open>
  C17. Arrival order. In FIFO mode with any number of threads, and in every mode but work stealing with one
  thread, the executed tasks are a prefix of the pushed ones, in the same order, whatever the number of
  submitting threads; what is missing is the task in the hands of worker 0 followed by its queue. The
  other workers of a FIFO pool never hold a task.
\<close>

theorem pool_in_order:
  assumes "reachable (\<lambda>s. s = pool_start c now n) (pool_step spurious) s"
    and "0 < num_threads c" and "mode c = FIFO \<or> num_threads c = 1 \<and> mode c \<noteq> WorkStealing"
  shows "pushed s = executed (shared s) @ hand (wrks s ! 0) @ queues (shared s) ! 0 \<and>
    list_all (\<lambda>w. hand w = []) (tl (wrks s)) \<and> list_all (\<lambda>q. q = []) (tl (queues (shared s)))"
proof -
  have "reachable (\<lambda>s. s = pool_start c now n \<and> 0 < num_threads c \<and> mode c \<noteq> WorkStealing \<and>
      (mode c = FIFO \<or> num_threads c = 1)) (pool_step spurious) s"
    using assms by auto
  then have "pool_serial s" by (rule pool_order.reachable_inv)
  then show ?thesis by (auto simp: pool_serial_def list_all_length nth_tl)
qed

theorem pool_in_order_witness:
  "\<exists>s :: (char, unit, unit) pool. pushed s = [plain CHR ''a''] \<and>
     [plain CHR ''a''] = executed (shared s) @ hand (wrks s ! 0) @ queues (shared s) ! 0"
proof -
  have c: "num_threads (tmp_config_default 1) = 1" "mode (tmp_config_default 1) = FIFO"
    by (simp_all add: tmp_config_default_def)
  from pool_undrained [OF c(1), of 0 True "plain CHR ''a'' :: (char, unit, unit) task_item"]
  obtain s :: "(char, unit, unit) pool" where
    r: "reachable (\<lambda>s. s = pool_start (tmp_config_default 1) 0 1) (pool_step True) s"
    and s: "pushed s = [plain CHR ''a'']" by blast
  with pool_in_order [OF r] c show ?thesis by auto
qed

text \<open>
  The counter is exact up to the threads in between: modulo its width, it is the number of queued
  tasks, minus those pushed and not yet counted, plus those taken and still counted. When no thread
  is in between it is the number of queued tasks.
\<close>

theorem pool_counter_exact:
  assumes "reachable (\<lambda>s. s = pool_start c now n) (pool_step spurious) s"
  shows "tasks_in_queue (shared s) =
      of_nat (length (queued (shared s))) - of_nat (uncounted s) + of_nat (overcounted s) \<and>
    (uncounted s = 0 \<and> overcounted s = 0 \<longrightarrow> tasks_in_queue (shared s) = of_nat (length (queued (shared s))))"
proof -
  have "pool_counts s" by (rule pool_counter.reachable_inv [OF assms])
  then have c: "tasks_in_queue (shared s) + of_nat (uncounted s) =
      of_nat (length (queued (shared s))) + of_nat (overcounted s)" by (simp add: pool_counts_def)
  then have "tasks_in_queue (shared s) =
      of_nat (length (queued (shared s))) - of_nat (uncounted s) + of_nat (overcounted s)"
    by (simp add: algebra_simps)
  with c show ?thesis by auto
qed

theorem pool_counter_exact_witness:
  "\<exists>s :: (char, unit, unit) pool. queued (shared s) = [plain CHR ''a''] \<and>
     tasks_in_queue (shared s) = 1 - of_nat (uncounted s) + of_nat (overcounted s)"
proof -
  have "num_threads (tmp_config_default 1) = 1" by (simp add: tmp_config_default_def)
  from pool_undrained [OF this, of 0 True "plain CHR ''a'' :: (char, unit, unit) task_item"]
  obtain s :: "(char, unit, unit) pool" where
    r: "reachable (\<lambda>s. s = pool_start (tmp_config_default 1) 0 1) (pool_step True) s"
    and s: "queued (shared s) = [plain CHR ''a'']" by blast
  with pool_counter_exact [OF r] show ?thesis by auto
qed

text \<open>
  The counter can fall below zero. A task is pushed before it is counted, so with two workers one
  of them can uncount it first: the 64-bit counter wraps to its largest value while the queues are
  empty, and a submission that reads it then is dropped by the circuit breaker.
\<close>

theorem pool_counter_underflow:
  assumes "num_threads c = 2" and "mode c = RoundRobin" and "enable_circuit_breaker c"
    and "1 < cfg_max_queue_size c"
  shows "\<exists>s. reachable (\<lambda>s :: ('t, 'r, 'e) pool. s = pool_start c now 2) (pool_step False) s \<and> queued (shared s) = [] \<and>
    tasks_in_queue (shared s) = 2 ^ 64 - 1 \<and> tmp_trips (cfg (shared s)) (tasks_in_queue (shared s))"
proof -
  have "\<not> tmp_trips c 1" using assms(4) by (auto simp: tmp_trips_def)
  with pool_counter_wraps [OF assms(1,2), of now "ti :: ('t, 'r, 'e) task_item" ti for ti]
  have "pool_at c now [[], []] (- 1) 2 [SSignal, SCount] [WRun ti, WRun ti]" for ti :: "('t, 'r, 'e) task_item" by blast
  moreover have "tmp_trips c (- 1)" using assms(3,4) by (intro minus_one_trips) auto
  ultimately obtain s :: "('t, 'r, 'e) pool" where r: "reachable (\<lambda>s. s = pool_start c now 2) (pool_step False) s"
    and s: "queues (shared s) = [[], []]" "tasks_in_queue (shared s) = - 1" "tmp_trips (cfg (shared s)) (- 1)"
    unfolding pool_at_def by (auto simp: numeral_2_eq_2)
  have "queued (shared s) = [] \<and> tasks_in_queue (shared s) = 2 ^ 64 - 1 \<and>
      tmp_trips (cfg (shared s)) (tasks_in_queue (shared s))"
    by (simp add: s queued_def)
  with r show ?thesis by blast
qed

theorem pool_counter_underflow_witness:
  "\<exists>s :: (char, unit, unit) pool.
     reachable (\<lambda>s. s = pool_start ((tmp_config_default 2)\<lparr>mode := RoundRobin\<rparr>) 0 2) (pool_step False) s \<and>
     queued (shared s) = [] \<and> tasks_in_queue (shared s) = 2 ^ 64 - 1"
  using pool_counter_underflow [of "(tmp_config_default 2)\<lparr>mode := RoundRobin\<rparr>" 0]
  by (simp add: tmp_config_default_def) blast

text \<open>
  Shutdown abandons the queue. Once the destructor has cleared \<^verbatim>\<open>running_\<close>, each worker executes at
  most one more task, so however many tasks are queued and whatever \<^verbatim>\<open>enable_drain_on_shutdown\<close> says,
  at most one per thread is still executed.
\<close>

theorem pool_shutdown_abandons:
  assumes "\<not> running (shared s)" and "(pool_step spurious)\<^sup>*\<^sup>* s t"
  shows "length (executed (shared t)) \<le> length (executed (shared s)) + length (wrks s)"
proof -
  have "pool_ending (length (executed (shared s)) + length (wrks s)) s"
    using assms(1) still_active_le [of s] by (simp add: pool_ending_def)
  from pool_end.steps_inv [OF assms(2) this] show ?thesis by (simp add: pool_ending_def)
qed

theorem pool_shutdown_abandons_witness:
  "length (executed (shared ((pool_start (tmp_config_default 2) 0 1 :: (char, unit, unit) pool)
     \<lparr>shared := (tmp_new (tmp_config_default 2) 0)\<lparr>running := False\<rparr>\<rparr>))) \<le> 2"
  using pool_shutdown_abandons [of "(pool_start (tmp_config_default 2) 0 1 :: (char, unit, unit) pool)
     \<lparr>shared := (tmp_new (tmp_config_default 2) 0)\<lparr>running := False\<rparr>\<rparr>" False, OF _ rtranclp.rtrancl_refl]
  by (simp add: tmp_new_def)

text \<open>
  An accepted task may never run: with one thread, there is a run in which the task is queued and
  counted, the destructor finishes, and the task has not been executed.
\<close>

theorem pool_undrained_task:
  assumes "num_threads c = 1"
  shows "\<exists>s. reachable (\<lambda>s. s = pool_start c now 1) (pool_step spurious) s \<and> dtor s = DDone \<and>
    pushed s = [ti] \<and> queued (shared s) = [ti] \<and> executed (shared s) = []"
  by (rule pool_undrained [OF assms])

theorem pool_undrained_task_witness:
  "\<exists>s. reachable (\<lambda>s. s = pool_start (tmp_config_default 1) 0 1) (pool_step False) s \<and> dtor s = DDone \<and>
    pushed s = [plain CHR ''a'' :: (char, unit, unit) task_item] \<and> executed (shared s) = []"
  using pool_undrained_task [of "tmp_config_default 1" 0 False "plain CHR ''a'' :: (char, unit, unit) task_item"]
  by (simp add: tmp_config_default_def) blast

text \<open>
  C38. The destructor can hang. It clears \<^verbatim>\<open>running_\<close> and signals without holding \<^verbatim>\<open>mutex_\<close>, so both can
  fall between a worker's test of the condition and its wait; the worker then sleeps forever and the
  destructor waits for it forever: there is a reachable state, past the destructor's signal, from
  which no step is possible (short of a spurious wake-up).
\<close>

theorem pool_destructor_hangs:
  assumes "num_threads c = 1"
  shows "\<exists>s. reachable (\<lambda>s :: ('t, 'r, 'e) pool. s = pool_start c now 0) (pool_step False) s \<and> dtor s = DJoin \<and>
    (\<forall>t. \<not> pool_step False s t)"
proof -
  from pool_lost_wakeup [OF assms] obtain s :: "('t, 'r, 'e) pool"
    where r: "reachable (\<lambda>s. s = pool_start c now 0) (pool_step False) s"
      and s: "dtor s = DJoin" "wrks s = [WSleep]" "subs s = []" by blast
  have "\<not> pool_step False s t" for t
    using s by (auto simp: pool_step_def at_sub_def at_wrk_def elim!: sub_step.cases wrk_step.cases dtor_step.cases)
  with r s(1) show ?thesis by blast
qed

theorem pool_destructor_hangs_witness:
  "\<exists>s. reachable (\<lambda>s :: (char, unit, unit) pool. s = pool_start (tmp_config_default 1) 0 0) (pool_step False) s \<and>
    dtor s = DJoin \<and> (\<forall>t. \<not> pool_step False s t)"
  by (rule pool_destructor_hangs) (simp add: tmp_config_default_def)

end
