(* ===== verification/Pool_Spec.thy ===== *)
theory Pool_Spec
  imports Task_Concurrency
begin

text \<open>
  What \<^verbatim>\<open>src/src/vectro/pool/task_multi_processor.h\<close> promises, over the interleavings of \<open>Task_Concurrency\<close>. The
  scheduler is a bag of tasks served by a fixed number of servers: a task is put in the bag, taken by a
  free server, and finished; every scheduling mode, and stealing, is a way of choosing. \<open>pool_abs\<close> reads that
  bag off the state of the pool, and every run of the pool is a run of the bag. The futures of
  \<^verbatim>\<open>SubmitWithResult\<close> are followed through the same interleavings, with cancellation tokens set at any time.
\<close>

subsection \<open>The specification: a bag of tasks\<close>

record 'x bag =
  bag_waiting :: "'x multiset"
  bag_taken :: "'x multiset"
  bag_finished :: "'x list"

definition bag_empty :: "'x bag" where
  "bag_empty = \<lparr>bag_waiting = {#}, bag_taken = {#}, bag_finished = []\<rparr>"

inductive bag_step :: "nat \<Rightarrow> 'x bag \<Rightarrow> 'x bag \<Rightarrow> bool" for n :: nat where
  bag_submit: "bag_step n b (b\<lparr>bag_waiting := add_mset x (bag_waiting b)\<rparr>)"
| bag_take: "bag_waiting b = add_mset x rest \<Longrightarrow> size (bag_taken b) < n \<Longrightarrow>
    bag_step n b (b\<lparr>bag_waiting := rest, bag_taken := add_mset x (bag_taken b)\<rparr>)"
| bag_finish: "bag_taken b = add_mset x rest \<Longrightarrow> bag_step n b (b\<lparr>bag_taken := rest, bag_finished := bag_finished b @ [x]\<rparr>)"

subsection \<open>The pool refines it\<close>

definition pool_abs :: "('t, 'r, 'e) pool \<Rightarrow> ('t, 'r, 'e) task_item bag" where
  "pool_abs s = \<lparr>bag_waiting = mset (queued (shared s)), bag_taken = mset (in_hand s), bag_finished = executed (shared s)\<rparr>"

lemma pool_abs_set_sub [simp]: "pool_abs (set_sub i pc s) = pool_abs s"
  by (simp add: pool_abs_def in_hand_def set_sub_def)

lemma pool_abs_signal [simp]: "pool_abs (signal_all s) = pool_abs s"
  by (simp add: pool_abs_def in_hand_def signal_all_def comp_def)

lemma in_hand_shared [simp]: "in_hand (s\<lparr>shared := sh\<rparr>) = in_hand s" "in_hand (s\<lparr>shared := sh, pushed := ps\<rparr>) = in_hand s"
  by (simp_all add: in_hand_def)

lemma pool_abs_quiet:
  assumes "queued sh = queued (shared s)" and "executed sh = executed (shared s)"
  shows "pool_abs (s\<lparr>shared := sh\<rparr>) = pool_abs s"
  using assms by (simp add: pool_abs_def)

lemma pool_abs_wrk_quiet:
  assumes "at_wrk s i pc" and "hand pc' = hand pc"
    and "queued sh = queued (shared s)" and "executed sh = executed (shared s)"
  shows "pool_abs (set_wrk i pc' (s\<lparr>shared := sh\<rparr>)) = pool_abs s"
  using assms in_hand_set_wrk(1) [OF assms(1), of pc' sh] by (simp add: pool_abs_def)

lemma pool_abs_wrk_quiet':
  assumes "at_wrk s i pc" and "hand pc' = hand pc"
  shows "pool_abs (set_wrk i pc' s) = pool_abs s"
  using assms in_hand_set_wrk(2) [OF assms(1), of pc'] by (simp add: pool_abs_def)

lemma size_in_hand: "length (in_hand s) \<le> length (wrks s)"
proof -
  have "length (concat (map hand pcs)) \<le> length pcs" for pcs :: "('t, 'r, 'e) wrk_pc list"
  proof (induction pcs)
    case (Cons pc pcs)
    moreover have "length (hand pc) \<le> 1" by (cases pc) simp_all
    ultimately show ?case by simp
  qed simp
  then show ?thesis by (simp add: in_hand_def)
qed

lemma taking_refines:
  assumes "at_wrk s i pc" and "hand pc = []"
    and "mset (queued (shared s)) = add_mset ti (mset (queued sh))" and "executed sh = executed (shared s)"
  shows "bag_step (length (wrks s)) (pool_abs s) (pool_abs (set_wrk i (WHold ti) (s\<lparr>shared := sh\<rparr>)))"
proof -
  let ?t = "set_wrk i (WHold ti) (s\<lparr>shared := sh\<rparr>)"
  have h: "mset (in_hand ?t) = add_mset ti (mset (in_hand s))"
    using in_hand_set_wrk(1) [OF assms(1), of "WHold ti" sh] assms(2) by simp
  then have "length (in_hand ?t) = Suc (length (in_hand s))" by (metis size_add_mset size_mset)
  with size_in_hand [of ?t] have "length (in_hand s) < length (wrks s)" by (simp add: set_wrk_def)
  with bag_take [of "pool_abs s" ti "mset (queued sh)" "length (wrks s)"] h assms(3,4) show ?thesis
    by (simp add: pool_abs_def)
qed

lemma sub_step_refines: "sub_step s t \<Longrightarrow> (bag_step (length (wrks s)))\<^sup>=\<^sup>= (pool_abs s) (pool_abs t)"
proof (induction rule: sub_step.induct)
  case (sub_pick s i ti idx sh)
  then show ?case using tmp_pick_effect [OF sub_pick(2)] by (simp add: pool_abs_quiet queued_def)
next
  case (sub_push s i idx ti sh)
  then show ?case
    using tmp_push_effect [OF sub_push(2)] bag_submit [of _ "pool_abs s" ti] by (simp add: pool_abs_def in_hand_def set_sub_def)
qed (simp_all add: pool_abs_quiet)

lemma wrk_step_refines: "wrk_step spurious s t \<Longrightarrow> (bag_step (length (wrks s)))\<^sup>=\<^sup>= (pool_abs s) (pool_abs t)"
proof (induction rule: wrk_step.induct)
  case (wrk_own s i ti sh)
  then show ?case using tmp_own_effect [OF wrk_own(2)] by (simp add: taking_refines)
next
  case (wrk_steal s i vic ti sh)
  then show ?case using tmp_steal_effect [OF wrk_steal(2)] by (simp add: taking_refines)
next
  case (wrk_run s i ti)
  then have "mset (in_hand s) = add_mset ti (mset (in_hand (set_wrk i WDrops (s\<lparr>shared := tmp_run ti (shared s)\<rparr>))))"
    using in_hand_set_wrk(1) [OF wrk_run(1), of WDrops] by simp
  then show ?case using bag_finish [of "pool_abs s" ti] by (simp add: pool_abs_def)
qed (auto simp: pool_abs_wrk_quiet pool_abs_wrk_quiet' dest!: tmp_own_none tmp_steal_none)

lemma dtor_step_refines: "dtor_step s t \<Longrightarrow> pool_abs t = pool_abs s"
  by (induction rule: dtor_step.induct) (simp_all add: pool_abs_def in_hand_def signal_all_def comp_def)

lemma pool_step_wrks: "pool_step spurious s t \<Longrightarrow> length (wrks t) = length (wrks s)"
  by (auto simp: pool_step_def pool_defs elim!: sub_step.cases wrk_step.cases dtor_step.cases)

interpretation pool_bag: forward_simulation "pool_step spurious" "bag_step n" pool_abs "\<lambda>s. length (wrks s) = n"
proof
  show "pool_step spurious s t \<Longrightarrow> length (wrks s) = n \<Longrightarrow> length (wrks t) = n" for s t :: "('t, 'r, 'e) pool"
    by (simp add: pool_step_wrks)
next
  fix s t :: "('t, 'r, 'e) pool"
  assume "pool_step spurious s t" and n: "length (wrks s) = n"
  then have "(bag_step n)\<^sup>=\<^sup>= (pool_abs s) (pool_abs t)"
    using sub_step_refines [of s t] wrk_step_refines [of spurious s t] dtor_step_refines [of s t]
    by (auto simp: pool_step_def)
  then show "(bag_step n)\<^sup>*\<^sup>* (pool_abs s) (pool_abs t)" by auto
qed

lemma bag_step_within: "bag_step n a b \<Longrightarrow> size (bag_taken a) \<le> n \<Longrightarrow> size (bag_taken b) \<le> n"
  by (induction rule: bag_step.induct) auto

subsection \<open>Futures\<close>

fun promise_of :: "('t, 'r, 'e) wrapper \<Rightarrow> address" where
  "promise_of (ResultW fn p) = p"
| "promise_of (CancelW fn p token) = p"

text \<open>What a wrapper leaves in its promise, by the tokens set when it runs.\<close>

fun future_outcome :: "(address \<Rightarrow> bool) \<Rightarrow> 't \<Rightarrow> ('t, 'r, 'e) wrapper \<Rightarrow> ('r, 'e) promise" where
  "future_outcome cancelled t (ResultW fn p) = (case fn t of Inr r \<Rightarrow> Value r | Inl e \<Rightarrow> Exception (UserExn e))"
| "future_outcome cancelled t (CancelW fn p token) =
     (if (case token of Some k \<Rightarrow> cancelled k | None \<Rightarrow> False)
      then Exception (RuntimeError ''Task canceled before execution'')
      else case fn t of Inr r \<Rightarrow> Value r | Inl e \<Rightarrow> Exception (UserExn e))"

definition promise_addresses :: "('t, 'r, 'e) task_item list \<Rightarrow> address list" where
  "promise_addresses tis = concat (map (\<lambda>ti. map promise_of (wrappers ti)) tis)"

text \<open>The pool's steps, and \<^verbatim>\<open>token->store(true)\<close> by whoever holds a token.\<close>

inductive future_step :: "bool \<Rightarrow> ('t, 'r, 'e) pool \<Rightarrow> ('t, 'r, 'e) pool \<Rightarrow> bool" for spurious :: bool where
  fut_pool: "pool_step spurious s t \<Longrightarrow> future_step spurious s t"
| fut_cancel: "future_step spurious s (s\<lparr>shared := (shared s)\<lparr>tokens := (tokens (shared s))(k := True)\<rparr>\<rparr>)"

lemma promise_addresses_simps [simp]:
  "promise_addresses [] = []" "promise_addresses (xs @ ys) = promise_addresses xs @ promise_addresses ys"
  "promise_addresses [ti] = map promise_of (wrappers ti)"
  by (simp_all add: promise_addresses_def)

lemma promise_of_addresses: "ti \<in> set tis \<Longrightarrow> w \<in> set (wrappers ti) \<Longrightarrow> promise_of w \<in> set (promise_addresses tis)"
  by (auto simp: promise_addresses_def)

lemma outcome_not_pending [simp]: "future_outcome c t w \<noteq> Pending"
  by (cases w) (auto split: sum.splits)

lemma outcome_grows:
  "future_outcome (c(k := True)) t w = future_outcome c t w \<or> future_outcome c t w = future_outcome (\<lambda>_. False) t w"
  by (cases w) (auto split: option.splits)

text \<open>What running the wrappers does to the promises\<close>

lemma run_wrapper_promise:
  "promises (run_wrapper t w s) = (promises s)(promise_of w := future_outcome (tokens s) t w)" "tokens (run_wrapper t w s) = tokens s"
  by (cases w; simp)+

lemma run_wrappers_other:
  "p \<notin> promise_of ` set ws \<Longrightarrow> promises (fold (run_wrapper t) ws s) p = promises s p"
  by (induction ws arbitrary: s) (simp_all add: run_wrapper_promise)

lemma run_wrappers_result:
  "distinct (map promise_of ws) \<Longrightarrow> w \<in> set ws \<Longrightarrow>
     promises (fold (run_wrapper t) ws s) (promise_of w) = future_outcome (tokens s) t w"
proof (induction ws arbitrary: s)
  case (Cons v ws)
  show ?case
  proof (cases "w = v")
    case True
    with Cons.prems show ?thesis by (simp add: run_wrappers_other run_wrapper_promise)
  next
    case False
    with Cons show ?thesis by (simp add: run_wrapper_promise)
  qed
qed simp

lemma tmp_run_settles:
  "p \<notin> set (promise_addresses [ti]) \<Longrightarrow> promises (tmp_run ti sh) p = promises sh p"
  "distinct (promise_addresses [ti]) \<Longrightarrow> w \<in> set (wrappers ti) \<Longrightarrow>
     promises (tmp_run ti sh) (promise_of w) = future_outcome (tokens sh) (payload ti) w"
  "tokens (tmp_run ti sh) = tokens sh"
  by (simp_all add: tmp_run_def Let_def run_wrappers_other run_wrappers_result)

text \<open>
  Only executed tasks have touched a promise, and if no promise is shared, an executed task has left in
  its promises what the function returned or threw, or the cancellation its token asked for.
\<close>

definition pool_settles :: "('t, 'r, 'e) pool \<Rightarrow> bool" where
  "pool_settles s \<longleftrightarrow>
     (\<forall>p. p \<notin> set (promise_addresses (executed (shared s))) \<longrightarrow> promises (shared s) p = Pending) \<and>
     (distinct (promise_addresses (executed (shared s))) \<longrightarrow>
       (\<forall>ti \<in> set (executed (shared s)). \<forall>w \<in> set (wrappers ti).
          promises (shared s) (promise_of w) \<in>
            {future_outcome (\<lambda>_. False) (payload ti) w, future_outcome (tokens (shared s)) (payload ti) w}))"

lemma pool_settles_cong:
  "promises (shared t) = promises (shared s) \<Longrightarrow> tokens (shared t) = tokens (shared s) \<Longrightarrow>
   executed (shared t) = executed (shared s) \<Longrightarrow> pool_settles s \<Longrightarrow> pool_settles t"
  by (simp add: pool_settles_def)

lemma quiet_pieces:
  "tmp_pick sh = Inr (idx, sh') \<Longrightarrow> promises sh' = promises sh \<and> tokens sh' = tokens sh \<and> executed sh' = executed sh"
  "tmp_push idx ti sh = Inr sh' \<Longrightarrow> promises sh' = promises sh \<and> tokens sh' = tokens sh \<and> executed sh' = executed sh"
  "tmp_own i sh = Inr (r, sh') \<Longrightarrow> promises sh' = promises sh \<and> tokens sh' = tokens sh \<and> executed sh' = executed sh"
  "tmp_steal i sh = Inr (r, sh') \<Longrightarrow> promises sh' = promises sh \<and> tokens sh' = tokens sh \<and> executed sh' = executed sh"
  by (auto simp: tmp_pick_def tmp_push_def tmp_own_def tmp_steal_def Let_def split: if_splits list.splits)

lemma quiet_counts:
  "promises (tmp_counted sh) = promises sh" "tokens (tmp_counted sh) = tokens sh"
  "promises (tmp_uncounted sh) = promises sh" "tokens (tmp_uncounted sh) = tokens sh"
  "promises (tmp_HandleDrops now sh) = promises sh" "tokens (tmp_HandleDrops now sh) = tokens sh"
  by (simp_all add: tmp_counted_def tmp_uncounted_def tmp_HandleDrops_def Let_def)

lemma sub_step_settles: "sub_step s t \<Longrightarrow> pool_settles s \<Longrightarrow> pool_settles t"
  by (erule pool_settles_cong [rotated 3], erule_tac [!] sub_step.cases)
    (auto simp: quiet_counts dest: quiet_pieces)

lemma settles_run:
  assumes "pool_settles s"
  shows "pool_settles (s\<lparr>shared := tmp_run ti (shared s)\<rparr>)"
proof -
  let ?ex = "executed (shared s)" and ?sh = "tmp_run ti (shared s)"
  have "promises ?sh p = Pending" if "p \<notin> set (promise_addresses (?ex @ [ti]))" for p
    using that assms by (simp add: pool_settles_def tmp_run_settles(1))
  moreover have "promises ?sh (promise_of w) \<in> {future_outcome (\<lambda>_. False) (payload tj) w, future_outcome (tokens ?sh) (payload tj) w}"
    if d: "distinct (promise_addresses (?ex @ [ti]))" and tj: "tj \<in> set (?ex @ [ti])" and w: "w \<in> set (wrappers tj)" for tj w
  proof (cases "tj \<in> set ?ex")
    case True
    with d promise_of_addresses [OF True w] have "promise_of w \<notin> set (promise_addresses [ti])" by auto
    with True w d assms show ?thesis
      by (simp add: pool_settles_def tmp_run_settles(1) tmp_run_settles(3))
  next
    case False
    with tj w d show ?thesis by (simp add: tmp_run_settles(2) tmp_run_settles(3))
  qed
  ultimately show ?thesis by (simp add: pool_settles_def)
qed

lemma wrk_step_settles: "wrk_step spurious s t \<Longrightarrow> pool_settles s \<Longrightarrow> pool_settles t"
proof (induction rule: wrk_step.induct)
  case (wrk_run s i ti)
  from settles_run [OF wrk_run(2), of ti] show ?case by (rule pool_settles_cong [rotated 3]) simp_all
qed (auto elim!: pool_settles_cong [rotated 3] simp: quiet_counts dest: quiet_pieces)

lemma dtor_step_settles: "dtor_step s t \<Longrightarrow> pool_settles s \<Longrightarrow> pool_settles t"
  by (induction rule: dtor_step.induct) (simp_all add: pool_settles_def)

lemma cancel_settles:
  assumes "pool_settles s"
  shows "pool_settles (s\<lparr>shared := (shared s)\<lparr>tokens := (tokens (shared s))(k := True)\<rparr>\<rparr>)"
proof -
  have "x \<in> {future_outcome (\<lambda>_. False) t w, future_outcome ((tokens (shared s))(k := True)) t w}"
    if "x \<in> {future_outcome (\<lambda>_. False) t w, future_outcome (tokens (shared s)) t w}" for x t and w :: "('a, 'b, 'c) wrapper"
    using that outcome_grows [of "tokens (shared s)" k t w] by auto
  with assms show ?thesis unfolding pool_settles_def by simp
qed

interpretation pool_future: inductive_invariant "\<lambda>s. s = pool_start c now n" "future_step spurious"
  "\<lambda>s. pool_settles s \<and> pool_keeps s"
proof
  show "future_step spurious s t \<Longrightarrow> pool_settles s \<and> pool_keeps s \<Longrightarrow> pool_settles t \<and> pool_keeps t"
    for s t :: "('t, 'r, 'e) pool"
  proof (induction rule: future_step.induct)
    case (fut_pool s t)
    then show ?case
      by (auto simp: pool_step_def intro: sub_step_settles wrk_step_settles dtor_step_settles
          sub_step_keeps wrk_step_keeps dtor_step_keeps)
  next
    case (fut_cancel s k)
    then show ?case by (simp add: cancel_settles) (simp add: pool_keeps_def queued_def)
  qed
next
  fix s :: "('t, 'r, 'e) pool"
  assume s: "s = pool_start c now n"
  have "pool_settles s" by (simp add: s pool_settles_def pool_start_def tmp_new_def)
  with s show "pool_settles s \<and> pool_keeps s" by (simp add: pool_start_keeps)
qed

lemma mset_addresses:
  "mset (promise_addresses tis) = \<Sum>\<^sub># (image_mset (\<lambda>ti. mset (map promise_of (wrappers ti))) (mset tis))"
  by (induction tis) (simp_all add: promise_addresses_def)

lemma distinct_addresses:
  assumes "mset xs = mset ys" and "distinct (promise_addresses xs)"
  shows "distinct (promise_addresses ys)"
proof -
  have "mset (promise_addresses xs) = mset (promise_addresses ys)" by (simp add: mset_addresses assms(1))
  from mset_eq_imp_distinct_iff [OF this] assms(2) show ?thesis by blast
qed

lemma future_state:
  assumes inv: "pool_settles s" and keeps: "pool_keeps s" and d: "distinct (promise_addresses (pushed s))"
    and ti: "ti \<in> set (pushed s)" and w: "w \<in> set (wrappers ti)"
  shows "if ti \<in> set (executed (shared s))
    then promises (shared s) (promise_of w) \<in>
      {future_outcome (\<lambda>_. False) (payload ti) w, future_outcome (tokens (shared s)) (payload ti) w}
    else promises (shared s) (promise_of w) = Pending"
proof -
  let ?ex = "executed (shared s)" and ?rest = "queued (shared s) @ in_hand s"
  have p: "mset (pushed s) = mset (?ex @ ?rest)" using keeps by (simp add: pool_keeps_def)
  from distinct_addresses [OF p d]
  have dex: "distinct (promise_addresses ?ex)" and disj: "set (promise_addresses ?ex) \<inter> set (promise_addresses ?rest) = {}" by auto
  show ?thesis
  proof (cases "ti \<in> set ?ex")
    case True
    with inv dex w show ?thesis by (simp add: pool_settles_def)
  next
    case False
    with ti p have "ti \<in> set ?rest" by (metis UnE mset_eq_setD set_append)
    with w have "promise_of w \<in> set (promise_addresses ?rest)" by (rule promise_of_addresses [rotated])
    with disj have "promise_of w \<notin> set (promise_addresses ?ex)" by blast
    with inv False show ?thesis by (simp add: pool_settles_def)
  qed
qed

subsection \<open>A task that is executed\<close>

lemma pool_executes:
  fixes c :: tmp_config and now :: int and ti :: "('t, 'r, 'e) task_item"
  assumes n: "num_threads c = 1"
  shows "\<exists>s. reachable (\<lambda>s. s = pool_start c now 1) (pool_step spurious) s \<and> pushed s = [ti] \<and> executed (shared s) = [ti]"
proof -
  let ?R = "reachable (\<lambda>s. s = pool_start c now 1) (pool_step spurious)"
  let ?s = "\<lambda>sh w. \<lparr>shared = sh, subs = [SSignal], wrks = [w], dtor = DNone, pushed = [ti]\<rparr> :: ('t, 'r, 'e) pool"
  from pool_counted [OF n, of now spurious ti] obtain p where r: "?R (?s (tmp_counted p) WLoop)"
    and p: "queues p = [[ti]]" "executed p = []" "running p" "tasks_in_queue p = 0" by blast
  let ?c = "tmp_counted p" and ?o = "(tmp_counted p)\<lparr>queues := [[]]\<rparr>"
  have own: "tmp_own 0 ?c = Inr (Some ti, ?o)" by (simp add: p tmp_own_def)
  from pool_wrk [OF r wrk_loop [of _ 0]] have "?R (?s ?c WTest)"
    by (simp add: pool_defs mutex_free_def p)
  from pool_wrk [OF this wrk_test [of _ 0]] have "?R (?s ?c WPop)" by (simp add: pool_defs p)
  from pool_wrk [OF this wrk_own [of _ 0]] have "?R (?s ?o (WHold ti))" using own by (simp add: pool_defs)
  from pool_wrk [OF this wrk_uncount [of _ 0]] have "?R (?s (tmp_uncounted ?o) (WRun ti))" by (simp add: pool_defs)
  from pool_wrk [OF this wrk_run [of _ 0]] have "?R (?s (tmp_run ti (tmp_uncounted ?o)) WDrops)" by (simp add: pool_defs)
  then show ?thesis by - (intro exI conjI, assumption, simp_all add: p)
qed

lemma future_reachable: "reachable init (pool_step spurious) s \<Longrightarrow> reachable init (future_step spurious) s"
  by (induction rule: reachable.induct) (auto intro: reachable.intros fut_pool)

subsection \<open>Properties\<close>





end
