(* ===== verification/Pool_Life.thy ===== *)
theory Pool_Life
  imports Task_Concurrency
begin

text \<open>
  The life of a \<^verbatim>\<open>TaskMultiProcessor\<close> (\<^verbatim>\<open>src/src/vectro/pool/task_multi_processor.h\<close>) around the interleavings of
  \<open>Task_Concurrency\<close>: the constructor's loop that binds the workers to processors, the setters a user
  may call while the workers run, and the final callback the destructor makes. \<^verbatim>\<open>hardware_concurrency()\<close> is the
  argument \<open>hw\<close>; hooks are user code and appear as numbers. The theory also shows that a pool whose steal
  policy stays in range is type safe: no thread of it ever reaches an index out of range or a
  division by zero.
\<close>

subsection \<open>Thread affinity\<close>

datatype binding = ByHook nat nat | ByDefault nat nat

text \<open>\<^verbatim>\<open>DefaultAffinity\<close> on Linux: thread \<open>i\<close> goes to the processor it returns.\<close>

definition DefaultAffinity :: "nat \<Rightarrow> nat \<Rightarrow> tmp_fault + nat" where
  "DefaultAffinity hw i = (if hw = 0 then Inl DivisionByZero else Inr (i mod hw))"

text \<open>The constructor's loop over the workers.\<close>

fun bind_workers :: "nat \<Rightarrow> bool \<Rightarrow> nat option \<Rightarrow> nat list \<Rightarrow> tmp_fault + binding list" where
  "bind_workers hw bnd affinity [] = Inr []"
| "bind_workers hw bnd affinity (i # is) =
     (let rest = bind_workers hw bnd affinity is
      in if \<not> bnd then rest
         else case affinity of
           Some f \<Rightarrow> (case rest of Inl e \<Rightarrow> Inl e | Inr bs \<Rightarrow> Inr (ByHook f i # bs))
         | None \<Rightarrow>
             (case DefaultAffinity hw i of
                Inl e \<Rightarrow> Inl e
              | Inr cpu \<Rightarrow> (case rest of Inl e \<Rightarrow> Inl e | Inr bs \<Rightarrow> Inr (ByDefault i cpu # bs))))"

subsection \<open>Construction, setters, final callback\<close>

record ('t, 'r, 'e) pool_life =
  pool_of :: "('t, 'r, 'e) pool"
  thread_affinity :: "nat option"
  final_callback :: "nat option"
  bound :: "binding list"
  final_calls :: "nat list"

text \<open>The members \<^verbatim>\<open>thread_affinity_\<close> and \<^verbatim>\<open>final_callback_\<close> are empty while the constructor runs.\<close>

definition pl_new :: "nat \<Rightarrow> tmp_config \<Rightarrow> int \<Rightarrow> nat \<Rightarrow> tmp_fault + ('t, 'r, 'e) pool_life" where
  "pl_new hw c now submitters =
     (case bind_workers hw (bind_threads c) None [0..<num_threads c] of
        Inl e \<Rightarrow> Inl e
      | Inr bs \<Rightarrow>
          Inr \<lparr>pool_of = pool_start c now submitters, thread_affinity = None, final_callback = None,
               bound = bs, final_calls = []\<rparr>)"

definition pl_SetThreadAffinity :: "nat \<Rightarrow> ('t, 'r, 'e) pool_life \<Rightarrow> ('t, 'r, 'e) pool_life" where
  "pl_SetThreadAffinity fn s = s\<lparr>thread_affinity := Some fn\<rparr>"

definition pl_SetFinalCallback :: "nat \<Rightarrow> ('t, 'r, 'e) pool_life \<Rightarrow> ('t, 'r, 'e) pool_life" where
  "pl_SetFinalCallback cb s = s\<lparr>final_callback := Some cb\<rparr>"

text \<open>The end of the destructor; what the callback throws is swallowed.\<close>

definition pl_final :: "('t, 'r, 'e) pool_life \<Rightarrow> ('t, 'r, 'e) pool_life" where
  "pl_final s = (case final_callback s of None \<Rightarrow> s | Some cb \<Rightarrow> s\<lparr>final_calls := final_calls s @ [cb]\<rparr>)"

inductive pl_step :: "bool \<Rightarrow> ('t, 'r, 'e) pool_life \<Rightarrow> ('t, 'r, 'e) pool_life \<Rightarrow> bool" for spurious :: bool where
  pl_thread: "sub_step (pool_of s) p \<or> wrk_step spurious (pool_of s) p \<Longrightarrow> pl_step spurious s (s\<lparr>pool_of := p\<rparr>)"
| pl_dtor: "dtor_step (pool_of s) p \<Longrightarrow> dtor p \<noteq> DDone \<Longrightarrow> pl_step spurious s (s\<lparr>pool_of := p\<rparr>)"
| pl_end: "dtor_step (pool_of s) p \<Longrightarrow> dtor p = DDone \<Longrightarrow> pl_step spurious s (pl_final (s\<lparr>pool_of := p\<rparr>))"
| pl_set_affinity: "dtor (pool_of s) = DNone \<Longrightarrow> pl_step spurious s (pl_SetThreadAffinity fn s)"
| pl_set_final: "dtor (pool_of s) = DNone \<Longrightarrow> pl_step spurious s (pl_SetFinalCallback cb s)"
| pl_register: "dtor (pool_of s) = DNone \<Longrightarrow>
    pl_step spurious s (s\<lparr>pool_of := (pool_of s)\<lparr>shared := tmp_RegisterCallback (shared (pool_of s))\<rparr>\<rparr>)"
| pl_update: "dtor (pool_of s) = DNone \<Longrightarrow>
    pl_step spurious s (s\<lparr>pool_of := (pool_of s)\<lparr>shared := tmp_UpdateConfig c (shared (pool_of s))\<rparr>\<rparr>)"

lemmas pl_defs = pl_SetThreadAffinity_def pl_SetFinalCallback_def pl_final_def

lemma sub_step_dtor: "sub_step s t \<Longrightarrow> dtor t = dtor s"
  by (induction rule: sub_step.induct) (auto simp: signal_all_def)

lemma wrk_step_dtor: "wrk_step spurious s t \<Longrightarrow> dtor t = dtor s"
  by (induction rule: wrk_step.induct) auto

text \<open>After the destructor no worker has a step left.\<close>

lemma all_done_wake: "set ws \<subseteq> {WDone} \<Longrightarrow> set (map wake ws) \<subseteq> {WDone}"
  by auto

lemma sub_step_all_done: "sub_step s t \<Longrightarrow> set (wrks s) \<subseteq> {WDone} \<Longrightarrow> set (wrks t) \<subseteq> {WDone}"
  by (induction rule: sub_step.induct) (auto simp: signal_all_def)

lemma wrk_step_not_done: "wrk_step spurious s t \<Longrightarrow> \<not> set (wrks s) \<subseteq> {WDone}"
proof (induction rule: wrk_step.induct)
qed (auto simp: at_wrk_def subset_iff dest: nth_mem)

definition pl_inv :: "('t, 'r, 'e) pool_life \<Rightarrow> bool" where
  "pl_inv s \<longleftrightarrow>
     (if dtor (pool_of s) = DDone
      then set (wrks (pool_of s)) \<subseteq> {WDone} \<and>
           final_calls s = (case final_callback s of None \<Rightarrow> [] | Some cb \<Rightarrow> [cb])
      else final_calls s = [])"

lemma dtor_step_done: "dtor_step s t \<Longrightarrow> dtor s \<noteq> DDone \<and> (dtor t = DDone \<longrightarrow> set (wrks t) \<subseteq> {WDone})"
  by (induction rule: dtor_step.induct) auto

lemma pl_step_inv: "pl_step spurious s t \<Longrightarrow> pl_inv s \<Longrightarrow> pl_inv t"
proof (induction rule: pl_step.induct)
  case (pl_thread s p)
  then show ?case
    by (auto simp: pl_inv_def dest: sub_step_dtor wrk_step_dtor sub_step_all_done wrk_step_not_done split: if_splits)
next
  case (pl_dtor s p)
  then show ?case by (auto simp: pl_inv_def dest: dtor_step_done)
next
  case (pl_end s p)
  then show ?case by (auto simp: pl_inv_def pl_final_def dest: dtor_step_done split: option.splits)
qed (auto simp: pl_inv_def pl_defs)

lemma pl_new_inv: "pl_new hw c now n = Inr s \<Longrightarrow> pl_inv s"
  by (auto simp: pl_new_def pl_inv_def pool_start_def split: sum.splits)

interpretation pool_life: inductive_invariant "\<lambda>s. pl_new hw c now n = Inr s" "pl_step spurious" pl_inv
  by unfold_locales (auto intro: pl_new_inv pl_step_inv)

lemma pl_step_bound: "pl_step spurious s t \<Longrightarrow> bound t = bound s"
  by (induction rule: pl_step.induct) (auto simp: pl_defs split: option.splits)

lemma bind_workers_default:
  "bind_workers hw b None is =
     (if b \<and> hw = 0 \<and> is \<noteq> [] then Inl DivisionByZero
      else Inr (if b then map (\<lambda>i. ByDefault i (i mod hw)) is else []))"
  by (induction "is") (auto simp: DefaultAffinity_def Let_def)

interpretation pool_bound: inductive_invariant
  "\<lambda>s. pl_new hw c now n = Inr s" "pl_step spurious"
  "\<lambda>s. bound s = (if bind_threads c then map (\<lambda>i. ByDefault i (i mod hw)) [0..<num_threads c] else [])"
  by unfold_locales (auto simp: pl_new_def bind_workers_default pl_step_bound split: sum.splits if_splits)

subsection \<open>Type safety\<close>

text \<open>A steal policy that answers with an index of the vector it is given.\<close>

definition policy_in_range :: "(nat list \<Rightarrow> nat) \<Rightarrow> bool" where
  "policy_in_range p \<longleftrightarrow> (\<forall>sizes. sizes \<noteq> [] \<longrightarrow> p sizes < length sizes)"

lemma DefaultStealPolicy_in_range: "policy_in_range DefaultStealPolicy"
  by (simp add: policy_in_range_def DefaultStealPolicy_def max_element_first)

fun sub_typed :: "nat \<Rightarrow> ('t, 'r, 'e) sub_pc \<Rightarrow> bool" where
  "sub_typed n (SPush idx ti) = (idx < n)"
| "sub_typed n _ = True"

fun wrk_typed :: "nat \<Rightarrow> ('t, 'r, 'e) wrk_pc \<Rightarrow> bool" where
  "wrk_typed n (WSteal vic) = (vic < n)"
| "wrk_typed n _ = True"

text \<open>What the indices of the pool depend on.\<close>

definition shape :: "('t, 'r, 'e) tmp \<Rightarrow> nat \<times> nat \<times> (nat list \<Rightarrow> nat)" where
  "shape sh = (length (queues sh), num_threads (cfg sh), steal_policy sh)"

definition pool_typed :: "('t, 'r, 'e) pool \<Rightarrow> bool" where
  "pool_typed s \<longleftrightarrow>
     (case shape (shared s) of (n, threads, policy) \<Rightarrow>
        0 < n \<and> threads = n \<and> length (wrks s) = n \<and> policy_in_range policy \<and>
        list_all (sub_typed n) (subs s) \<and> list_all (wrk_typed n) (wrks s))"

lemma shape_upd [simp]:
  "shape (sh\<lparr>active_workers := a\<rparr>) = shape sh" "shape (sh\<lparr>stopped := b\<rparr>) = shape sh"
  "shape (sh\<lparr>running := b\<rparr>) = shape sh" "shape (sh\<lparr>dropped_count := d\<rparr>) = shape sh"
  "shape (tmp_run ti sh) = shape sh" "shape (tmp_HandleDrops now sh) = shape sh"
  "shape (tmp_uncounted sh) = shape sh" "shape (tmp_counted sh) = shape sh"
  by (simp_all add: shape_def tmp_uncounted_def tmp_counted_def)

lemma shape_ops:
  "tmp_pick sh = Inr (idx, sh') \<Longrightarrow> shape sh' = shape sh"
  "tmp_push idx ti sh = Inr sh' \<Longrightarrow> shape sh' = shape sh"
  "tmp_own i sh = Inr (got, sh') \<Longrightarrow> shape sh' = shape sh"
  "tmp_steal vic sh = Inr (got, sh') \<Longrightarrow> shape sh' = shape sh"
  by (auto simp: shape_def tmp_pick_def tmp_push_def tmp_own_def tmp_steal_def Let_def split: if_splits list.splits)

lemma pool_typed_shared [simp]:
  "shape sh = shape (shared s) \<Longrightarrow> pool_typed (s\<lparr>shared := sh\<rparr>) = pool_typed s"
  "shape sh = shape (shared s) \<Longrightarrow> pool_typed (s\<lparr>shared := sh, pushed := ps\<rparr>) = pool_typed s"
  "shape sh = shape (shared s) \<Longrightarrow> pool_typed (s\<lparr>dtor := d, shared := sh\<rparr>) = pool_typed s"
  "pool_typed (s\<lparr>dtor := d\<rparr>) = pool_typed s"
  by (simp_all add: pool_typed_def)

lemma pool_typed_set:
  "pool_typed s \<Longrightarrow> sub_typed (fst (shape (shared s))) pc \<Longrightarrow> pool_typed (set_sub i pc s)"
  "pool_typed s \<Longrightarrow> wrk_typed (fst (shape (shared s))) pc' \<Longrightarrow> pool_typed (set_wrk i pc' s)"
  by (auto simp: pool_typed_def set_sub_def set_wrk_def intro: list_all_update)

lemma wrk_typed_wake [simp]: "wrk_typed n (wake pc) = wrk_typed n pc"
  by (cases pc) simp_all

lemma pool_typed_signal [simp]: "pool_typed (signal_all s) = pool_typed s"
  by (simp add: pool_typed_def signal_all_def list.pred_map comp_def split: prod.splits)

lemma tmp_pick_range:
  "pool_typed s \<Longrightarrow> tmp_pick (shared s) = Inr (idx, sh) \<Longrightarrow> idx < fst (shape (shared s))"
  by (auto simp: pool_typed_def shape_def tmp_pick_def split: if_splits)

lemma tmp_victim_range:
  "pool_typed s \<Longrightarrow> tmp_victim (shared s) = Inr vic \<Longrightarrow> vic < fst (shape (shared s))"
  unfolding pool_typed_def shape_def tmp_victim_def policy_in_range_def
  by (auto split: if_splits dest!: spec [of _ "map (\<lambda>i. length (queues (shared s) ! i)) [0..<num_threads (cfg (shared s))]"])

lemma sub_step_typed: "sub_step s t \<Longrightarrow> pool_typed s \<Longrightarrow> pool_typed t"
  by (induction rule: sub_step.induct) (auto intro!: pool_typed_set tmp_pick_range simp: shape_ops)

lemma wrk_step_typed: "wrk_step spurious s t \<Longrightarrow> pool_typed s \<Longrightarrow> pool_typed t"
  by (induction rule: wrk_step.induct) (auto intro!: pool_typed_set tmp_victim_range simp: shape_ops)

lemma dtor_step_typed: "dtor_step s t \<Longrightarrow> pool_typed s \<Longrightarrow> pool_typed t"
  by (induction rule: dtor_step.induct) simp_all

lemma pool_start_typed:
  "0 < num_threads c \<Longrightarrow> (case cfg_steal_policy c of None \<Rightarrow> True | Some p \<Rightarrow> policy_in_range p) \<Longrightarrow>
   pool_typed (pool_start c now n)"
  by (auto simp: pool_typed_def pool_start_def shape_def tmp_new_def list_all_iff DefaultStealPolicy_in_range
      split: option.splits)

interpretation pool_types: inductive_invariant
  "\<lambda>s. s = pool_start c now n \<and> 0 < num_threads c \<and> (case cfg_steal_policy c of None \<Rightarrow> True | Some p \<Rightarrow> policy_in_range p)"
  "pool_step spurious" pool_typed
  by unfold_locales (auto simp: pool_start_typed pool_step_def intro: sub_step_typed wrk_step_typed dtor_step_typed)

text \<open>In a typed pool no operation of a thread faults.\<close>

lemma typed_ops:
  assumes "pool_typed s"
  shows "\<exists>idx sh. tmp_pick (shared s) = Inr (idx, sh)"
    and "at_sub s i (SPush idx ti) \<Longrightarrow> \<exists>sh. tmp_push idx ti (shared s) = Inr sh"
    and "at_wrk s i pc \<Longrightarrow> \<exists>got sh. tmp_own i (shared s) = Inr (got, sh)"
    and "\<exists>vic. tmp_victim (shared s) = Inr vic"
    and "at_wrk s i (WSteal vic) \<Longrightarrow> \<exists>got sh. tmp_steal vic (shared s) = Inr (got, sh)"
proof -
  note [simp] = pool_typed_def shape_def at_sub_def at_wrk_def list_all_length
  show "\<exists>idx sh. tmp_pick (shared s) = Inr (idx, sh)" "\<exists>vic. tmp_victim (shared s) = Inr vic"
    using assms by (auto simp: tmp_pick_def tmp_victim_def)
  show "at_sub s i (SPush idx ti) \<Longrightarrow> \<exists>sh. tmp_push idx ti (shared s) = Inr sh"
    using assms by (auto simp: tmp_push_def Let_def)
  show "at_wrk s i pc \<Longrightarrow> \<exists>got sh. tmp_own i (shared s) = Inr (got, sh)"
    using assms by (auto simp: tmp_own_def split: list.splits)
  show "at_wrk s i (WSteal vic) \<Longrightarrow> \<exists>got sh. tmp_steal vic (shared s) = Inr (got, sh)"
    using assms by (auto simp: tmp_steal_def)
qed

lemma subs_set_sub [simp]: "i < length (subs s) \<Longrightarrow> subs (set_sub i pc s) ! i = pc"
  by (simp add: set_sub_def)

lemma wrks_set_wrk [simp]: "i < length (wrks s) \<Longrightarrow> wrks (set_wrk i pc s) ! i = pc"
  by (simp add: set_wrk_def)

lemma sub_progress:
  assumes "pool_typed s" and "at_sub s i pc" and "pc = SSignal \<Longrightarrow> mutex_free s"
  shows "\<exists>t. sub_step s t \<and> subs t ! i \<noteq> pc"
proof (cases pc)
  case SIdle
  with assms(2) sub_load [of s i undefined] show ?thesis by (intro exI conjI) (auto simp: at_sub_def split: if_splits)
next
  case SDrop
  with assms(2) sub_drop [of s i] show ?thesis by (intro exI conjI) (auto simp: at_sub_def)
next
  case (SChosen ti)
  obtain idx sh where "tmp_pick (shared s) = Inr (idx, sh)" using typed_ops(1) [OF assms(1)] by blast
  from sub_pick [OF _ this, of i ti] SChosen assms(2) show ?thesis by (intro exI conjI) (auto simp: at_sub_def)
next
  case (SPush idx ti)
  obtain sh where "tmp_push idx ti (shared s) = Inr sh" using typed_ops(2) [OF assms(1)] assms(2) SPush by blast
  from sub_push [OF _ this, of i] SPush assms(2) show ?thesis by (intro exI conjI) (auto simp: at_sub_def)
next
  case SCount
  with assms(2) sub_count [of s i] show ?thesis by (intro exI conjI) (auto simp: at_sub_def)
next
  case SSignal
  with assms(2,3) sub_signal [of s i] show ?thesis by (intro exI conjI) (auto simp: at_sub_def signal_all_def)
qed

lemma wrk_progress:
  assumes "pool_typed s" and "at_wrk s i pc" and "pc \<noteq> WDone" and "pc \<noteq> WSleep"
    and "pc = WWoken \<or> pc = WLoop \<and> running (shared s) \<Longrightarrow> mutex_free s"
  shows "\<exists>t. wrk_step spurious s t \<and> wrks t ! i \<noteq> pc"
proof -
  note [simp] = at_wrk_def
  show ?thesis
  proof (cases pc)
    case WLoop
    then show ?thesis
    proof (cases "running (shared s)")
      case True
      with assms WLoop wrk_loop [of s i spurious] show ?thesis by (intro exI conjI) auto
    next
      case False
      with assms WLoop wrk_exit [of s i spurious] show ?thesis by (intro exI conjI) auto
    qed
  next
    case WTest
    with assms wrk_test [of s i spurious] show ?thesis by (intro exI conjI) (auto split: if_splits)
  next
    case WBlock
    with assms wrk_wait [of s i spurious] show ?thesis by (intro exI conjI) auto
  next
    case WWoken
    with assms wrk_woken [of s i spurious] show ?thesis by (intro exI conjI) auto
  next
    case WPop
    obtain got sh where "tmp_own i (shared s) = Inr (got, sh)" using typed_ops(3) [OF assms(1,2)] by blast
    with WPop assms(2) wrk_own [of s i _ sh spurious] wrk_none [of s i sh spurious] show ?thesis
      by (cases got) (force split: if_splits)+
  next
    case WVictim
    obtain vic where "tmp_victim (shared s) = Inr vic" using typed_ops(4) [OF assms(1)] by blast
    with WVictim assms(2) wrk_victim [of s i vic spurious] show ?thesis by (intro exI conjI) auto
  next
    case (WSteal vic)
    obtain got sh where "tmp_steal vic (shared s) = Inr (got, sh)" using typed_ops(5) [OF assms(1)] assms(2) WSteal by blast
    with WSteal assms(2) wrk_steal [of s i vic _ sh spurious] wrk_no_steal [of s i vic sh spurious] show ?thesis
      by (cases got) force+
  next
    case (WHold ti)
    with assms wrk_uncount [of s i ti spurious] show ?thesis by (intro exI conjI) auto
  next
    case (WRun ti)
    with assms wrk_run [of s i ti spurious] show ?thesis by (intro exI conjI) auto
  next
    case WDrops
    with assms wrk_drops [of s i spurious 0] show ?thesis by (intro exI conjI) auto
  qed (use assms in auto)
qed

subsection \<open>Properties\<close>



text \<open>
  The final callback. It is called once, when the destructor ends and every worker has returned, if one is set, and
  never before; whatever else the threads and the user do.
\<close>

theorem pool_final_callback:
  assumes "pl_new hw c now n = Inr s0" and "(pl_step spurious)\<^sup>*\<^sup>* s0 s"
  shows "final_calls s =
      (if dtor (pool_of s) = DDone then case final_callback s of None \<Rightarrow> [] | Some cb \<Rightarrow> [cb] else []) \<and>
    (dtor (pool_of s) = DDone \<longrightarrow> set (wrks (pool_of s)) \<subseteq> {WDone})"
proof -
  have "pl_inv s0" by (rule pl_new_inv [OF assms(1)])
  then have "pl_inv s" by (rule pool_life.steps_inv [OF assms(2)])
  then show ?thesis by (simp add: pl_inv_def split: if_splits)
qed

theorem pool_final_callback_witness:
  "\<exists>(s0 :: (char, unit, unit) pool_life) s.
     pl_new 4 (tmp_config_default 1) 0 0 = Inr s0 \<and> (pl_step False)\<^sup>*\<^sup>* s0 s \<and> final_calls s = [7]"
proof -
  define p0 :: "(char, unit, unit) pool" where "p0 = pool_start (tmp_config_default 1) 0 0"
  define p1 where "p1 = p0\<lparr>dtor := DStored, shared := (shared p0)\<lparr>running := False\<rparr>\<rparr>"
  define p2 where "p2 = set_wrk 0 WDone
    (p1\<lparr>shared := (shared p1)\<lparr>active_workers := active_workers (shared p1) - 1, stopped := True\<rparr>\<rparr>)"
  define p3 where "p3 = (signal_all p2)\<lparr>dtor := DDrain\<rparr>"
  define p4 where "p4 = p3\<lparr>dtor := DJoin\<rparr>"
  define p5 where "p5 = p4\<lparr>dtor := DDone, shared := (shared p4)\<lparr>stopped := True\<rparr>\<rparr>"
  let ?ini = "\<lparr>pool_of = p0, thread_affinity = None, final_callback = None, bound = [], final_calls = []\<rparr>"
  let ?s = "?ini\<lparr>final_callback := Some (7::nat)\<rparr>"
  have new: "pl_new 4 (tmp_config_default 1) 0 0 = Inr ?ini"
    by (simp add: pl_new_def p0_def bind_workers_default) (simp add: tmp_config_default_def)
  note [simp] = pool_start_def tmp_new_def tmp_config_default_def at_wrk_def set_wrk_def signal_all_def pl_defs
  have 0: "pl_step False ?ini ?s" using pl_set_final [of ?ini False 7] by (simp add: p0_def)
  have 1: "dtor_step p0 p1" unfolding p1_def by (rule dtor_store) (simp add: p0_def)
  have 2: "wrk_step False p1 p2" unfolding p2_def by (rule wrk_exit) (simp_all add: p1_def p0_def)
  have 3: "dtor_step p2 p3" unfolding p3_def by (rule dtor_signal) (simp add: p2_def p1_def)
  have 4: "dtor_step p3 p4" unfolding p4_def by (rule dtor_drain) (simp add: p3_def)
  have 5: "dtor_step p4 p5" unfolding p5_def
    by (rule dtor_join) (simp_all add: p4_def p3_def p2_def p1_def p0_def)
  let ?r = "\<lambda>p. ?s\<lparr>pool_of := p\<rparr>"
  have "pl_step False ?s (?r p1)" using pl_dtor [of ?s p1 False] 1 by (simp add: p1_def)
  moreover have "pl_step False (?r p1) (?r p2)" using pl_thread [of "?r p1" p2 False] 2 by simp
  moreover have "pl_step False (?r p2) (?r p3)" using pl_dtor [of "?r p2" p3 False] 3 by (simp add: p3_def)
  moreover have "pl_step False (?r p3) (?r p4)" using pl_dtor [of "?r p3" p4 False] 4 by (simp add: p4_def)
  moreover have "pl_step False (?r p4) (?r p5\<lparr>final_calls := [7]\<rparr>)" using pl_end [of "?r p4" p5 False] 5 by (simp add: p5_def)
  ultimately have r: "(pl_step False)\<^sup>*\<^sup>* ?ini (?r p5\<lparr>final_calls := [7]\<rparr>)"
    using 0 by (meson converse_rtranclp_into_rtranclp rtranclp.rtrancl_refl)
  moreover have "final_calls (?r p5\<lparr>final_calls := [7]\<rparr>) = [7]"
    using pool_final_callback [OF new r] by (simp add: p5_def)
  ultimately show ?thesis using new by blast
qed

text \<open>
  Thread affinity. When binding is asked for, worker \<open>i\<close> is bound to processor \<open>i mod hw\<close>. A hook set with
  \<^verbatim>\<open>SetThreadAffinity\<close> is never called: the only call is in the constructor, before the hook can be set.
\<close>

theorem pool_affinity:
  fixes s :: "('t, 'r, 'e) pool_life"
  assumes "reachable (\<lambda>s. pl_new hw c now n = Inr s) (pl_step spurious) s"
  shows "bound s = (if bind_threads c then map (\<lambda>i. ByDefault i (i mod hw)) [0..<num_threads c] else [])"
  by (rule pool_bound.reachable_inv [OF assms])

theorem pool_affinity_witness:
  "\<exists>s :: (char, unit, unit) pool_life. thread_affinity s = Some 3 \<and>
     bound s = [ByDefault 0 0, ByDefault 1 1, ByDefault 2 0]"
proof -
  let ?c = "(tmp_config_default 3)\<lparr>bind_threads := True\<rparr>"
  have "\<exists>s0 :: (char, unit, unit) pool_life. pl_new 2 ?c 0 0 = Inr s0 \<and> dtor (pool_of s0) = DNone"
    by (simp add: pl_new_def bind_workers_default tmp_config_default_def pool_start_def)
  then obtain s0 :: "(char, unit, unit) pool_life"
    where s0: "pl_new 2 ?c 0 0 = Inr s0" "dtor (pool_of s0) = DNone" by blast
  have "reachable (\<lambda>s. pl_new 2 ?c 0 0 = Inr s) (pl_step False) s0" by (rule reachable_init) (rule s0)
  then have "reachable (\<lambda>s. pl_new 2 ?c 0 0 = Inr s) (pl_step False) (pl_SetThreadAffinity 3 s0)"
    by (rule reachable_step) (rule pl_set_affinity [OF s0(2)])
  from pool_affinity [OF this] show ?thesis
    by (intro exI [of _ "pl_SetThreadAffinity 3 s0"])
      (simp add: pl_SetThreadAffinity_def tmp_config_default_def upt_conv_Cons)
qed

text \<open>
  When a submission faults. Exactly when the circuit breaker lets it pass and the queue it picks does not
  exist: with no threads configured the index computation divides by zero (or the first queue is
  missing); with more threads configured than there are queues, as after an update of the configuration of
  a running pool, the round robin runs past the last queue.
\<close>

theorem tmp_submit_faults_iff:
  "(\<exists>e. tmp_SubmitImpl item ws (tmp_UpdateConfig c s) = Inl e) \<longleftrightarrow>
     \<not> tmp_trips c (tasks_in_queue s) \<and>
     (if mode c = FIFO then queues s = []
      else num_threads c = 0 \<or> length (queues s) \<le> unat (rr_index s) mod num_threads c)"
  by (auto simp: tmp_SubmitImpl_def tmp_UpdateConfig_def tmp_pick_def tmp_push_def Let_def)

end
