(* ===== verification/Pool_Shutdown.thy ===== *)
theory Pool_Shutdown
  imports Pool_Life
begin

text \<open>
  How the shutdown of a \<^verbatim>\<open>TaskMultiProcessor\<close> ends (\<^verbatim>\<open>src/src/vectro/pool/task_multi_processor.h\<close>). Once the
  destructor has cleared \<^verbatim>\<open>running_\<close>, every step of a worker brings it closer to its exit: \<open>rank\<close> is a
  measure that each worker step decreases and that no other thread increases. With
  type safety this gives the destructor's return whenever no worker has missed the signal; the case of a missed one is
  \<open>pool_destructor_hangs\<close> of \<open>Task_Concurrency\<close>.
\<close>

fun rank :: "('t, 'r, 'e) wrk_pc \<Rightarrow> nat" where
  "rank WDone = 0"
| "rank WLoop = 1"
| "rank WDrops = 2"
| "rank (WRun ti) = 3"
| "rank (WHold ti) = 4"
| "rank (WSteal vic) = 5"
| "rank WVictim = 6"
| "rank WPop = 7"
| "rank WTest = 8"
| "rank WWoken = 9"
| "rank WSleep = 10"
| "rank WBlock = 11"

definition pool_rank :: "('t, 'r, 'e) pool \<Rightarrow> nat" where
  "pool_rank s = sum_list (map rank (wrks s))"

lemma rank_le: "rank pc \<le> 11"
  by (cases pc) simp_all

lemma rank_wake: "rank (wake pc) \<le> rank pc"
  by (cases pc) simp_all

lemma pool_rank_le: "pool_rank s \<le> 11 * length (wrks s)"
proof -
  have "sum_list (map rank pcs) \<le> 11 * length pcs" for pcs :: "('a, 'b, 'c) wrk_pc list"
    by (induction pcs) (auto intro: add_mono rank_le)
  then show ?thesis by (simp add: pool_rank_def)
qed

lemma pool_rank_set_wrk:
  "at_wrk s i pc \<Longrightarrow> rank pc' < rank pc \<Longrightarrow> pool_rank (set_wrk i pc' s) < pool_rank s"
  using sum_list_set_nth [of i "wrks s" rank pc'] by (auto simp: at_wrk_def set_wrk_def pool_rank_def)

lemma at_wrk_shared [simp]: "at_wrk (s\<lparr>shared := sh\<rparr>) i pc = at_wrk s i pc"
  by (simp add: at_wrk_def)

lemma pool_rank_shared [simp]: "pool_rank (s\<lparr>shared := sh\<rparr>) = pool_rank s"
  by (simp add: pool_rank_def)

lemma pool_rank_set_wrk_shared:
  "at_wrk s i pc \<Longrightarrow> rank pc' < rank pc \<Longrightarrow> pool_rank (set_wrk i pc' (s\<lparr>shared := sh\<rparr>)) < pool_rank s"
  using pool_rank_set_wrk [of "s\<lparr>shared := sh\<rparr>" i pc pc'] by simp

text \<open>After \<^verbatim>\<open>running_\<close> is cleared, every worker step decreases the measure.\<close>

lemma wrk_step_rank: "wrk_step spurious s t \<Longrightarrow> \<not> running (shared s) \<Longrightarrow> pool_rank t < pool_rank s"
  by (induction rule: wrk_step.induct)
    (auto intro: pool_rank_set_wrk pool_rank_set_wrk_shared)

lemma signal_rank: "pool_rank (signal_all s) \<le> pool_rank s"
proof -
  have "sum_list (map rank (map wake pcs)) \<le> sum_list (map rank pcs)" for pcs :: "('a, 'b, 'c) wrk_pc list"
    by (induction pcs) (auto intro: add_mono rank_wake)
  then show ?thesis by (simp add: pool_rank_def signal_all_def)
qed

lemma sub_step_rank: "sub_step s t \<Longrightarrow> pool_rank t \<le> pool_rank s"
  by (induction rule: sub_step.induct) (auto simp: set_sub_def pool_rank_def intro: signal_rank [unfolded pool_rank_def])

lemma dtor_step_rank: "dtor_step s t \<Longrightarrow> pool_rank t \<le> pool_rank s"
  by (induction rule: dtor_step.induct) (use signal_rank in \<open>auto simp: pool_rank_def\<close>)

subsection \<open>The counter of the workers\<close>

definition undone :: "('t, 'r, 'e) wrk_pc \<Rightarrow> nat" where
  "undone pc = (if pc = WDone then 0 else 1)"

text \<open>\<^verbatim>\<open>active_workers_\<close> counts the workers that have not returned, and a destructor that began has cleared \<^verbatim>\<open>running_\<close>.\<close>

definition pool_down :: "('t, 'r, 'e) pool \<Rightarrow> bool" where
  "pool_down s \<longleftrightarrow>
     active_workers (shared s) = of_nat (sum_list (map undone (wrks s))) \<and>
     (dtor s = DNone \<or> \<not> running (shared s))"

lemma undone_wake [simp]: "undone (wake pc) = undone pc"
  by (cases pc) (simp_all add: undone_def)

lemma active_workers_fields [simp]:
  "active_workers (tmp_counted sh) = active_workers sh" "active_workers (tmp_uncounted sh) = active_workers sh"
  "active_workers (tmp_HandleDrops now sh) = active_workers sh" "active_workers (tmp_run ti sh) = active_workers sh"
proof -
  have "active_workers (fold (run_wrapper p) ws s) = active_workers s" for p ws and s :: "('a, 'b, 'c) tmp"
  proof (induction ws arbitrary: s)
    case (Cons w ws)
    then show ?case by (cases w) simp_all
  qed simp
  then show "active_workers (tmp_run ti sh) = active_workers sh" by (simp add: tmp_run_def Let_def)
qed (simp_all add: tmp_counted_def tmp_uncounted_def tmp_HandleDrops_def Let_def)

lemma ops_down:
  "tmp_pick sh = Inr (idx, sh') \<Longrightarrow> active_workers sh' = active_workers sh \<and> running sh' = running sh"
  "tmp_push idx ti sh = Inr sh' \<Longrightarrow> active_workers sh' = active_workers sh \<and> running sh' = running sh"
  "tmp_own i sh = Inr (got, sh') \<Longrightarrow> active_workers sh' = active_workers sh \<and> running sh' = running sh"
  "tmp_steal vic sh = Inr (got, sh') \<Longrightarrow> active_workers sh' = active_workers sh \<and> running sh' = running sh"
  by (auto simp: tmp_pick_def tmp_push_def tmp_own_def tmp_steal_def Let_def split: if_splits list.splits)

lemma undone_set_wrk:
  "at_wrk s i pc \<Longrightarrow> pc \<noteq> WDone \<Longrightarrow> pc' \<noteq> WDone \<Longrightarrow>
     sum_list (map undone ((wrks s)[i := pc'])) = sum_list (map undone (wrks s))"
  "at_wrk s i pc \<Longrightarrow> pc \<noteq> WDone \<Longrightarrow>
     Suc (sum_list (map undone ((wrks s)[i := WDone]))) = sum_list (map undone (wrks s))"
  using sum_list_set_nth [of i "wrks s" undone pc'] sum_list_set_nth [of i "wrks s" undone WDone]
  by (auto simp: at_wrk_def undone_def)

lemma pool_down_set_wrk:
  "at_wrk s i pc \<Longrightarrow> pc \<noteq> WDone \<Longrightarrow> pc' \<noteq> WDone \<Longrightarrow> pool_down s \<Longrightarrow> pool_down (set_wrk i pc' s)"
  using undone_set_wrk(1) [of s i pc pc'] by (simp add: pool_down_def set_wrk_def)

lemma pool_down_shared:
  "pool_down s \<Longrightarrow> active_workers sh = active_workers (shared s) \<and> running sh = running (shared s) \<Longrightarrow>
   pool_down (s\<lparr>shared := sh\<rparr>)"
  by (simp add: pool_down_def)

lemma sub_step_down: "sub_step s t \<Longrightarrow> pool_down s \<Longrightarrow> pool_down t"
  by (induction rule: sub_step.induct)
    (auto simp: pool_down_def set_sub_def signal_all_def comp_def dest: ops_down)

lemma wrk_step_down: "wrk_step spurious s t \<Longrightarrow> pool_down s \<Longrightarrow> pool_down t"
proof (induction rule: wrk_step.induct)
  case (wrk_exit s i)
  then show ?case
    using undone_set_wrk(2) [OF wrk_exit(1), symmetric] by (simp add: pool_down_def set_wrk_def)
qed (auto intro!: pool_down_set_wrk pool_down_shared dest: ops_down)

lemma dtor_step_down: "dtor_step s t \<Longrightarrow> pool_down s \<Longrightarrow> pool_down t"
  by (induction rule: dtor_step.induct) (auto simp: pool_down_def signal_all_def comp_def)

interpretation pool_downs: inductive_invariant "\<lambda>s. s = pool_start c now n" "pool_step spurious" pool_down
proof
  show "pool_down s" if "s = pool_start c now n" for s :: "('a, 'b, 'c) pool"
    using that by (simp add: pool_down_def pool_start_def tmp_new_def undone_def sum_list_replicate)
qed (auto simp: pool_step_def intro: sub_step_down wrk_step_down dtor_step_down)

subsection \<open>The workers return\<close>

text \<open>No worker sleeps or is about to.\<close>

definition all_awake :: "('t, 'r, 'e) pool \<Rightarrow> bool" where
  "all_awake s \<longleftrightarrow> WBlock \<notin> set (wrks s) \<and> WSleep \<notin> set (wrks s)"

lemma all_awake_set_wrk: "all_awake s \<Longrightarrow> pc \<noteq> WBlock \<Longrightarrow> pc \<noteq> WSleep \<Longrightarrow> all_awake (set_wrk i pc s)"
  by (auto simp: all_awake_def set_wrk_def dest: set_update_subset_insert [THEN subsetD])

lemma all_awake_shared [simp]: "all_awake (s\<lparr>shared := sh\<rparr>) = all_awake s"
  by (simp add: all_awake_def)

lemma wrk_step_all_awake: "wrk_step spurious s t \<Longrightarrow> \<not> running (shared s) \<Longrightarrow> all_awake s \<Longrightarrow> all_awake t"
proof (induction rule: wrk_step.induct)
  case (wrk_wait s i)
  then show ?case by (auto simp: all_awake_def at_wrk_def dest: nth_mem)
qed (auto intro!: all_awake_set_wrk)

lemma wrk_step_running: "wrk_step spurious s t \<Longrightarrow> running (shared t) = running (shared s)"
  by (induction rule: wrk_step.induct) (auto dest: ops_down)

lemma shutdown_progress:
  assumes "pool_typed s" and "\<not> running (shared s)" and "all_awake s" and "\<not> set (wrks s) \<subseteq> {WDone}"
  shows "\<exists>t. wrk_step spurious s t"
proof (cases "WTest \<in> set (wrks s)")
  case True
  then obtain i where "at_wrk s i WTest" by (auto simp: at_wrk_def in_set_conv_nth)
  then show ?thesis by (blast intro: wrk_test)
next
  case False
  with assms(3) have free: "mutex_free s" by (simp add: mutex_free_def all_awake_def)
  from assms(4) obtain i where i: "i < length (wrks s)" "wrks s ! i \<noteq> WDone"
    by (metis in_set_conv_nth singleton_iff subsetI)
  with assms(3) have "wrks s ! i \<noteq> WSleep" by (auto simp: all_awake_def dest: nth_mem)
  with wrk_progress [OF assms(1) _ i(2), of i spurious] i(1) free show ?thesis by (auto simp: at_wrk_def)
qed

lemma workers_return:
  assumes "pool_typed s" and "pool_down s" and "\<not> running (shared s)" and "all_awake s"
  shows "\<exists>t. (wrk_step spurious)\<^sup>*\<^sup>* s t \<and> set (wrks t) \<subseteq> {WDone} \<and> pool_down t \<and> dtor t = dtor s"
  using assms
proof (induction "pool_rank s" arbitrary: s rule: less_induct)
  case less
  show ?case
  proof (cases "set (wrks s) \<subseteq> {WDone}")
    case True
    with less.prems show ?thesis by (intro exI [of _ s]) simp
  next
    case False
    then obtain u where u: "wrk_step spurious s u"
      using shutdown_progress less.prems by blast
    have "\<exists>t. (wrk_step spurious)\<^sup>*\<^sup>* u t \<and> set (wrks t) \<subseteq> {WDone} \<and> pool_down t \<and> dtor t = dtor u"
      using u less.prems
      by (intro less.hyps)
        (simp_all add: wrk_step_rank wrk_step_typed wrk_step_down wrk_step_running wrk_step_all_awake)
    with u wrk_step_dtor [OF u] show ?thesis by (auto intro: converse_rtranclp_into_rtranclp)
  qed
qed

lemma all_done_undone: "set pcs \<subseteq> {WDone} \<Longrightarrow> sum_list (map undone pcs) = 0"
  by (induction pcs) (auto simp: undone_def)

lemma all_done_active: "pool_down s \<Longrightarrow> set (wrks s) \<subseteq> {WDone} \<Longrightarrow> active_workers (shared s) = 0"
  unfolding pool_down_def by (simp only: all_done_undone) simp

subsection \<open>Properties\<close>

text \<open>
  C39. The workers terminate. From a state in which \<^verbatim>\<open>running_\<close> is false, the workers together take at most eleven
  steps per thread, whatever is queued: the loop of \<^verbatim>\<open>ProcessLoop\<close> cannot go on forever.
\<close>

theorem pool_workers_terminate:
  assumes "\<not> running (shared s)" and "(wrk_step spurious ^^ k) s t"
  shows "k + pool_rank t \<le> 11 * length (wrks s)"
proof -
  have "k + pool_rank t \<le> pool_rank s"
    using assms
  proof (induction k arbitrary: s)
    case (Suc k)
    then obtain u where u: "wrk_step spurious s u" "(wrk_step spurious ^^ k) u t" by (metis relpowp_Suc_D2)
    from Suc.IH [OF _ u(2)] wrk_step_rank [OF u(1)] wrk_step_running [OF u(1)] Suc.prems(1) show ?case by simp
  qed simp
  with pool_rank_le [of s] show ?thesis by simp
qed

text \<open>
  C16. The destructor returns. If, once it has signalled, no worker sleeps or is about to (no one has missed
  the signal), then the steps of the workers and its own lead to its end, with every worker returned, whatever
  submissions were made before and whatever is still queued.
\<close>

theorem pool_destructor_returns:
  fixes s :: "('t, 'r, 'e) pool"
  assumes "reachable (\<lambda>s. s = pool_start c now n) (pool_step spurious) s" and "0 < num_threads c"
    and "case cfg_steal_policy c of None \<Rightarrow> True | Some p \<Rightarrow> policy_in_range p"
    and "dtor s = DDrain \<or> dtor s = DJoin" and "all_awake s"
  shows "\<exists>t. (\<lambda>s t. wrk_step spurious s t \<or> dtor_step s t)\<^sup>*\<^sup>* s t \<and> dtor t = DDone \<and> set (wrks t) \<subseteq> {WDone}"
proof -
  let ?R = "\<lambda>s t :: ('t, 'r, 'e) pool. wrk_step spurious s t \<or> dtor_step s t"
  have "reachable (\<lambda>s. s = pool_start c now n \<and> 0 < num_threads c \<and>
      (case cfg_steal_policy c of None \<Rightarrow> True | Some p \<Rightarrow> policy_in_range p)) (pool_step spurious) s"
    using assms by simp
  then have "pool_typed s" by (rule pool_types.reachable_inv)
  moreover have down: "pool_down s" by (rule pool_downs.reachable_inv [OF assms(1)])
  ultimately obtain u where u: "(wrk_step spurious)\<^sup>*\<^sup>* s u" "set (wrks u) \<subseteq> {WDone}" "pool_down u" "dtor u = dtor s"
    using workers_return assms(4,5) by (fastforce simp: pool_down_def)
  have su: "(?R)\<^sup>*\<^sup>* s u" using u(1) by (rule rtranclp_mono [THEN predicate2D, rotated]) auto
  have "\<exists>v. (?R)\<^sup>*\<^sup>* u v \<and> dtor v = DJoin \<and> wrks v = wrks u \<and> shared v = shared u"
  proof (cases "dtor u = DDrain")
    case True
    then have "?R u (u\<lparr>dtor := DJoin\<rparr>)" by (simp add: dtor_drain)
    then show ?thesis by (intro exI [of _ "u\<lparr>dtor := DJoin\<rparr>"]) (simp add: r_into_rtranclp)
  next
    case False
    with assms(4) u(4) show ?thesis by (intro exI [of _ u]) simp
  qed
  then obtain v where v: "(?R)\<^sup>*\<^sup>* u v" "dtor v = DJoin" "wrks v = wrks u" "shared v = shared u" by blast
  let ?t = "v\<lparr>dtor := DDone, shared := (shared v)\<lparr>stopped := True\<rparr>\<rparr>"
  have "?R v ?t" using dtor_join [OF v(2)] u(2) v(3,4) all_done_active [OF u(3,2)] by simp
  with v(1) have "(?R)\<^sup>*\<^sup>* u ?t" by (rule rtranclp.rtrancl_into_rtrancl)
  with su have "(?R)\<^sup>*\<^sup>* s ?t" by (rule rtranclp_trans)
  moreover have "dtor ?t = DDone" "set (wrks ?t) \<subseteq> {WDone}" using u(2) v(3) by simp_all
  ultimately show ?thesis by blast
qed

text \<open>A pool of two workers whose destructor has signalled while both were between two turns.\<close>

definition demo_down :: "(char, unit, unit) pool" where
  "demo_down = (pool_start (tmp_config_default 2) 0 0)
     \<lparr>shared := (tmp_new (tmp_config_default 2) 0)\<lparr>running := False\<rparr>, dtor := DDrain\<rparr>"

lemma demo_down_reachable: "reachable (\<lambda>s. s = pool_start (tmp_config_default 2) 0 0) (pool_step False) demo_down"
proof -
  let ?s = "pool_start (tmp_config_default 2) 0 0 :: (char, unit, unit) pool"
  let ?s1 = "?s\<lparr>dtor := DStored, shared := (shared ?s)\<lparr>running := False\<rparr>\<rparr>"
  have "reachable (\<lambda>s. s = ?s) (pool_step False) ?s" by (rule reachable_init) simp
  then have "reachable (\<lambda>s. s = ?s) (pool_step False) ?s1"
    by (rule pool_dtor) (rule dtor_store, simp add: pool_start_def)
  then have "reachable (\<lambda>s. s = ?s) (pool_step False) ((signal_all ?s1)\<lparr>dtor := DDrain\<rparr>)"
    by (rule pool_dtor) (rule dtor_signal, simp)
  moreover have "(signal_all ?s1)\<lparr>dtor := DDrain\<rparr> = demo_down"
    by (simp add: demo_down_def signal_all_def pool_start_def tmp_config_default_def)
  ultimately show ?thesis by simp
qed

theorem pool_destructor_returns_witness:
  "\<exists>t. (\<lambda>s t. wrk_step False s t \<or> dtor_step s t)\<^sup>*\<^sup>* demo_down t \<and> dtor t = DDone"
  using pool_destructor_returns [OF demo_down_reachable]
  by (auto simp: demo_down_def all_awake_def pool_start_def tmp_config_default_def)

theorem pool_workers_terminate_witness:
  "\<exists>t. (wrk_step False ^^ 1) demo_down t \<and> 1 + pool_rank t \<le> 22"
proof -
  have d: "\<not> running (shared demo_down)" "length (wrks demo_down) = 2"
    by (simp_all add: demo_down_def pool_start_def tmp_config_default_def)
  have "at_wrk demo_down 0 WLoop" by (simp add: demo_down_def pool_start_def tmp_config_default_def at_wrk_def)
  from wrk_exit [OF this d(1)] obtain t where t: "(wrk_step False ^^ 1) demo_down t" by (auto simp: relpowp_1)
  from pool_workers_terminate [OF d(1) t] t d(2) show ?thesis by auto
qed

end
