(* ===== verification/Pool_Progress.thy ===== *)
theory Pool_Progress
  imports Pool_Shutdown
begin

text \<open>
  A running \<^verbatim>\<open>TaskMultiProcessor\<close> (\<^verbatim>\<open>src/src/vectro/pool/task_multi_processor.h\<close>) gets its work done. A submitter
  counts its task before it signals under \<^verbatim>\<open>mutex_\<close>, and a worker tests the counter under \<^verbatim>\<open>mutex_\<close> before it
  waits: no wake-up is lost while submitters work, although the counter may be off (and may even wrap below
  zero) in between. So once the submitters are idle no worker sleeps over a queued task, and the workers can
  execute everything. (The destructor signals without \<^verbatim>\<open>mutex_\<close>: \<open>pool_destructor_hangs\<close>.)
\<close>

subsection \<open>Who will wake a sleeping worker\<close>

definition asleep :: "('t, 'r, 'e) wrk_pc \<Rightarrow> bool" where
  "asleep pc \<longleftrightarrow> pc = WSleep \<or> pc = WBlock"

definition signals :: "('t, 'r, 'e) sub_pc \<Rightarrow> bool" where
  "signals pc \<longleftrightarrow> pc = SCount \<or> pc = SSignal"

text \<open>
  A worker sleeps, or is about to, while the counter is not zero only if a submitter is about to count
  its task or to signal.
\<close>

definition pool_watched :: "('t, 'r, 'e) pool \<Rightarrow> bool" where
  "pool_watched s \<longleftrightarrow>
     list_ex asleep (wrks s) \<and> tasks_in_queue (shared s) \<noteq> 0 \<longrightarrow> list_ex signals (subs s)"

lemma all_awake_asleep: "all_awake s \<longleftrightarrow> \<not> list_ex asleep (wrks s)"
  by (auto simp: all_awake_def list_ex_iff asleep_def)

lemma asleep_simps [simp]:
  "\<not> asleep WLoop" "\<not> asleep WTest" "asleep WBlock" "asleep WSleep" "\<not> asleep WWoken" "\<not> asleep WPop"
  "\<not> asleep WVictim" "\<not> asleep (WSteal v)" "\<not> asleep (WHold ti)" "\<not> asleep (WRun ti)" "\<not> asleep WDrops" "\<not> asleep WDone"
  "signals SCount" "signals SSignal" "\<not> signals SIdle" "\<not> signals SDrop" "\<not> signals (SChosen ti)" "\<not> signals (SPush k ti)"
  by (simp_all add: asleep_def signals_def)

lemma signals_set_sub:
  assumes "list_ex signals (subs s)" and "at_sub s i pc" and "\<not> signals pc \<or> signals pc'"
  shows "list_ex signals ((subs s)[i := pc'])"
proof -
  from assms(1) obtain j where j: "j < length (subs s)" "signals (subs s ! j)" by (auto simp: list_ex_length)
  with assms(2,3) have "signals ((subs s)[i := pc'] ! j)"
    by (auto simp: at_sub_def nth_list_update)
  with j(1) show ?thesis by (auto simp: list_ex_length)
qed

lemma uncounted_signals: "0 < uncounted s \<Longrightarrow> list_ex signals (subs s)"
proof -
  have "0 < sum_list (map is_count pcs) \<Longrightarrow> list_ex signals pcs" for pcs :: "('t, 'r, 'e) sub_pc list"
  proof (induction pcs)
    case (Cons pc pcs)
    then show ?case by (cases pc) auto
  qed simp
  then show "0 < uncounted s \<Longrightarrow> list_ex signals (subs s)" by (simp add: uncounted_def)
qed

text \<open>The tasks that are queued or still counted are among the pushed ones.\<close>

lemma overcounted_le: "overcounted s \<le> length (in_hand s)"
proof -
  have "sum_list (map is_hold pcs) \<le> length (concat (map hand pcs))" for pcs :: "('t, 'r, 'e) wrk_pc list"
  proof (induction pcs)
    case (Cons pc pcs)
    then show ?case by (cases pc) auto
  qed simp
  then show ?thesis by (simp add: overcounted_def in_hand_def)
qed

lemma keeps_length: "pool_keeps s \<Longrightarrow> length (pushed s) = length (queued (shared s)) + length (in_hand s) + length (executed (shared s))"
  by (metis pool_keeps_def size_mset size_union)

lemma no_uncounted:
  assumes "pool_keeps s" and "pool_counts s" and "length (pushed s) < 2 ^ 64" and "uncounted s = 0"
  shows "tasks_in_queue (shared s) = 0 \<longleftrightarrow> queued (shared s) = [] \<and> overcounted s = 0"
proof -
  let ?k = "length (queued (shared s)) + overcounted s"
  have "?k < 2 ^ 64" using keeps_length [OF assms(1)] overcounted_le [of s] assms(3) by simp
  then have "(of_nat ?k :: u64) = of_nat 0 \<longleftrightarrow> ?k = 0" by (intro of_nat_u64_inj) auto
  moreover have "tasks_in_queue (shared s) = of_nat ?k" using assms(2,4) by (simp add: pool_counts_def)
  ultimately show ?thesis by auto
qed

lemma watched_sub: "sub_step s t \<Longrightarrow> pool_watched s \<Longrightarrow> pool_watched t"
proof (induction rule: sub_step.induct)
  case (sub_count s i)
  then have "list_ex signals ((subs s)[i := SSignal])"
    by (auto simp: at_sub_def list_ex_iff intro!: bexI [of _ SSignal] set_update_memI)
  then show ?case by (simp add: pool_watched_def set_sub_def)
next
  case (sub_signal s i)
  then have "\<not> list_ex asleep (map wake (wrks s))"
    by (auto simp: mutex_free_def list_ex_iff asleep_def elim: wake.elims)
  then show ?case by (simp add: pool_watched_def set_sub_def signal_all_def)
next
  case (sub_pick s i ti idx sh)
  then show ?case using tmp_pick_effect [OF sub_pick(2)]
    by (auto simp: pool_watched_def set_sub_def intro: signals_set_sub)
next
  case (sub_push s i idx ti sh)
  then show ?case using tmp_push_effect [OF sub_push(2)]
    by (auto simp: pool_watched_def set_sub_def intro: signals_set_sub)
qed (auto simp: pool_watched_def set_sub_def intro: signals_set_sub split: if_splits)

lemma watched_set_wrk:
  assumes "pool_watched s" and "at_wrk s i pc" and "\<not> asleep pc' \<or> asleep pc"
    and "tasks_in_queue sh = tasks_in_queue (shared s)"
  shows "pool_watched (set_wrk i pc' (s\<lparr>shared := sh\<rparr>))"
proof -
  have "list_ex asleep (wrks s)" if "list_ex asleep ((wrks s)[i := pc'])"
    using that assms(2,3) by (auto simp: list_ex_iff at_wrk_def dest!: set_update_mem intro: nth_mem)
  with assms(1,4) show ?thesis by (auto simp: pool_watched_def set_wrk_def)
qed

lemma watched_set_wrk':
  assumes "pool_watched s" and "at_wrk s i pc" and "\<not> asleep pc' \<or> asleep pc"
  shows "pool_watched (set_wrk i pc' s)"
  using watched_set_wrk [OF assms, of "shared s"] by simp

lemma watched_wrk:
  "wrk_step spurious s t \<Longrightarrow> pool_keeps s \<Longrightarrow> pool_counts s \<Longrightarrow> length (pushed s) < 2 ^ 64 \<Longrightarrow> pool_watched s \<Longrightarrow> pool_watched t"
proof (induction rule: wrk_step.induct)
  case (wrk_test s i)
  show ?case
  proof (cases "tasks_in_queue (shared s) = 0")
    case True
    then show ?thesis by (simp add: pool_watched_def set_wrk_def)
  next
    case False
    with wrk_test show ?thesis by (auto intro: watched_set_wrk')
  qed
next
  case (wrk_uncount s i ti)
  have hold: "0 < overcounted s"
    using overcounted_set_wrk(2) [OF wrk_uncount(1), of WLoop] by simp
  have "list_ex signals (subs s)" if "tasks_in_queue (shared s) = 0"
    using that hold no_uncounted [OF wrk_uncount(2-4)] uncounted_signals [of s] by (cases "uncounted s = 0") auto
  with watched_set_wrk' [OF wrk_uncount(5,1), of "WRun ti"] show ?case
    by (auto simp: pool_watched_def set_wrk_def)
next
  case (wrk_own s i ti sh)
  then show ?case using tmp_own_effect [OF wrk_own(2)] by (auto intro: watched_set_wrk)
next
  case (wrk_steal s i vic ti sh)
  then show ?case using tmp_steal_effect [OF wrk_steal(2)] by (auto intro: watched_set_wrk)
next
  case (wrk_none s i sh)
  then show ?case using tmp_own_none [OF wrk_none(2)] by (auto intro: watched_set_wrk')
next
  case (wrk_no_steal s i vic sh)
  then show ?case using tmp_steal_none [OF wrk_no_steal(2)] by (auto intro: watched_set_wrk')
qed (auto intro: watched_set_wrk watched_set_wrk')

lemma watched_dtor: "dtor_step s t \<Longrightarrow> pool_watched s \<Longrightarrow> pool_watched t"
  by (induction rule: dtor_step.induct)
    (auto simp: pool_watched_def signal_all_def list_ex_iff asleep_def elim: wake.elims)

text \<open>The pushed tasks only grow, so a bound on them holds of every earlier state.\<close>

lemma pool_step_pushed: "pool_step spurious s t \<Longrightarrow> length (pushed s) \<le> length (pushed t)"
  by (auto simp: pool_step_def set_sub_def signal_all_def elim!: sub_step.cases wrk_step.cases dtor_step.cases)

definition pool_sound :: "('t, 'r, 'e) pool \<Rightarrow> bool" where
  "pool_sound s \<longleftrightarrow>
     pool_keeps s \<and> pool_counts s \<and> (length (pushed s) < 2 ^ 64 \<longrightarrow> pool_watched s) \<and>
     (running (shared s) \<longrightarrow> WDone \<notin> set (wrks s)) \<and> (dtor s = DNone \<longrightarrow> running (shared s))"

lemma wake_WDone [simp]: "wake pc = WDone \<longleftrightarrow> pc = WDone" "WDone = wake pc \<longleftrightarrow> pc = WDone"
  by (cases pc; simp)+

lemma sub_step_live:
  "sub_step s t \<Longrightarrow> running (shared t) = running (shared s) \<and> dtor t = dtor s \<and> (WDone \<in> set (wrks t) \<longleftrightarrow> WDone \<in> set (wrks s))"
  by (induction rule: sub_step.induct) (auto simp: signal_all_def image_iff dest: ops_down)

lemma wrk_step_live:
  "wrk_step spurious s t \<Longrightarrow> running (shared s) \<Longrightarrow> WDone \<notin> set (wrks s) \<Longrightarrow> WDone \<notin> set (wrks t)"
  by (induction rule: wrk_step.induct) (auto simp: set_wrk_def dest!: set_update_mem split: if_splits)

lemma dtor_step_live:
  "dtor_step s t \<Longrightarrow> dtor t \<noteq> DNone \<and> (running (shared t) \<longrightarrow> running (shared s)) \<and> (WDone \<in> set (wrks t) \<longleftrightarrow> WDone \<in> set (wrks s))"
  by (induction rule: dtor_step.induct) (auto simp: signal_all_def image_iff)

interpretation pool_soundness: inductive_invariant "\<lambda>s. s = pool_start c now n" "pool_step spurious" pool_sound
proof
  show "pool_sound t" if "pool_step spurious s t" and "pool_sound s" for s t :: "('t, 'r, 'e) pool"
    using that(1)
  proof (cases rule: pool_step_cases)
    case sub
    with that pool_step_pushed [OF that(1)] sub_step_live [OF sub] show ?thesis
      by (auto simp: pool_sound_def intro: sub_step_keeps sub_step_counts watched_sub)
  next
    case wrk
    with that pool_step_pushed [OF that(1)] wrk_step_running [OF wrk] wrk_step_dtor [OF wrk] show ?thesis
      by (auto simp: pool_sound_def intro: wrk_step_keeps wrk_step_counts watched_wrk dest: wrk_step_live)
  next
    case dtor
    with that pool_step_pushed [OF that(1)] dtor_step_live [OF dtor] show ?thesis
      by (auto simp: pool_sound_def intro: dtor_step_keeps dtor_step_counts watched_dtor)
  qed
next
  show "pool_sound s" if "s = pool_start c now n" for s :: "('t, 'r, 'e) pool"
    using that pool_start_keeps [of c now n] pool_start_counts [of c now n]
    by (simp add: pool_sound_def) (simp add: pool_start_def tmp_new_def pool_watched_def list_ex_iff asleep_def)
qed

lemma queued_watched:
  assumes "pool_sound s" and "length (pushed s) < 2 ^ 64" and "queued (shared s) \<noteq> []" and "\<not> list_ex signals (subs s)"
  shows "all_awake s \<and> tasks_in_queue (shared s) \<noteq> 0"
proof -
  have "uncounted s = 0" using uncounted_signals [of s] assms(4) by auto
  with no_uncounted [of s] assms have "tasks_in_queue (shared s) \<noteq> 0" by (auto simp: pool_sound_def)
  with assms show ?thesis by (auto simp: pool_sound_def pool_watched_def all_awake_asleep)
qed

subsection \<open>The workers alone\<close>

text \<open>A running, well-typed pool whose submitters are idle.\<close>

definition pool_idle_subs :: "('t, 'r, 'e) pool \<Rightarrow> bool" where
  "pool_idle_subs s \<longleftrightarrow>
     pool_sound s \<and> pool_typed s \<and> running (shared s) \<and> length (pushed s) < 2 ^ 64 \<and> \<not> list_ex signals (subs s)"

lemma wrk_step_subs: "wrk_step spurious s t \<Longrightarrow> subs t = subs s \<and> pushed t = pushed s"
  by (induction rule: wrk_step.induct) auto

lemma idle_subs_step: "wrk_step spurious s t \<Longrightarrow> pool_idle_subs s \<Longrightarrow> pool_idle_subs t"
  using pool_soundness.preserved [of spurious s t] wrk_step_typed [of spurious s t] wrk_step_running [of spurious s t] wrk_step_subs [of spurious s t]
  by (auto simp: pool_idle_subs_def pool_step_def)

lemma idle_subs_steps: "(wrk_step spurious)\<^sup>*\<^sup>* s t \<Longrightarrow> pool_idle_subs s \<Longrightarrow> pool_idle_subs t"
  by (induction rule: rtranclp_induct) (auto intro: idle_subs_step)

text \<open>While the counter is not zero, every step of a worker is the start of a turn or decreases the measure.\<close>

lemma wrk_step_busy:
  "wrk_step spurious s t \<Longrightarrow> running (shared s) \<Longrightarrow> tasks_in_queue (shared s) \<noteq> 0 \<Longrightarrow>
     pool_rank t < pool_rank s \<or> (\<exists>j. at_wrk s j WLoop \<and> t = set_wrk j WTest s)"
  by (induction rule: wrk_step.induct) (auto intro: pool_rank_set_wrk pool_rank_set_wrk_shared)

lemma busy_progress:
  assumes "pool_idle_subs s" and "queued (shared s) \<noteq> []" and "\<not> set (wrks s) \<subseteq> {WLoop}"
  shows "\<exists>t. wrk_step spurious s t \<and> pool_rank t < pool_rank s"
proof -
  have s: "all_awake s" "tasks_in_queue (shared s) \<noteq> 0" "running (shared s)" "pool_typed s" "WDone \<notin> set (wrks s)"
    using queued_watched [of s] assms(1,2) by (auto simp: pool_idle_subs_def pool_sound_def)
  have "\<exists>i. i < length (wrks s) \<and> wrks s ! i \<noteq> WLoop \<and> (wrks s ! i = WTest \<or> mutex_free s)"
  proof (cases "WTest \<in> set (wrks s)")
    case True
    then show ?thesis by (auto simp: in_set_conv_nth)
  next
    case False
    with s(1) have "mutex_free s" by (simp add: mutex_free_def all_awake_def)
    with assms(3) show ?thesis by (metis in_set_conv_nth singletonI subsetI)
  qed
  then obtain i where i: "i < length (wrks s)" "wrks s ! i \<noteq> WLoop" "wrks s ! i = WTest \<or> mutex_free s" by blast
  then have "wrks s ! i \<noteq> WDone" "wrks s ! i \<noteq> WSleep" using s(1,5) by (auto simp: all_awake_def dest: nth_mem)
  with wrk_progress [OF s(4), of i "wrks s ! i" spurious] i obtain t
    where t: "wrk_step spurious s t" "wrks t ! i \<noteq> wrks s ! i" by (auto simp: at_wrk_def)
  have "\<not> (\<exists>j. at_wrk s j WLoop \<and> t = set_wrk j WTest s)"
  proof
    assume "\<exists>j. at_wrk s j WLoop \<and> t = set_wrk j WTest s"
    then obtain j where "at_wrk s j WLoop" "t = set_wrk j WTest s" by blast
    with t(2) i(2) show False by (cases "j = i") (auto simp: at_wrk_def set_wrk_def)
  qed
  with wrk_step_busy [OF t(1) s(3,2)] t(1) show ?thesis by blast
qed

lemma workers_gather:
  "pool_idle_subs s \<Longrightarrow> \<exists>t. (wrk_step spurious)\<^sup>*\<^sup>* s t \<and> (queued (shared t) = [] \<or> set (wrks t) \<subseteq> {WLoop})"
proof (induction "pool_rank s" arbitrary: s rule: less_induct)
  case less
  show ?case
  proof (cases "queued (shared s) = [] \<or> set (wrks s) \<subseteq> {WLoop}")
    case False
    with busy_progress [OF less.prems] obtain u where u: "wrk_step spurious s u" "pool_rank u < pool_rank s" by blast
    from less.hyps [OF u(2) idle_subs_step [OF u(1) less.prems]] u(1) show ?thesis
      by (auto intro: converse_rtranclp_into_rtranclp)
  qed auto
qed

text \<open>A worker with a task in its queue takes a whole turn, from the top of the loop to the top of the loop.\<close>

lemma worker_turn:
  assumes "pool_idle_subs s" and "set (wrks s) \<subseteq> {WLoop}" and "queued (shared s) \<noteq> []"
  shows "\<exists>t. (wrk_step spurious)\<^sup>*\<^sup>* s t \<and> set (wrks t) \<subseteq> {WLoop} \<and> length (queued (shared t)) < length (queued (shared s))"
proof -
  have run: "running (shared s)" and ne: "tasks_in_queue (shared s) \<noteq> 0" and len: "length (queues (shared s)) = length (wrks s)"
    using queued_watched [of s] assms(1,3) by (auto simp: pool_idle_subs_def pool_typed_def shape_def)
  from assms(3) obtain i where i: "i < length (queues (shared s))" "queues (shared s) ! i \<noteq> []"
    by (auto simp: queued_def in_set_conv_nth)
  then obtain ti rest where q: "queues (shared s) ! i = ti # rest" by (cases "queues (shared s) ! i") auto
  have wi: "i < length (wrks s)" "wrks s ! i = WLoop" using i(1) len assms(2) by (auto dest: nth_mem)
  define sh where "sh = (shared s)\<lparr>queues := (queues (shared s))[i := rest]\<rparr>"
  have own: "tmp_own i (shared s) = Inr (Some ti, sh)" using i(1) q by (simp add: tmp_own_def sh_def)
  let ?v = "tmp_HandleDrops 0 (tmp_run ti (tmp_uncounted sh))" and ?set = "\<lambda>pc x. set_wrk i pc (s\<lparr>shared := x\<rparr>)"
  note set_simps = set_wrk_def at_wrk_def wi
  have "wrk_step spurious s (?set WTest (shared s))"
    using wrk_loop [of s i spurious] assms(2) wi run by (auto simp: at_wrk_def mutex_free_def)
  moreover have "wrk_step spurious (?set WTest (shared s)) (?set WPop (shared s))"
    using wrk_test [of "?set WTest (shared s)" i spurious] run ne by (simp add: set_simps)
  moreover have "wrk_step spurious (?set WPop (shared s)) (?set (WHold ti) sh)"
    using wrk_own [of "?set WPop (shared s)" i ti sh spurious] own by (simp add: set_simps)
  moreover have "wrk_step spurious (?set (WHold ti) sh) (?set (WRun ti) (tmp_uncounted sh))"
    using wrk_uncount [of "?set (WHold ti) sh" i ti spurious] by (simp add: set_simps)
  moreover have "wrk_step spurious (?set (WRun ti) (tmp_uncounted sh)) (?set WDrops (tmp_run ti (tmp_uncounted sh)))"
    using wrk_run [of "?set (WRun ti) (tmp_uncounted sh)" i ti spurious] by (simp add: set_simps)
  moreover have "wrk_step spurious (?set WDrops (tmp_run ti (tmp_uncounted sh))) (?set WLoop ?v)"
    using wrk_drops [of "?set WDrops (tmp_run ti (tmp_uncounted sh))" i spurious 0] by (simp add: set_simps)
  ultimately have "(wrk_step spurious)\<^sup>*\<^sup>* s (?set WLoop ?v)"
    by (meson converse_rtranclp_into_rtranclp rtranclp.rtrancl_refl)
  moreover have "set (wrks (?set WLoop ?v)) \<subseteq> {WLoop}"
    using assms(2) by (auto simp: set_wrk_def dest!: set_update_mem)
  moreover have "length (queued ?v) < length (queued (shared s))" using tmp_own_effect [OF own] by simp
  ultimately show ?thesis by (intro exI [of _ "?set WLoop ?v"]) simp
qed

lemma workers_empty_queues:
  "pool_idle_subs s \<Longrightarrow> set (wrks s) \<subseteq> {WLoop} \<Longrightarrow> \<exists>t. (wrk_step spurious)\<^sup>*\<^sup>* s t \<and> queued (shared t) = []"
proof (induction "length (queued (shared s))" arbitrary: s rule: less_induct)
  case less
  show ?case
  proof (cases "queued (shared s) = []")
    case False
    with worker_turn [OF less.prems] obtain u where u: "(wrk_step spurious)\<^sup>*\<^sup>* s u" "set (wrks u) \<subseteq> {WLoop}"
      "length (queued (shared u)) < length (queued (shared s))" by blast
    from less.hyps [OF u(3) idle_subs_steps [OF u(1) less.prems(1)] u(2)] u(1) show ?thesis
      by (auto intro: rtranclp_trans)
  qed auto
qed

text \<open>Tasks already taken are run.\<close>

lemma workers_finish_hands:
  "queued (shared s) = [] \<Longrightarrow> \<exists>t. (wrk_step spurious)\<^sup>*\<^sup>* s t \<and> queued (shared t) = [] \<and> in_hand t = []"
proof (induction "pool_rank s" arbitrary: s rule: less_induct)
  case less
  show ?case
  proof (cases "in_hand s = []")
    case False
    then obtain i where "i < length (wrks s)" "hand (wrks s ! i) \<noteq> []" by (auto simp: in_hand_def in_set_conv_nth)
    then obtain ti where "at_wrk s i (WHold ti) \<or> at_wrk s i (WRun ti)"
      by (cases "wrks s ! i") (auto simp: at_wrk_def)
    then obtain u where u: "wrk_step spurious s u" "pool_rank u < pool_rank s" "queued (shared u) = queued (shared s)"
    proof
      assume h: "at_wrk s i (WHold ti)"
      show thesis
        by (rule that [OF wrk_uncount [OF h]]) (auto intro: pool_rank_set_wrk_shared [OF h])
    next
      assume h: "at_wrk s i (WRun ti)"
      show thesis
        by (rule that [OF wrk_run [OF h]]) (auto intro: pool_rank_set_wrk_shared [OF h])
    qed
    from less.hyps [OF u(2)] u(1,3) less.prems show ?thesis by (auto intro: converse_rtranclp_into_rtranclp)
  qed (use less.prems in auto)
qed

lemma workers_execute_all:
  assumes "pool_idle_subs s"
  shows "\<exists>t. (wrk_step spurious)\<^sup>*\<^sup>* s t \<and> mset (executed (shared t)) = mset (pushed s)"
proof -
  from workers_gather [OF assms] obtain u where u: "(wrk_step spurious)\<^sup>*\<^sup>* s u"
    "queued (shared u) = [] \<or> set (wrks u) \<subseteq> {WLoop}" by blast
  with workers_empty_queues [OF idle_subs_steps [OF u(1) assms]] obtain v
    where v: "(wrk_step spurious)\<^sup>*\<^sup>* u v" "queued (shared v) = []" by blast
  from workers_finish_hands [OF v(2)] obtain t
    where t: "(wrk_step spurious)\<^sup>*\<^sup>* v t" "queued (shared t) = []" "in_hand t = []" by blast
  have st: "(wrk_step spurious)\<^sup>*\<^sup>* s t" using u(1) v(1) t(1) by (meson rtranclp_trans)
  have "pushed t = pushed s" using st by (induction rule: rtranclp_induct) (auto dest: wrk_step_subs)
  moreover have "pool_keeps t" using idle_subs_steps [OF st assms] by (simp add: pool_idle_subs_def pool_sound_def)
  ultimately show ?thesis using st t by (auto simp: pool_keeps_def)
qed

subsection \<open>Properties\<close>

text \<open>
  C33. No wake-up is lost while submitters work. Under every interleaving, if a task is in a queue and some worker
  sleeps or is about to, then a submitter is about to count its task or to signal; so with no submitter in
  between, no worker sleeps over a queued task. (The number of tasks ever pushed is below the width of the counter.)
\<close>

theorem pool_no_lost_wakeup:
  assumes "reachable (\<lambda>s. s = pool_start c now n) (pool_step spurious) s"
    and "length (pushed s) < 2 ^ 64" and "queued (shared s) \<noteq> []"
  shows "list_ex (\<lambda>pc. pc = SCount \<or> pc = SSignal) (subs s) \<or> WSleep \<notin> set (wrks s) \<and> WBlock \<notin> set (wrks s)"
  using queued_watched [OF pool_soundness.reachable_inv [OF assms(1)] assms(2,3)]
  by (auto simp: all_awake_def list_ex_iff signals_def)

text \<open>
  C5. A running pool gets its work done. From every state it can reach before its destructor begins in which no submitter is
  between counting its task and signalling, the steps of the workers alone, in every scheduling mode, lead to
  a state in which every task that ever entered a queue has been executed, each exactly once.
\<close>

theorem pool_executes_all:
  fixes s :: "('t, 'r, 'e) pool"
  assumes "reachable (\<lambda>s. s = pool_start c now n) (pool_step spurious) s" and "0 < num_threads c"
    and "case cfg_steal_policy c of None \<Rightarrow> True | Some p \<Rightarrow> policy_in_range p"
    and "dtor s = DNone" and "SCount \<notin> set (subs s)" and "SSignal \<notin> set (subs s)" and "length (pushed s) < 2 ^ 64"
  shows "\<exists>t. (wrk_step spurious)\<^sup>*\<^sup>* s t \<and> mset (executed (shared t)) = mset (pushed s)"
proof (rule workers_execute_all)
  have "reachable (\<lambda>s. s = pool_start c now n \<and> 0 < num_threads c \<and>
      (case cfg_steal_policy c of None \<Rightarrow> True | Some p \<Rightarrow> policy_in_range p)) (pool_step spurious) s"
    using assms by simp
  then have "pool_typed s" by (rule pool_types.reachable_inv)
  moreover have sound: "pool_sound s" by (rule pool_soundness.reachable_inv [OF assms(1)])
  moreover have "\<not> list_ex signals (subs s)" using assms(5,6) by (auto simp: list_ex_iff signals_def)
  ultimately show "pool_idle_subs s" using assms(4,7) by (simp add: pool_idle_subs_def) (simp add: pool_sound_def)
qed

text \<open>One task, submitted and signalled; the worker has not moved yet.\<close>

lemma pool_submitted:
  fixes ti :: "('t, 'r, 'e) task_item"
  shows "\<exists>s. reachable (\<lambda>s. s = pool_start (tmp_config_default 1) 0 1) (pool_step False) s \<and>
    subs s = [SIdle] \<and> dtor s = DNone \<and> pushed s = [ti] \<and> queued (shared s) = [ti]"
proof -
  have n: "num_threads (tmp_config_default 1) = 1" by (simp add: tmp_config_default_def)
  from pool_counted [OF n, of 0 False ti] obtain p where
    r: "reachable (\<lambda>s. s = pool_start (tmp_config_default 1) 0 1) (pool_step False)
      \<lparr>shared = tmp_counted p, subs = [SSignal], wrks = [WLoop], dtor = DNone, pushed = [ti]\<rparr>"
    and p: "queues p = [[ti]]" by blast
  from pool_sub [OF r sub_signal [of _ 0]]
  have "reachable (\<lambda>s. s = pool_start (tmp_config_default 1) 0 1) (pool_step False)
      \<lparr>shared = tmp_counted p, subs = [SIdle], wrks = [WLoop], dtor = DNone, pushed = [ti]\<rparr>"
    by (simp add: pool_defs mutex_free_def)
  then show ?thesis by - (intro exI conjI, assumption, simp_all add: queued_def p)
qed

theorem pool_no_lost_wakeup_witness:
  "\<exists>s :: (char, unit, unit) pool. queued (shared s) = [plain CHR ''a''] \<and> subs s = [SIdle] \<and> WSleep \<notin> set (wrks s)"
proof -
  from pool_submitted [of "plain CHR ''a'' :: (char, unit, unit) task_item"] obtain s :: "(char, unit, unit) pool" where
    r: "reachable (\<lambda>s. s = pool_start (tmp_config_default 1) 0 1) (pool_step False) s"
    and s: "subs s = [SIdle]" "pushed s = [plain CHR ''a'']" "queued (shared s) = [plain CHR ''a'']" by blast
  with pool_no_lost_wakeup [OF r] show ?thesis by auto
qed

theorem pool_executes_all_witness:
  "\<exists>s t. pushed s = [plain CHR ''a'' :: (char, unit, unit) task_item] \<and> (wrk_step False)\<^sup>*\<^sup>* s t \<and>
     mset (executed (shared t)) = {#plain CHR ''a''#}"
proof -
  from pool_submitted [of "plain CHR ''a'' :: (char, unit, unit) task_item"] obtain s :: "(char, unit, unit) pool" where
    r: "reachable (\<lambda>s. s = pool_start (tmp_config_default 1) 0 1) (pool_step False) s"
    and s: "subs s = [SIdle]" "dtor s = DNone" "pushed s = [plain CHR ''a'']" by blast
  with pool_executes_all [OF r] have "\<exists>t. (wrk_step False)\<^sup>*\<^sup>* s t \<and> mset (executed (shared t)) = mset (pushed s)"
    by (simp add: tmp_config_default_def)
  with s(3) show ?thesis by auto
qed

end
