(* ===== verification/Log_Adapter.thy ===== *)
theory Log_Adapter
  imports Prelude Complex_Main
begin

text \<open>
  \<^verbatim>\<open>src/src/vectro/log/log_adapter.h\<close>: the asynchronous logger. First the operations one at a time,
  then producers, the worker and the destructor interleaved at their critical sections. The clock, the
  formatting of time points, the hash of a thread id and the outcome of a user callback are parameters.
  \<^verbatim>\<open>callbacks_\<close> is an atomic \<^verbatim>\<open>shared_ptr\<close>: \<open>None\<close> is the null pointer. Text written to \<^verbatim>\<open>stderr\<close> is
  collected in \<open>err_out\<close>, callback invocations in \<open>delivered_to\<close>.
\<close>

subsection \<open>Levels and messages\<close>

datatype log_level = Trace | Debug | Info | Notice | Warning | Error | Critical | Alert | Emergency

fun log_index :: "log_level \<Rightarrow> nat" where
  "log_index Trace = 0" | "log_index Debug = 1" | "log_index Info = 2" | "log_index Notice = 3"
| "log_index Warning = 4" | "log_index Error = 5" | "log_index Critical = 6" | "log_index Alert = 7"
| "log_index Emergency = 8"

lemma log_index_inj: "log_index a = log_index b \<Longrightarrow> a = b"
  by (cases a; cases b; simp)

lemma log_index_less: "log_index l < 9"
  by (cases l) simp_all

text \<open>Severities are ordered by their number, as the enumeration orders them.\<close>

instantiation log_level :: linorder
begin

definition less_eq_log_level :: "log_level \<Rightarrow> log_level \<Rightarrow> bool" where
  "less_eq_log_level a b \<longleftrightarrow> log_index a \<le> log_index b"

definition less_log_level :: "log_level \<Rightarrow> log_level \<Rightarrow> bool" where
  "less_log_level a b \<longleftrightarrow> log_index a < log_index b"

instance
  by standard (auto simp: less_eq_log_level_def less_log_level_def intro: log_index_inj)

end

definition kNames :: "string list" where
  "kNames = [''TRACE'', ''DEBUG'', ''INFO'', ''NOTICE'', ''WARNING'', ''ERROR'', ''CRITICAL'', ''ALERT'', ''EMERGENCY'']"

definition la_ToString :: "log_level \<Rightarrow> string" where
  "la_ToString lvl = (let i = log_index lvl in if i < length kNames then kNames ! i else ''UNKNOWN'')"

record log_message =
  lm_logger_id :: string
  lm_level :: log_level
  lm_timestamp :: int
  lm_thread_id :: nat
  lm_text :: string

datatype cb_result = CbOk | CbThrew string | CbThrewUnknown

text \<open>Formatting may throw: a \<^verbatim>\<open>std::exception\<close> with its text, or anything else.\<close>

datatype log_exn = StdException string | OtherException

record 'cb log_env =
  FormatTime :: "int \<Rightarrow> log_exn + string"
  hash_tid :: "nat \<Rightarrow> nat"
  run_cb :: "'cb \<Rightarrow> log_message \<Rightarrow> cb_result"

subsection \<open>The adapter\<close>

record 'cb log_adapter =
  logger_id :: string
  la_running :: bool
  la_stopped :: bool
  la_queue :: "log_message list"
  la_max_queue_size :: nat
  la_backpressure_threshold :: nat
  backoff_duration_ms :: int
  la_jitter_fraction :: rat
  drop_notification_interval_ms :: int
  shutdown_timeout_ms :: int
  dropped_messages :: u64
  la_high_water_mark :: nat
  callbacks :: "'cb list option"
  la_last_drop :: int
  error_buffer :: string
  err_out :: "string list"
  delivered_to :: "('cb \<times> log_message) list"

datatype la_fault = NullCallbacks

definition la_new :: "string \<Rightarrow> int \<Rightarrow> 'cb log_adapter" where
  "la_new ident now =
     \<lparr>logger_id = ident, la_running = True, la_stopped = False, la_queue = [], la_max_queue_size = 10000,
      la_backpressure_threshold = 5000, backoff_duration_ms = 10, la_jitter_fraction = 1 / 10,
      drop_notification_interval_ms = 1000, shutdown_timeout_ms = 5000, dropped_messages = 0,
      la_high_water_mark = 0, callbacks = None, la_last_drop = now, error_buffer = '''', err_out = [],
      delivered_to = []\<rparr>"

definition la_SetMaxQueueSize :: "nat \<Rightarrow> 'cb log_adapter \<Rightarrow> 'cb log_adapter" where
  "la_SetMaxQueueSize n a = a\<lparr>la_max_queue_size := n\<rparr>"

definition la_SetBackpressureThreshold :: "nat \<Rightarrow> 'cb log_adapter \<Rightarrow> 'cb log_adapter" where
  "la_SetBackpressureThreshold n a = a\<lparr>la_backpressure_threshold := n\<rparr>"

definition la_SetBackoffDuration :: "int \<Rightarrow> 'cb log_adapter \<Rightarrow> 'cb log_adapter" where
  "la_SetBackoffDuration d a = a\<lparr>backoff_duration_ms := d\<rparr>"

definition la_SetJitterFraction :: "rat \<Rightarrow> 'cb log_adapter \<Rightarrow> 'cb log_adapter" where
  "la_SetJitterFraction f a = a\<lparr>la_jitter_fraction := f\<rparr>"

definition la_SetDropNotificationInterval :: "int \<Rightarrow> 'cb log_adapter \<Rightarrow> 'cb log_adapter" where
  "la_SetDropNotificationInterval d a = a\<lparr>drop_notification_interval_ms := d\<rparr>"

definition la_SetShutdownTimeout :: "int \<Rightarrow> 'cb log_adapter \<Rightarrow> 'cb log_adapter" where
  "la_SetShutdownTimeout d a = a\<lparr>shutdown_timeout_ms := d\<rparr>"

definition la_GetDroppedCount :: "'cb log_adapter \<Rightarrow> u64 \<times> 'cb log_adapter" where
  "la_GetDroppedCount a = (dropped_messages a, a\<lparr>dropped_messages := 0\<rparr>)"

definition la_GetQueueSize :: "'cb log_adapter \<Rightarrow> nat" where
  "la_GetQueueSize a = length (la_queue a)"

definition la_GetHighWaterMark :: "'cb log_adapter \<Rightarrow> nat" where
  "la_GetHighWaterMark a = la_high_water_mark a"

text \<open>\<^verbatim>\<open>RegisterCallback\<close> copies the vector behind the pointer; without interference its exchange succeeds.\<close>

definition la_RegisterCallback :: "'cb \<Rightarrow> 'cb log_adapter \<Rightarrow> la_fault + 'cb log_adapter" where
  "la_RegisterCallback cb a =
     (case callbacks a of None \<Rightarrow> Inl NullCallbacks | Some cbs \<Rightarrow> Inr (a\<lparr>callbacks := Some (cbs @ [cb])\<rparr>))"

definition la_ClearCallbacks :: "'cb log_adapter \<Rightarrow> 'cb log_adapter" where
  "la_ClearCallbacks a = a\<lparr>callbacks := Some []\<rparr>"

subsection \<open>Enqueueing\<close>

definition la_count_drop :: "'cb log_adapter \<Rightarrow> 'cb log_adapter" where
  "la_count_drop a = a\<lparr>dropped_messages := dropped_messages a + 1\<rparr>"

text \<open>The first check, on the size read under the lock, and the sleep it may cause.\<close>

definition la_full :: "'cb log_adapter \<Rightarrow> bool" where
  "la_full a \<longleftrightarrow> la_max_queue_size a \<le> length (la_queue a)"

definition la_backoff :: "int \<Rightarrow> 'cb log_adapter \<Rightarrow> int" where
  "la_backoff draw a =
     (if la_backpressure_threshold a \<le> length (la_queue a)
      then let ms = backoff_duration_ms a + draw in if 0 < ms then ms else 0
      else 0)"

text \<open>The second critical section.\<close>

definition la_append :: "log_message \<Rightarrow> 'cb log_adapter \<Rightarrow> 'cb log_adapter" where
  "la_append lm a =
     (if la_full a then la_count_drop a
      else let q = la_queue a @ [lm]
           in a\<lparr>la_queue := q, la_high_water_mark := (if la_high_water_mark a < length q then length q else la_high_water_mark a)\<rparr>)"

definition la_Enqueue :: "log_message \<Rightarrow> 'cb log_adapter \<Rightarrow> 'cb log_adapter" where
  "la_Enqueue lm a = (if la_full a then la_count_drop a else la_append lm a)"

definition la_Log :: "log_level \<Rightarrow> string \<Rightarrow> int \<Rightarrow> nat \<Rightarrow> 'cb log_adapter \<Rightarrow> 'cb log_adapter" where
  "la_Log level msg now tid a =
     la_Enqueue \<lparr>lm_logger_id = logger_id a, lm_level = level, lm_timestamp = now, lm_thread_id = tid, lm_text = msg\<rparr> a"

subsection \<open>Dispatching\<close>

definition la_DefaultLog :: "'cb log_env \<Rightarrow> log_message \<Rightarrow> 'cb log_adapter \<Rightarrow> 'cb log_adapter" where
  "la_DefaultLog env lm a =
     a\<lparr>err_out := err_out a @
        [case FormatTime env (lm_timestamp lm) of
           Inr ts \<Rightarrow>
             ''['' @ ts @ ''] ['' @ lm_logger_id lm @ ''] ['' @ la_ToString (lm_level lm) @
             ''] [t'' @ to_string (hash_tid env (lm_thread_id lm)) @ ''] '' @ lm_text lm @ [CHR 0x0A]
         | Inl (StdException what) \<Rightarrow> ''[LogAdapter] DefaultLog exception: '' @ what @ [CHR 0x0A]
         | Inl OtherException \<Rightarrow> ''[LogAdapter] DefaultLog unknown exception'' @ [CHR 0x0A]]\<rparr>"

definition la_call :: "'cb log_env \<Rightarrow> log_message \<Rightarrow> 'cb \<Rightarrow> 'cb log_adapter \<Rightarrow> 'cb log_adapter" where
  "la_call env lm cb a =
     a\<lparr>delivered_to := delivered_to a @ [(cb, lm)],
       error_buffer := error_buffer a @
         (case run_cb env cb lm of
            CbOk \<Rightarrow> ''''
          | CbThrew what \<Rightarrow> ''[Callback exception] '' @ what @ [CHR 0x0A]
          | CbThrewUnknown \<Rightarrow> ''[Callback unknown exception]'' @ [CHR 0x0A])\<rparr>"

definition la_Dispatch :: "'cb log_env \<Rightarrow> log_message \<Rightarrow> 'cb log_adapter \<Rightarrow> la_fault + 'cb log_adapter" where
  "la_Dispatch env lm a =
     (case callbacks a of
        None \<Rightarrow> Inl NullCallbacks
      | Some [] \<Rightarrow> Inr (la_DefaultLog env lm a)
      | Some cbs \<Rightarrow>
          let a1 = fold (la_call env lm) cbs a
          in Inr (if error_buffer a1 \<noteq> '''' then a1\<lparr>err_out := err_out a1 @ [error_buffer a1], error_buffer := ''''\<rparr> else a1))"

definition la_HandleDrops :: "'cb log_env \<Rightarrow> int \<Rightarrow> nat \<Rightarrow> 'cb log_adapter \<Rightarrow> 'cb log_adapter" where
  "la_HandleDrops env now tid a =
     (let dropped = dropped_messages a; a1 = a\<lparr>dropped_messages := 0\<rparr>
      in if dropped \<noteq> 0 \<and> drop_notification_interval_ms a \<le> now - la_last_drop a
         then (la_DefaultLog env
                 \<lparr>lm_logger_id = logger_id a, lm_level = Warning, lm_timestamp = now, lm_thread_id = tid,
                  lm_text = ''['' @ logger_id a @ ''] dropped '' @ to_string (unat dropped) @ '' msgs''\<rparr> a1)
              \<lparr>la_last_drop := now\<rparr>
         else a1)"

text \<open>The loop \<^verbatim>\<open>for (auto& msg : batch) Dispatch(msg)\<close>.\<close>

fun la_dispatch_all :: "'cb log_env \<Rightarrow> log_message list \<Rightarrow> 'cb log_adapter \<Rightarrow> la_fault + 'cb log_adapter" where
  "la_dispatch_all env [] a = Inr a"
| "la_dispatch_all env (m # ms) a =
     (case la_Dispatch env m a of Inl e \<Rightarrow> Inl e | Inr a' \<Rightarrow> la_dispatch_all env ms a')"

lemmas la_enqueue_defs [vec_defs] = la_count_drop_def la_full_def la_append_def la_Enqueue_def

subsection \<open>The bounded queue\<close>

interpretation log_queue: counting_queue la_Enqueue la_queue la_max_queue_size "\<lambda>_. True" dropped_messages
  by unfold_locales (auto simp: la_enqueue_defs Let_def)

subsection \<open>Producers, worker and destructor\<close>

text \<open>
  A producer is between the two critical sections of \<^verbatim>\<open>Enqueue\<close> (\<open>PChecked\<close>) or before its signal
  (\<open>PSignal\<close>). The worker is at the top of its loop, in \<^verbatim>\<open>queue_cv_.Wait\<close>, dispatching a batch, at the
  final drain, dispatching the final batch, or done. The destructor clears \<^verbatim>\<open>running_\<close> and signals while
  it holds \<^verbatim>\<open>queue_mu_\<close>, in one step. \<open>appended\<close> and \<open>dispatched\<close> are the history.
\<close>

datatype prod_pc = PIdle | PChecked log_message | PSignal

datatype log_wrk_pc =
    LTop
  | LWait
  | LBatch "log_message list"
  | LDrain
  | LFinal "log_message list"
  | LStopped

record 'cb log_sys =
  adapter :: "'cb log_adapter"
  prods :: "prod_pc list"
  log_wrk :: log_wrk_pc
  appended :: "log_message list"
  dispatched :: "log_message list"

definition log_start :: "'cb log_adapter \<Rightarrow> nat \<Rightarrow> 'cb log_sys" where
  "log_start a n = \<lparr>adapter = a, prods = replicate n PIdle, log_wrk = LTop, appended = [], dispatched = []\<rparr>"

fun log_wake :: "log_wrk_pc \<Rightarrow> log_wrk_pc" where
  "log_wake LWait = LTop"
| "log_wake pc = pc"

inductive prod_step :: "'cb log_sys \<Rightarrow> 'cb log_sys \<Rightarrow> bool" where
  prod_check: "i < length (prods s) \<Longrightarrow> prods s ! i = PIdle \<Longrightarrow> \<not> la_full (adapter s) \<Longrightarrow>
    prod_step s (s\<lparr>prods := (prods s)[i := PChecked lm]\<rparr>)"
| prod_drop: "i < length (prods s) \<Longrightarrow> prods s ! i = PIdle \<Longrightarrow> la_full (adapter s) \<Longrightarrow>
    prod_step s (s\<lparr>adapter := la_count_drop (adapter s)\<rparr>)"
| prod_append: "i < length (prods s) \<Longrightarrow> prods s ! i = PChecked lm \<Longrightarrow> \<not> la_full (adapter s) \<Longrightarrow>
    prod_step s (s\<lparr>adapter := la_append lm (adapter s), prods := (prods s)[i := PSignal], appended := appended s @ [lm]\<rparr>)"
| prod_recheck: "i < length (prods s) \<Longrightarrow> prods s ! i = PChecked lm \<Longrightarrow> la_full (adapter s) \<Longrightarrow>
    prod_step s (s\<lparr>adapter := la_append lm (adapter s), prods := (prods s)[i := PIdle]\<rparr>)"
| prod_signal: "i < length (prods s) \<Longrightarrow> prods s ! i = PSignal \<Longrightarrow>
    prod_step s (s\<lparr>prods := (prods s)[i := PIdle], log_wrk := log_wake (log_wrk s)\<rparr>)"

inductive log_wrk_step :: "'cb log_env \<Rightarrow> 'cb log_sys \<Rightarrow> 'cb log_sys \<Rightarrow> bool" for env :: "'cb log_env" where
  wrk_break: "log_wrk s = LTop \<Longrightarrow> \<not> la_running (adapter s) \<Longrightarrow> la_queue (adapter s) = [] \<Longrightarrow>
    log_wrk_step env s (s\<lparr>log_wrk := LDrain\<rparr>)"
| wrk_wait: "log_wrk s = LTop \<Longrightarrow> la_running (adapter s) \<Longrightarrow> la_queue (adapter s) = [] \<Longrightarrow>
    log_wrk_step env s (s\<lparr>log_wrk := LWait\<rparr>)"
| wrk_swap: "log_wrk s = LTop \<Longrightarrow> la_queue (adapter s) \<noteq> [] \<Longrightarrow>
    log_wrk_step env s (s\<lparr>log_wrk := LBatch (la_queue (adapter s)), adapter := (adapter s)\<lparr>la_queue := []\<rparr>\<rparr>)"
| wrk_dispatch: "log_wrk s = LBatch (m # ms) \<Longrightarrow> la_Dispatch env m (adapter s) = Inr a \<Longrightarrow>
    log_wrk_step env s (s\<lparr>log_wrk := LBatch ms, adapter := a, dispatched := dispatched s @ [m]\<rparr>)"
| wrk_batch_done: "log_wrk s = LBatch [] \<Longrightarrow>
    log_wrk_step env s (s\<lparr>log_wrk := LTop, adapter := la_HandleDrops env now tid (adapter s)\<rparr>)"
| wrk_final_swap: "log_wrk s = LDrain \<Longrightarrow>
    log_wrk_step env s (s\<lparr>log_wrk := LFinal (la_queue (adapter s)), adapter := (adapter s)\<lparr>la_queue := []\<rparr>\<rparr>)"
| wrk_final_dispatch: "log_wrk s = LFinal (m # ms) \<Longrightarrow> la_Dispatch env m (adapter s) = Inr a \<Longrightarrow>
    log_wrk_step env s (s\<lparr>log_wrk := LFinal ms, adapter := a, dispatched := dispatched s @ [m]\<rparr>)"
| wrk_stop: "log_wrk s = LFinal [] \<Longrightarrow>
    log_wrk_step env s (s\<lparr>log_wrk := LStopped, adapter := (la_HandleDrops env now tid (adapter s))\<lparr>la_stopped := True\<rparr>\<rparr>)"

inductive log_dtor_step :: "'cb log_sys \<Rightarrow> 'cb log_sys \<Rightarrow> bool" where
  "log_dtor_step s (s\<lparr>adapter := (adapter s)\<lparr>la_running := False\<rparr>, log_wrk := log_wake (log_wrk s)\<rparr>)"

definition log_step :: "'cb log_env \<Rightarrow> 'cb log_sys \<Rightarrow> 'cb log_sys \<Rightarrow> bool" where
  "log_step env s t \<longleftrightarrow> prod_step s t \<or> log_wrk_step env s t \<or> log_dtor_step s t"

subsection \<open>Invariants\<close>

fun log_hand :: "log_wrk_pc \<Rightarrow> log_message list" where
  "log_hand (LBatch ms) = ms"
| "log_hand (LFinal ms) = ms"
| "log_hand _ = []"

text \<open>
  Order and bound; and who will wake the worker: it waits only while the logger runs, and if it waits
  with messages in the queue, a producer is about to signal.
\<close>

definition log_inv :: "'cb log_sys \<Rightarrow> bool" where
  "log_inv s \<longleftrightarrow>
     appended s = dispatched s @ log_hand (log_wrk s) @ la_queue (adapter s) \<and>
     length (la_queue (adapter s)) \<le> la_max_queue_size (adapter s) \<and>
     (log_wrk s = LWait \<longrightarrow> la_running (adapter s) \<and> (la_queue (adapter s) = [] \<or> PSignal \<in> set (prods s))) \<and>
     (log_wrk s \<in> {LDrain, LStopped} \<union> range LFinal \<longrightarrow> \<not> la_running (adapter s)) \<and>
     callbacks (adapter s) \<noteq> None"

lemma log_wake_simps [simp]:
  "log_hand (log_wake pc) = log_hand pc" "log_wake pc \<noteq> LWait" "log_wake pc = LDrain \<longleftrightarrow> pc = LDrain"
  "log_wake pc = LStopped \<longleftrightarrow> pc = LStopped" "log_wake pc = LFinal ms \<longleftrightarrow> pc = LFinal ms"
  by (cases pc; simp)+

lemma la_call_fields [simp]:
  "la_queue (la_call env m cb a) = la_queue a" "la_max_queue_size (la_call env m cb a) = la_max_queue_size a"
  "la_running (la_call env m cb a) = la_running a" "callbacks (la_call env m cb a) = callbacks a"
  "delivered_to (la_call env m cb a) = delivered_to a @ [(cb, m)]" "err_out (la_call env m cb a) = err_out a"
  "dropped_messages (la_call env m cb a) = dropped_messages a"
  by (simp_all add: la_call_def)

lemma la_fold_call_fields [simp]:
  "la_queue (fold (la_call env m) cbs a) = la_queue a" "la_max_queue_size (fold (la_call env m) cbs a) = la_max_queue_size a"
  "la_running (fold (la_call env m) cbs a) = la_running a" "callbacks (fold (la_call env m) cbs a) = callbacks a"
  "delivered_to (fold (la_call env m) cbs a) = delivered_to a @ map (\<lambda>cb. (cb, m)) cbs"
  "err_out (fold (la_call env m) cbs a) = err_out a" "dropped_messages (fold (la_call env m) cbs a) = dropped_messages a"
  by (induction cbs arbitrary: a) simp_all

lemma la_Dispatch_fields:
  "la_Dispatch env m a = Inr a' \<Longrightarrow>
     la_queue a' = la_queue a \<and> la_max_queue_size a' = la_max_queue_size a \<and> la_running a' = la_running a \<and>
     callbacks a' = callbacks a \<and> dropped_messages a' = dropped_messages a"
  by (auto simp: la_Dispatch_def la_DefaultLog_def Let_def split: option.splits list.splits if_splits)

lemma la_HandleDrops_fields [simp]:
  "la_queue (la_HandleDrops env now tid a) = la_queue a" "callbacks (la_HandleDrops env now tid a) = callbacks a"
  "la_max_queue_size (la_HandleDrops env now tid a) = la_max_queue_size a"
  "la_running (la_HandleDrops env now tid a) = la_running a"
  by (simp_all add: la_HandleDrops_def la_DefaultLog_def Let_def)

lemma prod_step_inv:
  assumes "prod_step s t" and "log_inv s"
  shows "log_inv t"
  using assms
proof (induction rule: prod_step.induct)
  case (prod_append i s lm)
  then have "PSignal \<in> set ((prods s)[i := PSignal])" by (simp add: set_update_memI)
  with prod_append show ?case
    by (auto simp: log_inv_def la_append_def la_full_def Let_def)
next
  case (prod_check i s lm)
  then have "PSignal \<in> set (prods s) \<Longrightarrow> PSignal \<in> set ((prods s)[i := PChecked lm])"
    by (metis in_set_conv_nth length_list_update nth_list_update_neq prod_pc.distinct(3))
  with prod_check show ?case by (auto simp: log_inv_def)
next
  case (prod_recheck i s lm)
  then have "PSignal \<in> set (prods s) \<Longrightarrow> PSignal \<in> set ((prods s)[i := PIdle])"
    by (metis in_set_conv_nth length_list_update nth_list_update_neq prod_pc.distinct(5))
  with prod_recheck show ?case by (auto simp: log_inv_def la_append_def la_count_drop_def la_full_def)
qed (auto simp: log_inv_def la_count_drop_def)

lemma log_wrk_step_inv:
  assumes "log_wrk_step env s t" and "log_inv s"
  shows "log_inv t"
  using assms
proof (induction rule: log_wrk_step.induct)
  case (wrk_dispatch s m ms a)
  then show ?case using la_Dispatch_fields [OF wrk_dispatch(2)] by (auto simp: log_inv_def)
next
  case (wrk_final_dispatch s m ms a)
  then show ?case using la_Dispatch_fields [OF wrk_final_dispatch(2)] by (auto simp: log_inv_def)
qed (auto simp: log_inv_def)

lemma log_dtor_step_inv: "log_dtor_step s t \<Longrightarrow> log_inv s \<Longrightarrow> log_inv t"
  by (induction rule: log_dtor_step.induct) (auto simp: log_inv_def)

definition log_init :: "'cb log_sys \<Rightarrow> bool" where
  "log_init s \<longleftrightarrow> (\<exists>a n. s = log_start a n \<and> la_queue a = [] \<and> la_running a \<and> callbacks a \<noteq> None)"

interpretation log_order: inductive_invariant log_init "log_step env" log_inv
proof
  show "log_step env s t \<Longrightarrow> log_inv s \<Longrightarrow> log_inv t" for s t :: "'a log_sys"
    by (auto simp: log_step_def intro: prod_step_inv log_wrk_step_inv log_dtor_step_inv)
qed (auto simp: log_init_def log_inv_def log_start_def)

text \<open>
  After the destructor's step: the messages \<open>A\<close> appended before it come first, and once the worker has
  left its loop they are dispatched or in its last batch.
\<close>

definition log_ending :: "log_message list \<Rightarrow> 'cb log_sys \<Rightarrow> bool" where
  "log_ending A s \<longleftrightarrow>
     log_inv s \<and> \<not> la_running (adapter s) \<and> take (length A) (appended s) = A \<and>
     (log_wrk s \<in> {LDrain, LStopped} \<union> range LFinal \<longrightarrow>
        length A \<le> length (dispatched s @ log_hand (log_wrk s)))"

lemma log_ending_appended: "log_ending A s \<Longrightarrow> length A \<le> length (appended s)"
proof -
  assume "log_ending A s"
  then have "length (take (length A) (appended s)) = length A" by (simp add: log_ending_def)
  then show ?thesis by simp
qed

lemma prod_step_ending:
  assumes "prod_step s t" and "log_ending A s"
  shows "log_ending A t"
proof -
  have "log_inv t" using assms prod_step_inv by (auto simp: log_ending_def)
  from assms(1) this assms(2) log_ending_appended [OF assms(2)] show ?thesis
    by (induction rule: prod_step.induct)
      (auto simp: log_ending_def la_append_def la_count_drop_def Let_def)
qed

lemma log_wrk_step_ending:
  assumes "log_wrk_step env s t" and "log_ending A s"
  shows "log_ending A t"
proof -
  have i: "log_inv t" "log_inv s" using assms log_wrk_step_inv by (auto simp: log_ending_def)
  from assms(1) i assms(2) log_ending_appended [OF assms(2)] show ?thesis
  proof (induction rule: log_wrk_step.induct)
    case (wrk_dispatch s m ms a)
    then show ?case using la_Dispatch_fields [OF wrk_dispatch(2)] by (auto simp: log_ending_def)
  next
    case (wrk_final_dispatch s m ms a)
    then show ?case using la_Dispatch_fields [OF wrk_final_dispatch(2)] by (auto simp: log_ending_def)
  next
    case (wrk_break s)
    then show ?case by (auto simp: log_ending_def log_inv_def)
  qed (auto simp: log_ending_def)
qed

lemma log_dtor_step_ending:
  assumes "log_dtor_step s t" and "log_ending A s"
  shows "log_ending A t"
proof -
  have "log_inv t" using assms log_dtor_step_inv by (auto simp: log_ending_def)
  from assms(1) this assms(2) show ?thesis
    by (induction rule: log_dtor_step.induct) (auto simp: log_ending_def)
qed

interpretation log_shutdown: inductive_invariant "log_ending A" "log_step env" "log_ending A"
  by unfold_locales
    (auto simp: log_step_def intro: prod_step_ending log_wrk_step_ending log_dtor_step_ending)

lemma log_ending_drained:
  assumes "log_ending A t" and "log_wrk t = LStopped"
  shows "\<exists>later. dispatched t = A @ later"
proof -
  have "appended t = dispatched t @ la_queue (adapter t)" "take (length A) (appended t) = A" "length A \<le> length (dispatched t)"
    using assms by (auto simp: log_ending_def log_inv_def)
  then have "take (length A) (dispatched t) = A" by simp
  then show ?thesis by (metis append_take_drop_id)
qed

lemma log_ending_start:
  assumes "log_inv s" and "la_running (adapter s)" and "log_dtor_step s t"
  shows "log_ending (appended s) t"
proof -
  have "log_inv t" by (rule log_dtor_step_inv [OF assms(3,1)])
  from assms(3) this assms(1,2) show ?thesis
    by (induction rule: log_dtor_step.induct) (auto simp: log_ending_def log_inv_def)
qed

lemma la_Dispatch_ok: "callbacks a \<noteq> None \<Longrightarrow> \<exists>a'. la_Dispatch env m a = Inr a'"
  by (auto simp: la_Dispatch_def Let_def split: list.splits)

text \<open>Running alone after shutdown began, the worker finishes its batch, takes the rest and stops.\<close>

definition log_run :: "'cb log_env \<Rightarrow> 'cb log_sys \<Rightarrow> log_wrk_pc \<Rightarrow> bool" where
  "log_run env s pc \<longleftrightarrow> (\<exists>t. (log_wrk_step env)\<^sup>*\<^sup>* s t \<and> log_wrk t = pc \<and> appended t = appended s \<and>
     la_queue (adapter t) = la_queue (adapter s) \<and> la_running (adapter t) = la_running (adapter s))"

lemma log_run_step:
  assumes "log_wrk_step env s t" and "appended t = appended s" and "la_queue (adapter t) = la_queue (adapter s)"
    and "la_running (adapter t) = la_running (adapter s)" and "log_run env t pc"
  shows "log_run env s pc"
  using assms unfolding log_run_def by (metis converse_rtranclp_into_rtranclp)

lemma log_batch_runs: "callbacks (adapter s) \<noteq> None \<Longrightarrow> log_wrk s = LBatch ms \<Longrightarrow> log_run env s (LBatch [])"
proof (induction ms arbitrary: s)
  case Nil
  then show ?case by (auto simp: log_run_def)
next
  case (Cons m ms)
  from la_Dispatch_ok [OF Cons.prems(1), of env m] obtain a where a: "la_Dispatch env m (adapter s) = Inr a" by blast
  note f = la_Dispatch_fields [OF a]
  show ?case
    by (rule log_run_step [OF wrk_dispatch [OF Cons.prems(2) a]])
      (use f Cons in \<open>simp_all\<close>)
qed

lemma log_final_runs: "callbacks (adapter s) \<noteq> None \<Longrightarrow> log_wrk s = LFinal ms \<Longrightarrow> log_run env s (LFinal [])"
proof (induction ms arbitrary: s)
  case Nil
  then show ?case by (auto simp: log_run_def)
next
  case (Cons m ms)
  from la_Dispatch_ok [OF Cons.prems(1), of env m] obtain a where a: "la_Dispatch env m (adapter s) = Inr a" by blast
  note f = la_Dispatch_fields [OF a]
  show ?case
    by (rule log_run_step [OF wrk_final_dispatch [OF Cons.prems(2) a]])
      (use f Cons in \<open>simp_all\<close>)
qed

lemma log_wrk_steps_inv: "(log_wrk_step env)\<^sup>*\<^sup>* s t \<Longrightarrow> log_inv s \<Longrightarrow> log_inv t"
  by (induction rule: rtranclp_induct) (auto intro: log_wrk_step_inv)

text \<open>\<open>log_stops env s A\<close>: the worker alone reaches its end, having dispatched exactly \<open>A\<close>.\<close>

definition log_stops :: "'cb log_env \<Rightarrow> 'cb log_sys \<Rightarrow> log_message list \<Rightarrow> bool" where
  "log_stops env s A \<longleftrightarrow> (\<exists>t. (log_wrk_step env)\<^sup>*\<^sup>* s t \<and> log_wrk t = LStopped \<and> dispatched t = A)"

lemma log_stops_steps: "(log_wrk_step env)\<^sup>*\<^sup>* s t \<Longrightarrow> log_stops env t A \<Longrightarrow> log_stops env s A"
  unfolding log_stops_def by (blast intro: rtranclp_trans)

lemma log_stops_step: "log_wrk_step env s t \<Longrightarrow> log_stops env t A \<Longrightarrow> log_stops env s A"
  by (rule log_stops_steps) (rule r_into_rtranclp)

lemma log_stops_final:
  assumes "log_inv s" and "log_wrk s = LFinal ms" and "la_queue (adapter s) = []"
  shows "log_stops env s (appended s)"
proof -
  have "callbacks (adapter s) \<noteq> None" using assms(1) by (simp add: log_inv_def)
  from log_final_runs [OF this assms(2)] obtain t where t: "(log_wrk_step env)\<^sup>*\<^sup>* s t" "log_wrk t = LFinal []"
    "appended t = appended s" "la_queue (adapter t) = []" using assms(3) by (auto simp: log_run_def)
  have "log_inv t" by (rule log_wrk_steps_inv [OF t(1) assms(1)])
  then have "dispatched t = appended s" using t by (simp add: log_inv_def)
  then have "log_stops env t (appended s)"
    unfolding log_stops_def
    using r_into_rtranclp [of "log_wrk_step env", OF wrk_stop [OF t(2), of env 0 0]] by fastforce
  with t(1) show ?thesis by (rule log_stops_steps)
qed

lemma log_stops_drain:
  assumes "log_inv s" and "log_wrk s = LDrain"
  shows "log_stops env s (appended s)"
proof (rule log_stops_step [OF wrk_final_swap [OF assms(2)]])
  let ?t = "s\<lparr>log_wrk := LFinal (la_queue (adapter s)), adapter := (adapter s)\<lparr>la_queue := []\<rparr>\<rparr>"
  have "log_inv ?t" by (rule log_wrk_step_inv [OF wrk_final_swap [OF assms(2)] assms(1)])
  from log_stops_final [OF this] show "log_stops env ?t (appended s)" by simp
qed

lemma log_stops_top_empty:
  assumes "log_inv s" and "log_wrk s = LTop" and "\<not> la_running (adapter s)" and "la_queue (adapter s) = []"
  shows "log_stops env s (appended s)"
proof (rule log_stops_step [OF wrk_break [OF assms(2-4)]])
  have "log_inv (s\<lparr>log_wrk := LDrain\<rparr>)"
    by (rule log_wrk_step_inv [OF wrk_break [OF assms(2-4)] assms(1)])
  from log_stops_drain [OF this] show "log_stops env (s\<lparr>log_wrk := LDrain\<rparr>) (appended s)" by simp
qed

text \<open>From a batch, with the queue already empty or not: back to the top, then at most one more batch.\<close>

lemma log_batch_to_top:
  assumes "log_inv s" and "log_wrk s = LBatch ms"
  shows "\<exists>t. (log_wrk_step env)\<^sup>*\<^sup>* s t \<and> log_inv t \<and> log_wrk t = LTop \<and> appended t = appended s \<and>
    la_queue (adapter t) = la_queue (adapter s) \<and> la_running (adapter t) = la_running (adapter s)"
proof -
  have "callbacks (adapter s) \<noteq> None" using assms(1) by (simp add: log_inv_def)
  from log_batch_runs [OF this assms(2)] obtain t where t: "(log_wrk_step env)\<^sup>*\<^sup>* s t" "log_wrk t = LBatch []"
    "appended t = appended s" "la_queue (adapter t) = la_queue (adapter s)" "la_running (adapter t) = la_running (adapter s)"
    by (auto simp: log_run_def)
  let ?u = "t\<lparr>log_wrk := LTop, adapter := la_HandleDrops env 0 0 (adapter t)\<rparr>"
  have u: "(log_wrk_step env)\<^sup>*\<^sup>* s ?u" using t(1) wrk_batch_done [OF t(2)] by (rule rtranclp.rtrancl_into_rtrancl)
  from log_wrk_steps_inv [OF u assms(1)] u t show ?thesis by (intro exI [of _ ?u]) simp
qed

lemma log_stops_top:
  assumes "log_inv s" and "log_wrk s = LTop" and "\<not> la_running (adapter s)"
  shows "log_stops env s (appended s)"
proof (cases "la_queue (adapter s) = []")
  case True
  with assms show ?thesis by (rule log_stops_top_empty)
next
  case False
  let ?t = "s\<lparr>log_wrk := LBatch (la_queue (adapter s)), adapter := (adapter s)\<lparr>la_queue := []\<rparr>\<rparr>"
  have t: "log_wrk_step env s ?t" by (rule wrk_swap [OF assms(2) False])
  have "log_inv ?t" by (rule log_wrk_step_inv [OF t assms(1)])
  from log_batch_to_top [OF this, of _ env] obtain u where u: "(log_wrk_step env)\<^sup>*\<^sup>* ?t u" "log_inv u" "log_wrk u = LTop"
    "appended u = appended s" "la_queue (adapter u) = []" "\<not> la_running (adapter u)" using assms(3) by auto
  from log_stops_top_empty [OF u(2,3,6,5)] u(4) have "log_stops env u (appended s)" by simp
  with u(1) have "log_stops env ?t (appended s)" by (rule log_stops_steps)
  with t show ?thesis by (rule log_stops_step)
qed

lemma log_stops_any:
  assumes i: "log_inv s" and r: "\<not> la_running (adapter s)"
    and w: "\<not> (log_wrk s = LStopped \<or> (\<exists>ms. log_wrk s = LFinal ms)) \<or> la_queue (adapter s) = []"
  shows "log_stops env s (appended s)"
proof (cases "log_wrk s")
  case (LBatch ms)
  from log_batch_to_top [OF i LBatch, of env] obtain t where t: "(log_wrk_step env)\<^sup>*\<^sup>* s t" "log_inv t" "log_wrk t = LTop"
    "appended t = appended s" "\<not> la_running (adapter t)" using r by auto
  from log_stops_top [OF t(2,3,5)] t(4) have "log_stops env t (appended s)" by simp
  with t(1) show ?thesis by (rule log_stops_steps)
next
  case LStopped
  with i w have "dispatched s = appended s" by (auto simp: log_inv_def)
  with LStopped show ?thesis unfolding log_stops_def by blast
next
  case LWait
  with i r show ?thesis by (simp add: log_inv_def)
qed (use i r w in \<open>auto intro: log_stops_top log_stops_drain log_stops_final\<close>)

subsection \<open>Properties\<close>

text \<open>
  C11. Under any interleaving of producers, worker and destructor, messages are dispatched exactly once
  and in the order they were appended, and the queue never exceeds its limit: the second check under
  the lock makes the unlocked first check harmless.
\<close>

theorem log_in_order:
  assumes "reachable log_init (log_step env) s"
  shows "appended s = dispatched s @ log_hand (log_wrk s) @ la_queue (adapter s) \<and>
    length (la_queue (adapter s)) \<le> la_max_queue_size (adapter s)"
  using log_order.reachable_inv [OF assms] by (simp add: log_inv_def)

definition demo_log_env :: "unit log_env" where
  "demo_log_env = \<lparr>FormatTime = \<lambda>t. Inr ''now'', hash_tid = \<lambda>t. t, run_cb = \<lambda>cb m. CbThrew ''bad''\<rparr>"

definition demo_log_message :: log_message where
  "demo_log_message = \<lparr>lm_logger_id = ''x'', lm_level = Info, lm_timestamp = 0, lm_thread_id = 1, lm_text = ''hi''\<rparr>"

definition demo_log_start :: "unit log_sys" where
  "demo_log_start = log_start (la_ClearCallbacks (la_new ''x'' 0)) 1"

definition demo_log_appended :: "unit log_sys" where
  "demo_log_appended = demo_log_start
     \<lparr>adapter := la_append demo_log_message (adapter demo_log_start), prods := [PSignal], appended := [demo_log_message]\<rparr>"

lemma demo_log_reachable: "reachable log_init (log_step demo_log_env) demo_log_appended"
proof -
  let ?s1 = "demo_log_start\<lparr>prods := [PChecked demo_log_message]\<rparr>"
  have "reachable log_init (log_step demo_log_env) demo_log_start"
    by (rule reachable_init)
      (auto simp: log_init_def demo_log_start_def la_ClearCallbacks_def la_new_def)
  moreover have "log_step demo_log_env demo_log_start ?s1"
    using prod_check [of 0 demo_log_start demo_log_message]
    by (simp add: log_step_def demo_log_start_def log_start_def la_full_def la_ClearCallbacks_def la_new_def)
  ultimately have "reachable log_init (log_step demo_log_env) ?s1" by (rule reachable_step)
  moreover have "log_step demo_log_env ?s1 demo_log_appended"
    using prod_append [of 0 ?s1 demo_log_message]
    by (simp add: log_step_def demo_log_appended_def demo_log_start_def log_start_def la_full_def la_ClearCallbacks_def la_new_def)
  ultimately show ?thesis by (rule reachable_step)
qed

theorem log_in_order_witness:
  "[demo_log_message] = dispatched demo_log_appended @ log_hand (log_wrk demo_log_appended) @ la_queue (adapter demo_log_appended)"
  using log_in_order [OF demo_log_reachable] by (simp add: demo_log_appended_def)

text \<open>
  Shutdown drains: when the worker has stopped, it has dispatched, in order, every message that was
  in the logger when the destructor began.
\<close>

theorem log_shutdown_drains:
  assumes "reachable log_init (log_step env) s" and "la_running (adapter s)" and "log_dtor_step s s'"
    and "(log_step env)\<^sup>*\<^sup>* s' t" and "log_wrk t = LStopped"
  shows "\<exists>later. dispatched t = appended s @ later"
proof -
  have "log_inv s" by (rule log_order.reachable_inv [OF assms(1)])
  then have "log_ending (appended s) s'" by (rule log_ending_start [OF _ assms(2,3)])
  then have "log_ending (appended s) t" by (rule log_shutdown.steps_inv [OF assms(4)])
  then show ?thesis by (rule log_ending_drained [OF _ assms(5)])
qed

theorem log_shutdown_drains_witness:
  "\<exists>(t :: unit log_sys) later. log_wrk t = LStopped \<and> dispatched t = [demo_log_message] @ later"
proof -
  let ?s = demo_log_appended
  let ?s' = "?s\<lparr>adapter := (adapter ?s)\<lparr>la_running := False\<rparr>, log_wrk := log_wake (log_wrk ?s)\<rparr>"
  have d: "log_dtor_step ?s ?s'" by (rule log_dtor_step.intros)
  have s: "la_running (adapter ?s)" "log_wrk ?s = LTop" "appended ?s = [demo_log_message]"
    by (simp_all add: demo_log_appended_def demo_log_start_def log_start_def la_append_def la_count_drop_def
        la_ClearCallbacks_def la_new_def Let_def)
  have "log_inv ?s'" by (rule log_dtor_step_inv [OF d log_order.reachable_inv [OF demo_log_reachable]])
  then have "log_stops demo_log_env ?s' (appended ?s')" by (rule log_stops_top) (simp_all add: s)
  then obtain t where t: "(log_wrk_step demo_log_env)\<^sup>*\<^sup>* ?s' t" "log_wrk t = LStopped" by (auto simp: log_stops_def)
  have "(log_step demo_log_env)\<^sup>*\<^sup>* ?s' t" using t(1) by (rule rtranclp_mono [THEN predicate2D, rotated]) (auto simp: log_step_def)
  from log_shutdown_drains [OF demo_log_reachable s(1) d this t(2)] t(2) s(3) show ?thesis by auto
qed



lemma log_wrk_can_step:
  assumes "log_inv s" and "log_wrk s \<noteq> LWait" and "log_wrk s \<noteq> LStopped"
  shows "\<exists>t. log_wrk_step env s t"
proof (cases "log_wrk s")
  case LTop
  then show ?thesis
    by (cases "la_queue (adapter s) = []"; cases "la_running (adapter s)") (blast intro: log_wrk_step.intros)+
next
  case (LBatch ms)
  have "callbacks (adapter s) \<noteq> None" using assms by (simp add: log_inv_def)
  with LBatch show ?thesis
    using la_Dispatch_ok by (cases ms) (blast intro: log_wrk_step.intros)+
next
  case (LFinal ms)
  have "callbacks (adapter s) \<noteq> None" using assms by (simp add: log_inv_def)
  with LFinal show ?thesis
    using la_Dispatch_ok by (cases ms) (blast intro: log_wrk_step.intros)+
qed (use assms in \<open>auto intro: log_wrk_step.intros\<close>)

text \<open>
  C29. No lost wake-up: whenever messages wait or shutdown has begun, and the worker has not stopped,
  either the worker itself can take a step or it sleeps and a producer is about to wake it. A worker is
  never left asleep, and its callbacks never fault once the callback list exists.
\<close>

theorem log_progress:
  assumes "reachable log_init (log_step env) s" and "la_queue (adapter s) \<noteq> [] \<or> \<not> la_running (adapter s)"
    and "log_wrk s \<noteq> LStopped"
  shows "(\<exists>t. log_wrk_step env s t) \<or> (\<exists>t. prod_step s t \<and> log_wrk s = LWait \<and> log_wrk t = LTop)"
proof -
  have i: "log_inv s" by (rule log_order.reachable_inv [OF assms(1)])
  show ?thesis
  proof (cases "log_wrk s = LWait")
    case True
    with i assms(2) have "PSignal \<in> set (prods s)" by (auto simp: log_inv_def)
    then obtain j where "j < length (prods s)" "prods s ! j = PSignal" by (auto simp: in_set_conv_nth)
    from prod_signal [OF this] True show ?thesis by force
  qed (use log_wrk_can_step [OF i] assms(3) in blast)
qed

theorem log_progress_witness:
  "(\<exists>t. log_wrk_step demo_log_env demo_log_appended t) \<or>
   (\<exists>t. prod_step demo_log_appended t \<and> log_wrk demo_log_appended = LWait \<and> log_wrk t = LTop)"
  by (rule log_progress [OF demo_log_reachable])
    (simp_all add: demo_log_appended_def demo_log_start_def log_start_def la_append_def la_full_def
      la_ClearCallbacks_def la_new_def)

lemma la_Dispatch_delivers:
  assumes "callbacks a = Some cbs"
  shows "\<exists>a'. la_Dispatch env m a = Inr a' \<and> callbacks a' = Some cbs \<and>
    delivered_to a' = delivered_to a @ map (\<lambda>cb. (cb, m)) cbs \<and>
    (error_buffer a = [] \<longrightarrow> error_buffer a' = []) \<and>
    (cbs = [] \<longrightarrow> a' = la_DefaultLog env m a)"
  using assms by (cases cbs) (simp_all add: la_Dispatch_def la_DefaultLog_def Let_def)

text \<open>
  Delivery. With a callback list in place, dispatching a batch never fails: each callback is called
  exactly once per message, message by message and in the order of registration, whatever exceptions
  the callbacks throw, and the error texts they cause are flushed each time.
\<close>

theorem la_dispatch_all_delivers:
  assumes "callbacks a = Some cbs" and "error_buffer a = []"
  shows "\<exists>a'. la_dispatch_all env ms a = Inr a' \<and> error_buffer a' = [] \<and>
    delivered_to a' = delivered_to a @ concat (map (\<lambda>m. map (\<lambda>cb. (cb, m)) cbs) ms)"
  using assms
proof (induction ms arbitrary: a)
  case (Cons m ms)
  from la_Dispatch_delivers [OF Cons.prems(1), of env m] Cons.prems(2) obtain a1 where
    a1: "la_Dispatch env m a = Inr a1" "callbacks a1 = Some cbs" "error_buffer a1 = []"
    "delivered_to a1 = delivered_to a @ map (\<lambda>cb. (cb, m)) cbs" by blast
  from Cons.IH [OF a1(2,3)] a1(1,4) show ?case by auto
qed simp

theorem la_dispatch_all_delivers_witness:
  "\<exists>a'. la_dispatch_all demo_log_env [demo_log_message, demo_log_message]
      ((la_new ''x'' 0)\<lparr>callbacks := Some [()]\<rparr>) = Inr a' \<and> error_buffer a' = []"
  using la_dispatch_all_delivers [of "(la_new ''x'' 0)\<lparr>callbacks := Some [()]\<rparr>" "[()]" demo_log_env
      "[demo_log_message, demo_log_message]"]
  by (auto simp: la_new_def)

lemma callbacks_fold_Enqueue: "callbacks (fold la_Enqueue ms a) = callbacks a"
  by (induction ms arbitrary: a) (simp_all add: la_enqueue_defs Let_def)

text \<open>
  A fresh logger crashes: \<^verbatim>\<open>callbacks_\<close> starts as a null pointer, so the first batch the worker
  dispatches dereferences it, and so does any attempt to register a callback, until \<^verbatim>\<open>ClearCallbacks\<close> has
  been called once; from then on registration works.
\<close>

theorem la_fresh_logger_faults:
  fixes a :: "'cb log_adapter"
  assumes "msgs \<noteq> []" and "a = fold la_Enqueue msgs (la_new ident now)"
  shows "la_dispatch_all env (la_queue a) a = Inl NullCallbacks \<and>
    la_RegisterCallback cb a = Inl NullCallbacks \<and>
    (\<exists>a'. la_RegisterCallback cb (la_ClearCallbacks a) = Inr a' \<and> callbacks a' = Some [cb])"
proof -
  have null: "callbacks a = None" by (simp add: assms(2) callbacks_fold_Enqueue la_new_def)
  have "la_queue a = take 10000 msgs"
    using log_queue.burst [where q = "la_new ident now" and xs = msgs] by (simp add: assms(2) la_new_def)
  with assms(1) obtain m ms where "la_queue a = m # ms" by (cases msgs) simp_all
  with null show ?thesis
    by (simp add: la_Dispatch_def la_RegisterCallback_def la_ClearCallbacks_def)
qed

theorem la_fresh_logger_faults_witness:
  "la_RegisterCallback () (fold la_Enqueue [demo_log_message] (la_new ''x'' 0)) = Inl NullCallbacks"
  by (rule la_fresh_logger_faults [OF _ refl, THEN conjunct2, THEN conjunct1]) simp

text \<open>
  A burst of log messages keeps the first ones up to the limit, in order, and counts every other one
  as dropped.
\<close>

theorem la_burst:
  "la_queue (fold la_Enqueue msgs a) = la_queue a @ take (la_max_queue_size a - length (la_queue a)) msgs \<and>
   dropped_messages (fold la_Enqueue msgs a) =
     dropped_messages a + of_nat (length msgs - (la_max_queue_size a - length (la_queue a)))"
  using log_queue.burst [where q = a and xs = msgs] log_queue.burst_dropped [where q = a and xs = msgs] by simp

end
