(* ===== verification/Log_Callbacks.thy ===== *)
theory Log_Callbacks
  imports Log_Adapter
begin

text \<open>
  \<^verbatim>\<open>RegisterCallback\<close> and \<^verbatim>\<open>ClearCallbacks\<close> of \<^verbatim>\<open>src/src/vectro/log/log_adapter.h\<close> under concurrency. The
  callback vectors are heap objects that are not changed once published, \<^verbatim>\<open>callbacks_\<close> is an atomic pointer
  to one of them, and a registering thread loads the pointer, copies the vector with its callback
  appended, and tries to exchange the pointer, again and again. A thread holds a reference to the vector
  it compares with, so the address of that vector is not reused, and comparing addresses is comparing
  vectors.

  \<^verbatim>\<open>compare_exchange_weak\<close> may fail although the pointer is the expected one; \<open>spurious\<close> says whether it
  does. The first attempt moves the callback into its copy of the vector; a further attempt copies from
  the same variable, which then holds an empty function, written \<open>None\<close>.
\<close>

subsection \<open>Threads\<close>

text \<open>
  \<open>RLoaded cb old\<close>: \<^verbatim>\<open>old_ptr\<close> has been loaded. \<open>RTry cb e old new\<close>: the copy at \<open>new\<close> has been made, with
  the entry \<open>e\<close> appended for the callback \<open>cb\<close>. \<open>RRetry cb old\<close>: an exchange has failed and has stored
  the present pointer in \<^verbatim>\<open>old_ptr\<close>. \<open>RFault\<close>: a null pointer has been dereferenced.
\<close>

datatype 'cb reg_pc =
    RIdle
  | RLoaded 'cb "nat option"
  | RTry 'cb "'cb option" nat nat
  | RRetry 'cb "nat option"
  | RFault

record 'cb reg_sys =
  cb_ptr :: "nat option"
  vectors :: "'cb option list list"
  regs :: "'cb reg_pc list"
  registered :: "'cb list"

text \<open>\<open>registered\<close> lists the callbacks whose registration has completed since the last \<^verbatim>\<open>ClearCallbacks\<close>.\<close>

definition cb_list :: "'cb reg_sys \<Rightarrow> 'cb option list option" where
  "cb_list s = (case cb_ptr s of None \<Rightarrow> None | Some p \<Rightarrow> Some (vectors s ! p))"

text \<open>Copy the vector behind \<open>old\<close> and append an entry; the copy is a new object.\<close>

definition reg_copy :: "nat \<Rightarrow> 'cb \<Rightarrow> 'cb option \<Rightarrow> nat option \<Rightarrow> 'cb reg_sys \<Rightarrow> 'cb reg_sys" where
  "reg_copy i cb e old s =
     (case old of
        None \<Rightarrow> s\<lparr>regs := (regs s)[i := RFault]\<rparr>
      | Some p \<Rightarrow>
          s\<lparr>vectors := vectors s @ [vectors s ! p @ [e]], regs := (regs s)[i := RTry cb e p (length (vectors s))]\<rparr>)"

inductive reg_step :: "bool \<Rightarrow> 'cb reg_sys \<Rightarrow> 'cb reg_sys \<Rightarrow> bool" for spurious :: bool where
  reg_load: "i < length (regs s) \<Longrightarrow> regs s ! i = RIdle \<Longrightarrow>
    reg_step spurious s (s\<lparr>regs := (regs s)[i := RLoaded cb (cb_ptr s)]\<rparr>)"
| reg_first_copy: "i < length (regs s) \<Longrightarrow> regs s ! i = RLoaded cb old \<Longrightarrow>
    reg_step spurious s (reg_copy i cb (Some cb) old s)"
| reg_exchange: "i < length (regs s) \<Longrightarrow> regs s ! i = RTry cb e old new \<Longrightarrow> cb_ptr s = Some old \<Longrightarrow>
    reg_step spurious s (s\<lparr>cb_ptr := Some new, regs := (regs s)[i := RIdle], registered := registered s @ [cb]\<rparr>)"
| reg_fail: "i < length (regs s) \<Longrightarrow> regs s ! i = RTry cb e old new \<Longrightarrow> cb_ptr s \<noteq> Some old \<or> spurious \<Longrightarrow>
    reg_step spurious s (s\<lparr>regs := (regs s)[i := RRetry cb (cb_ptr s)]\<rparr>)"
| reg_copy_again: "i < length (regs s) \<Longrightarrow> regs s ! i = RRetry cb old \<Longrightarrow>
    reg_step spurious s (reg_copy i cb None old s)"
| reg_clear: "reg_step spurious s (s\<lparr>cb_ptr := Some (length (vectors s)), vectors := vectors s @ [[]], registered := []\<rparr>)"

definition reg_start :: "'cb list option \<Rightarrow> nat \<Rightarrow> 'cb reg_sys" where
  "reg_start cbs n =
     (case cbs of
        None \<Rightarrow> \<lparr>cb_ptr = None, vectors = [], regs = replicate n RIdle, registered = []\<rparr>
      | Some xs \<Rightarrow> \<lparr>cb_ptr = Some 0, vectors = [map Some xs], regs = replicate n RIdle, registered = xs\<rparr>)"

subsection \<open>Invariant\<close>

text \<open>
  Pointers lead to vectors; the copy of a thread about to exchange is the vector it compares with, and
  its entry; the entries of the published vector are the completed registrations, in order, each as its
  callback or emptied.
\<close>

fun reg_pc_ok :: "'cb option list list \<Rightarrow> 'cb reg_pc \<Rightarrow> bool" where
  "reg_pc_ok vs (RLoaded cb old) = (case old of None \<Rightarrow> True | Some p \<Rightarrow> p < length vs)"
| "reg_pc_ok vs (RTry cb e old new) =
     (old < length vs \<and> new < length vs \<and> vs ! new = vs ! old @ [e] \<and> (e = None \<or> e = Some cb))"
| "reg_pc_ok vs (RRetry cb old) = (case old of None \<Rightarrow> True | Some p \<Rightarrow> p < length vs)"
| "reg_pc_ok vs pc = True"

definition entry_of :: "'cb option \<Rightarrow> 'cb \<Rightarrow> bool" where
  "entry_of e cb \<longleftrightarrow> e = None \<or> e = Some cb"

definition reg_inv :: "'cb reg_sys \<Rightarrow> bool" where
  "reg_inv s \<longleftrightarrow>
     list_all (reg_pc_ok (vectors s)) (regs s) \<and>
     (case cb_ptr s of
        None \<Rightarrow> registered s = []
      | Some p \<Rightarrow> p < length (vectors s) \<and> list_all2 entry_of (vectors s ! p) (registered s))"

lemma reg_pc_ok_grow: "reg_pc_ok vs pc \<Longrightarrow> reg_pc_ok (vs @ ws) pc"
  by (cases pc) (auto simp: nth_append split: option.splits)

lemma reg_inv_at: "reg_inv s \<Longrightarrow> i < length (regs s) \<Longrightarrow> reg_pc_ok (vectors s) (regs s ! i)"
  by (simp add: reg_inv_def list_all_length)

lemma reg_inv_set: "reg_inv s \<Longrightarrow> reg_pc_ok (vectors s) pc \<Longrightarrow> reg_inv (s\<lparr>regs := (regs s)[i := pc]\<rparr>)"
  by (simp add: reg_inv_def list_all_update split: option.splits)

lemma reg_inv_alloc: "reg_inv s \<Longrightarrow> reg_inv (s\<lparr>vectors := vectors s @ [v]\<rparr>)"
  by (auto simp: reg_inv_def nth_append list_all_iff intro: reg_pc_ok_grow split: option.splits)

lemma reg_inv_copy:
  assumes "reg_inv s" and "case old of None \<Rightarrow> True | Some p \<Rightarrow> p < length (vectors s)" and "e = None \<or> e = Some cb"
  shows "reg_inv (reg_copy i cb e old s)"
proof (cases old)
  case None
  with assms(1) show ?thesis by (simp add: reg_copy_def reg_inv_set)
next
  case (Some p)
  let ?s = "s\<lparr>vectors := vectors s @ [vectors s ! p @ [e]]\<rparr>"
  have "reg_inv ?s" by (rule reg_inv_alloc [OF assms(1)])
  then have "reg_inv (?s\<lparr>regs := (regs ?s)[i := RTry cb e p (length (vectors s))]\<rparr>)"
    by (rule reg_inv_set) (use assms(2,3) Some in \<open>simp add: nth_append\<close>)
  with Some show ?thesis by (simp add: reg_copy_def)
qed

lemma reg_step_inv: "reg_step spurious s t \<Longrightarrow> reg_inv s \<Longrightarrow> reg_inv t"
proof (induction rule: reg_step.induct)
  case (reg_load i s cb)
  then show ?case by (intro reg_inv_set) (auto simp: reg_inv_def split: option.splits)
next
  case (reg_first_copy i s cb old)
  then show ?case using reg_inv_at [of s i] by (intro reg_inv_copy) auto
next
  case (reg_exchange i s cb e old new)
  then have "reg_pc_ok (vectors s) (RTry cb e old new)" using reg_inv_at [of s i] by simp
  with reg_exchange show ?case
    by (auto simp: reg_inv_def list_all_update list_all2_appendI entry_of_def)
next
  case (reg_fail i s cb e old new)
  then show ?case by (intro reg_inv_set) (auto simp: reg_inv_def split: option.splits)
next
  case (reg_copy_again i s cb old)
  then show ?case using reg_inv_at [of s i] by (intro reg_inv_copy) auto
next
  case (reg_clear s)
  then show ?case using reg_inv_alloc [of s "[]"] by (simp add: reg_inv_def split: option.splits)
qed

definition reg_init :: "'cb reg_sys \<Rightarrow> bool" where
  "reg_init s \<longleftrightarrow> (\<exists>cbs n. s = reg_start cbs n)"

lemma reg_start_inv: "reg_inv (reg_start cbs n)"
  by (auto simp: reg_inv_def reg_start_def entry_of_def list_all2_map1 list_all2_same list_all_length split: option.splits)

interpretation registration: inductive_invariant reg_init "reg_step spurious" reg_inv
  by unfold_locales (auto simp: reg_init_def intro: reg_step_inv reg_start_inv)

text \<open>As long as no exchange has failed, no entry is emptied.\<close>

definition reg_undisturbed :: "'cb reg_sys \<Rightarrow> bool" where
  "reg_undisturbed s \<longleftrightarrow> list_all (\<lambda>pc. case pc of RRetry _ _ \<Rightarrow> False | _ \<Rightarrow> True) (regs s)"

definition reg_step_clean :: "bool \<Rightarrow> 'cb reg_sys \<Rightarrow> 'cb reg_sys \<Rightarrow> bool" where
  "reg_step_clean spurious s t \<longleftrightarrow> reg_step spurious s t \<and> reg_undisturbed t"

definition reg_exact :: "'cb reg_sys \<Rightarrow> bool" where
  "reg_exact s \<longleftrightarrow>
     reg_inv s \<and> reg_undisturbed s \<and>
     list_all (\<lambda>pc. case pc of RTry cb e old new \<Rightarrow> e = Some cb | _ \<Rightarrow> True) (regs s) \<and>
     (case cb_list s of None \<Rightarrow> True | Some es \<Rightarrow> es = map Some (registered s))"

lemma reg_exact_step:
  assumes "reg_step spurious s t" and "reg_exact s" and "reg_undisturbed t"
  shows "reg_exact t"
proof -
  have inv: "reg_inv s" "reg_inv t" using assms reg_step_inv by (auto simp: reg_exact_def)
  from assms(1) inv assms(2,3) show ?thesis
  proof (induction rule: reg_step.induct)
    case (reg_first_copy i s cb old)
    then show ?case
      by (auto simp: reg_exact_def reg_copy_def cb_list_def reg_inv_def nth_append list_all_update split: option.splits)
  next
    case (reg_exchange i s cb e old new)
    then have "reg_pc_ok (vectors s) (RTry cb e old new)" "e = Some cb"
      using reg_inv_at [of s i] by (auto simp: reg_exact_def list_all_length)
    with reg_exchange show ?case by (auto simp: reg_exact_def cb_list_def list_all_update)
  next
    case (reg_fail i s cb e old new)
    then show ?case by (auto simp: reg_undisturbed_def list_all_length)
  next
    case (reg_copy_again i s cb old)
    then show ?case by (auto simp: reg_exact_def reg_undisturbed_def list_all_length)
  qed (auto simp: reg_exact_def cb_list_def list_all_update split: option.splits)
qed

interpretation undisturbed: inductive_invariant reg_init "reg_step_clean spurious" reg_exact
proof (unfold_locales, goal_cases)
  case (1 s)
  then show ?case
    by (auto simp: reg_init_def reg_exact_def reg_start_inv)
      (auto simp: reg_start_def reg_undisturbed_def cb_list_def list_all_length split: option.splits)
next
  case (2 s t)
  then show ?case by (auto simp: reg_step_clean_def intro: reg_exact_step)
qed

subsection \<open>Properties\<close>

text \<open>
  C28. Registrations are neither lost nor duplicated: however registering threads, clearing threads and
  spurious failures interleave, the published vector has exactly one entry for every registration
  completed since the last \<^verbatim>\<open>ClearCallbacks\<close>, in the order of completion. An entry is the registered
  callback or, at worst, an empty function.
\<close>

theorem reg_nothing_lost:
  assumes "reachable reg_init (reg_step spurious) s" and "cb_list s = Some es"
  shows "list_all2 entry_of es (registered s)"
  using registration.reachable_inv [OF assms(1)] assms(2) by (auto simp: reg_inv_def cb_list_def split: option.splits)

definition demo_reg :: "string reg_sys" where
  "demo_reg = reg_start (Some [''a'']) 2"

lemma demo_reg_reachable: "reachable reg_init (reg_step b) demo_reg"
  by (rule reachable_init) (auto simp: reg_init_def demo_reg_def)

theorem reg_nothing_lost_witness: "list_all2 entry_of [Some ''a''] (registered demo_reg)"
  by (rule reg_nothing_lost [OF demo_reg_reachable]) (simp add: demo_reg_def reg_start_def cb_list_def)

text \<open>
  Without contention registration is exact: as long as no exchange fails, the published vector holds
  exactly the registered callbacks, in order.
\<close>

theorem reg_uncontended_exact:
  assumes "reachable reg_init (reg_step_clean spurious) s" and "cb_list s = Some es"
  shows "es = map Some (registered s)"
  using undisturbed.reachable_inv [OF assms(1)] assms(2) by (auto simp: reg_exact_def)

theorem reg_uncontended_exact_witness: "[Some ''a''] = map Some (registered demo_reg)"
proof (rule reg_uncontended_exact)
  show "reachable reg_init (reg_step_clean False) demo_reg"
    by (rule reachable_init) (auto simp: reg_init_def demo_reg_def)
qed (simp add: demo_reg_def reg_start_def cb_list_def)

text \<open>
  A thread that registers alone does what the sequential \<open>la_RegisterCallback\<close> says: it dereferences a
  null pointer if there is no vector, and otherwise publishes the vector with its callback appended.
\<close>

theorem reg_alone:
  assumes "reg_inv s" and "i < length (regs s)" and "regs s ! i = RIdle" and "cb_list s = map_option (map Some) (callbacks a)"
  shows "case la_RegisterCallback cb a of
      Inl NullCallbacks \<Rightarrow> \<exists>t. (reg_step spurious)\<^sup>*\<^sup>* s t \<and> regs t ! i = RFault
    | Inr a' \<Rightarrow> \<exists>t. (reg_step spurious)\<^sup>*\<^sup>* s t \<and> regs t = regs s \<and> cb_list t = map_option (map Some) (callbacks a')"
proof -
  let ?s1 = "s\<lparr>regs := (regs s)[i := RLoaded cb (cb_ptr s)]\<rparr>"
  let ?s2 = "reg_copy i cb (Some cb) (cb_ptr s) ?s1"
  have "reg_step spurious s ?s1" by (rule reg_load [OF assms(2,3)])
  moreover have "reg_step spurious ?s1 ?s2" using assms(2) by (intro reg_first_copy) simp_all
  ultimately have two: "(reg_step spurious)\<^sup>*\<^sup>* s ?s2" by auto
  show ?thesis
  proof (cases "cb_ptr s")
    case None
    with two assms(2,4) show ?thesis by (auto simp: la_RegisterCallback_def cb_list_def reg_copy_def)
  next
    case (Some p)
    let ?s3 = "?s2\<lparr>cb_ptr := Some (length (vectors s)), regs := (regs ?s2)[i := RIdle], registered := registered ?s2 @ [cb]\<rparr>"
    have "reg_step spurious ?s2 ?s3"
      by (rule reg_exchange [of i ?s2 cb "Some cb" p]) (use assms(2) Some in \<open>simp_all add: reg_copy_def\<close>)
    with two have "(reg_step spurious)\<^sup>*\<^sup>* s ?s3" by (rule rtranclp.rtrancl_into_rtrancl)
    moreover have "regs ?s3 = regs s" using Some assms(2,3) by (simp add: reg_copy_def list_update_same_conv)
    moreover obtain cbs where "callbacks a = Some cbs" "vectors s ! p = map Some cbs"
      using assms(4) Some by (cases "callbacks a") (auto simp: cb_list_def)
    ultimately show ?thesis using Some
      by (auto simp: la_RegisterCallback_def cb_list_def reg_copy_def intro!: exI [of _ ?s3])
  qed
qed

theorem reg_alone_witness:
  "\<exists>t. (reg_step False)\<^sup>*\<^sup>* demo_reg t \<and> regs t = regs demo_reg \<and> cb_list t = Some [Some ''a'', Some ''b'']"
  using reg_alone [of demo_reg 0 "(la_new ''x'' 0)\<lparr>callbacks := Some [''a'']\<rparr>" False "''b''"]
  by (auto simp: demo_reg_def reg_start_inv la_RegisterCallback_def) (auto simp: reg_start_def cb_list_def)

text \<open>
  Contention empties a callback. Two threads register \<open>a\<close> and \<open>b\<close>; \<open>b\<close> loses the race for the exchange
  and tries again, but its callback has been moved into the copy it throws away: the vector ends up with
  \<open>a\<close> and an empty function, which \<^verbatim>\<open>Dispatch\<close> calls for every message, catching \<^verbatim>\<open>std::bad_function_call\<close>.
\<close>

theorem reg_contended_empties:
  "\<exists>s. reachable reg_init (reg_step False) s \<and> registered s = [a, b] \<and> cb_list s = Some [Some a, None]"
proof -
  let ?st = "\<lambda>p vs pcs done. \<lparr>cb_ptr = Some p, vectors = vs, regs = pcs, registered = done\<rparr>"
  let ?s0 = "?st 0 [[]] [RIdle, RIdle] []"
  let ?s1 = "?st 0 [[]] [RLoaded a (Some 0), RIdle] []"
  let ?s2 = "?st 0 [[]] [RLoaded a (Some 0), RLoaded b (Some 0)] []"
  let ?s3 = "?st 0 [[], [Some a]] [RTry a (Some a) 0 1, RLoaded b (Some 0)] []"
  let ?s4 = "?st 0 [[], [Some a], [Some b]] [RTry a (Some a) 0 1, RTry b (Some b) 0 2] []"
  let ?s5 = "?st 1 [[], [Some a], [Some b]] [RIdle, RTry b (Some b) 0 2] [a]"
  let ?s6 = "?st 1 [[], [Some a], [Some b]] [RIdle, RRetry b (Some 1)] [a]"
  let ?s7 = "?st 1 [[], [Some a], [Some b], [Some a, None]] [RIdle, RTry b None 1 3] [a]"
  let ?s8 = "?st 3 [[], [Some a], [Some b], [Some a, None]] [RIdle, RIdle] [a, b]"
  let ?R = "reachable reg_init (reg_step False)"
  have "?s0 = reg_start (Some []) 2" by (simp add: reg_start_def numeral_2_eq_2)
  then have "?R ?s0" by (intro reachable_init) (auto simp: reg_init_def)
  moreover have "reg_step False ?s0 ?s1" using reg_load [of 0 ?s0 False a] by simp
  ultimately have "?R ?s1" by (rule reachable_step)
  moreover have "reg_step False ?s1 ?s2" using reg_load [of 1 ?s1 False b] by simp
  ultimately have "?R ?s2" by (rule reachable_step)
  moreover have "reg_step False ?s2 ?s3" using reg_first_copy [of 0 ?s2 a "Some 0" False] by (simp add: reg_copy_def)
  ultimately have "?R ?s3" by (rule reachable_step)
  moreover have "reg_step False ?s3 ?s4"
    using reg_first_copy [of 1 ?s3 b "Some 0" False] by (simp add: reg_copy_def numeral_2_eq_2)
  ultimately have "?R ?s4" by (rule reachable_step)
  moreover have "reg_step False ?s4 ?s5" using reg_exchange [of 0 ?s4 a "Some a" 0 1 False] by simp
  ultimately have "?R ?s5" by (rule reachable_step)
  moreover have "reg_step False ?s5 ?s6" using reg_fail [of 1 ?s5 b "Some b" 0 2 False] by simp
  ultimately have "?R ?s6" by (rule reachable_step)
  moreover have "reg_step False ?s6 ?s7"
    using reg_copy_again [of 1 ?s6 b "Some 1" False] by (simp add: reg_copy_def numeral_3_eq_3)
  ultimately have "?R ?s7" by (rule reachable_step)
  moreover have "reg_step False ?s7 ?s8" using reg_exchange [of 1 ?s7 b None 1 3 False] by simp
  ultimately have "?R ?s8" by (rule reachable_step)
  then show ?thesis by (intro exI [of _ ?s8]) (simp add: cb_list_def)
qed

end
