(* ===== verification/Log_Shutdown.thy ===== *)
theory Log_Shutdown
  imports Log_Adapter
begin

text \<open>
  The destructor of \<^verbatim>\<open>src/src/vectro/log/log_adapter.h\<close> from its signal to its return, with the threads of
  \<open>Log_Adapter\<close> running beside it. It waits until the worker has stopped or the shutdown timeout has
  passed, then joins a stopped worker and detaches any other; after that the members are gone. A step a
  worker takes on a destroyed adapter is a use after free. \<open>timeout\<close> says whether the timeout may pass
  before the worker has stopped; time itself is not modelled.

  Also here: the process-wide default logger and the logging macros.
\<close>

subsection \<open>The default logger\<close>

definition DefaultLogAdapter :: "int \<Rightarrow> 'cb log_adapter" where
  "DefaultLogAdapter now = la_new ''DefaultLogAdapter'' now"

text \<open>The nine macros differ in the level they pass on.\<close>

definition LOG_ADPT :: "log_level \<Rightarrow> string \<Rightarrow> int \<Rightarrow> nat \<Rightarrow> 'cb log_adapter \<Rightarrow> 'cb log_adapter" where
  "LOG_ADPT level msg now tid default_logger = la_Log level msg now tid default_logger"

subsection \<open>The destructor\<close>

datatype log_dtor_pc = LtNone | LtWaiting | LtDecided | LtJoining | LtJoined | LtDetached

record 'cb log_life =
  logs :: "'cb log_sys"
  log_dtor :: log_dtor_pc
  at_signal :: "log_message list"
  used_after_free :: bool

definition adapter_gone :: "log_dtor_pc \<Rightarrow> bool" where
  "adapter_gone pc \<longleftrightarrow> pc = LtJoined \<or> pc = LtDetached"

text \<open>The steps of the destructor after its signal: the end of the wait, the choice, the join.\<close>

inductive dtor_own :: "bool \<Rightarrow> 'cb log_life \<Rightarrow> 'cb log_life \<Rightarrow> bool" for timeout :: bool where
  own_decide: "log_dtor s = LtWaiting \<Longrightarrow> la_stopped (adapter (logs s)) \<or> timeout \<Longrightarrow>
    dtor_own timeout s (s\<lparr>log_dtor := LtDecided\<rparr>)"
| own_join: "log_dtor s = LtDecided \<Longrightarrow> la_stopped (adapter (logs s)) \<Longrightarrow>
    dtor_own timeout s (s\<lparr>log_dtor := LtJoining\<rparr>)"
| own_detach: "log_dtor s = LtDecided \<Longrightarrow> \<not> la_stopped (adapter (logs s)) \<Longrightarrow>
    dtor_own timeout s (s\<lparr>log_dtor := LtDetached\<rparr>)"
| own_joined: "log_dtor s = LtJoining \<Longrightarrow> log_wrk (logs s) = LStopped \<Longrightarrow>
    dtor_own timeout s (s\<lparr>log_dtor := LtJoined\<rparr>)"

text \<open>All threads: producers and worker while the adapter exists, a worker after it, the destructor.\<close>

inductive life_step :: "'cb log_env \<Rightarrow> bool \<Rightarrow> 'cb log_life \<Rightarrow> 'cb log_life \<Rightarrow> bool"
  for env :: "'cb log_env" and timeout :: bool where
  life_prod: "\<not> adapter_gone (log_dtor s) \<Longrightarrow> prod_step (logs s) l \<Longrightarrow> life_step env timeout s (s\<lparr>logs := l\<rparr>)"
| life_wrk: "\<not> adapter_gone (log_dtor s) \<Longrightarrow> log_wrk_step env (logs s) l \<Longrightarrow> life_step env timeout s (s\<lparr>logs := l\<rparr>)"
| life_freed: "adapter_gone (log_dtor s) \<Longrightarrow> log_wrk_step env (logs s) l \<Longrightarrow>
    life_step env timeout s (s\<lparr>used_after_free := True\<rparr>)"
| life_signal: "log_dtor s = LtNone \<Longrightarrow> log_dtor_step (logs s) l \<Longrightarrow>
    life_step env timeout s (s\<lparr>logs := l, log_dtor := LtWaiting, at_signal := appended (logs s)\<rparr>)"
| life_own: "dtor_own timeout s t \<Longrightarrow> life_step env timeout s t"

definition life_init :: "'cb log_life \<Rightarrow> bool" where
  "life_init s \<longleftrightarrow>
     log_init (logs s) \<and> \<not> la_stopped (adapter (logs s)) \<and> log_dtor s = LtNone \<and> \<not> used_after_free s"

subsection \<open>Invariants\<close>

lemma la_stopped_call [simp]: "la_stopped (la_call env m cb a) = la_stopped a"
  by (simp add: la_call_def)

lemma la_stopped_fields [simp]:
  "la_stopped (la_append lm a) = la_stopped a" "la_stopped (la_count_drop a) = la_stopped a"
  "la_stopped (la_HandleDrops env now tid a) = la_stopped a" "la_stopped (fold (la_call env m) cbs a) = la_stopped a"
proof -
  show "la_stopped (fold (la_call env m) cbs a) = la_stopped a"
    by (induction cbs arbitrary: a) simp_all
qed (simp_all add: la_append_def la_count_drop_def la_HandleDrops_def la_DefaultLog_def Let_def)

lemma la_stopped_Dispatch: "la_Dispatch env m a = Inr a' \<Longrightarrow> la_stopped a' = la_stopped a"
  by (auto simp: la_Dispatch_def la_DefaultLog_def Let_def split: option.splits list.splits if_splits)

text \<open>The flag \<^verbatim>\<open>stopped_\<close> is set by the last step of the worker.\<close>

definition stopped_exact :: "'cb log_sys \<Rightarrow> bool" where
  "stopped_exact l \<longleftrightarrow> (la_stopped (adapter l) \<longleftrightarrow> log_wrk l = LStopped)"

lemma stopped_exact_prod: "prod_step l l' \<Longrightarrow> stopped_exact l \<Longrightarrow> stopped_exact l'"
  by (induction rule: prod_step.induct) (auto simp: stopped_exact_def)

lemma stopped_exact_wrk: "log_wrk_step env l l' \<Longrightarrow> stopped_exact l \<Longrightarrow> stopped_exact l'"
  by (induction rule: log_wrk_step.induct) (auto simp: stopped_exact_def dest: la_stopped_Dispatch)

lemma stopped_exact_dtor: "log_dtor_step l l' \<Longrightarrow> stopped_exact l \<Longrightarrow> stopped_exact l'"
  by (induction rule: log_dtor_step.induct) (auto simp: stopped_exact_def)

lemma LStopped_final: "log_wrk_step env l l' \<Longrightarrow> log_wrk l \<noteq> LStopped"
  by (induction rule: log_wrk_step.induct) auto

lemma prod_step_stopped: "prod_step l l' \<Longrightarrow> log_wrk l = LStopped \<Longrightarrow> log_wrk l' = LStopped"
  by (induction rule: prod_step.induct) auto

lemma prod_step_awake: "prod_step l l' \<Longrightarrow> log_wrk l \<noteq> LWait \<Longrightarrow> log_wrk l' \<noteq> LWait"
  by (induction rule: prod_step.induct) simp_all

lemma log_wrk_step_awake: "log_wrk_step env l l' \<Longrightarrow> log_wrk l' = LWait \<Longrightarrow> la_running (adapter l)"
  by (induction rule: log_wrk_step.induct) simp_all

lemma log_dtor_step_awake: "log_dtor_step l l' \<Longrightarrow> log_wrk l' \<noteq> LWait"
  by (induction rule: log_dtor_step.induct) simp

lemma log_ending_off: "log_ending A l \<Longrightarrow> \<not> la_running (adapter l)"
  by (simp add: log_ending_def)

lemma log_running_kept: "prod_step l l' \<or> log_wrk_step env l l' \<Longrightarrow> la_running (adapter l') = la_running (adapter l)"
  by (auto elim!: prod_step.cases log_wrk_step.cases dest: la_Dispatch_fields
      simp: la_append_def la_count_drop_def Let_def)

definition life_inv :: "bool \<Rightarrow> 'cb log_life \<Rightarrow> bool" where
  "life_inv timeout s \<longleftrightarrow>
     log_inv (logs s) \<and> stopped_exact (logs s) \<and>
     (if log_dtor s = LtNone then la_running (adapter (logs s)) else log_ending (at_signal s) (logs s)) \<and>
     (log_dtor s \<noteq> LtNone \<longrightarrow> log_wrk (logs s) \<noteq> LWait) \<and>
     (log_dtor s \<in> {LtJoining, LtJoined} \<longrightarrow> log_wrk (logs s) = LStopped) \<and>
     (log_dtor s = LtDecided \<and> \<not> timeout \<longrightarrow> log_wrk (logs s) = LStopped) \<and>
     (log_dtor s = LtDetached \<longrightarrow> timeout) \<and>
     (used_after_free s \<longrightarrow> log_dtor s = LtDetached)"

lemma life_step_inv: "life_step env timeout s t \<Longrightarrow> life_inv timeout s \<Longrightarrow> life_inv timeout t"
proof (induction rule: life_step.induct)
  case (life_prod s l)
  then show ?case
    using log_running_kept [of "logs s" l] prod_step_stopped [OF life_prod(2)] prod_step_awake [OF life_prod(2)]
    by (auto simp: life_inv_def adapter_gone_def intro: prod_step_inv stopped_exact_prod prod_step_ending split: if_splits)
next
  case (life_wrk s l)
  then show ?case
    using log_running_kept [of "logs s" l] LStopped_final [OF life_wrk(2)] log_wrk_step_awake [OF life_wrk(2)]
    by (auto simp: life_inv_def adapter_gone_def dest: log_ending_off intro: log_wrk_step_inv stopped_exact_wrk log_wrk_step_ending split: if_splits)
next
  case (life_freed s l)
  then show ?case
    using LStopped_final [OF life_freed(2)] by (auto simp: life_inv_def adapter_gone_def)
next
  case (life_signal s l)
  then show ?case
    using log_dtor_step_awake [OF life_signal(2)]
    by (auto simp: life_inv_def intro: log_dtor_step_inv stopped_exact_dtor log_ending_start)
next
  case (life_own s t)
  then show ?case
    by (induction rule: dtor_own.induct) (auto simp: life_inv_def stopped_exact_def split: if_splits)
qed

interpretation log_life: inductive_invariant life_init "life_step env timeout" "life_inv timeout"
proof (unfold_locales, goal_cases)
  case (1 s)
  then have "log_inv (logs s)" by (intro log_order.base) (simp add: life_init_def)
  with 1 show ?case
    by (auto simp: life_init_def life_inv_def stopped_exact_def log_init_def log_start_def)
next
  case (2 s t)
  then show ?case by (rule life_step_inv)
qed

subsection \<open>Properties\<close>

text \<open>A run in which one message has been appended when the destructor signals.\<close>

definition demo_life :: "unit log_sys \<Rightarrow> unit log_life" where
  "demo_life l = \<lparr>logs = l, log_dtor = LtNone, at_signal = [], used_after_free = False\<rparr>"

definition demo_signalled :: "unit log_life" where
  "demo_signalled =
     (demo_life (demo_log_appended
        \<lparr>adapter := (adapter demo_log_appended)\<lparr>la_running := False\<rparr>, log_wrk := log_wake (log_wrk demo_log_appended)\<rparr>))
     \<lparr>log_dtor := LtWaiting, at_signal := appended demo_log_appended\<rparr>"

lemma demo_life_sim:
  assumes "reachable life_init (life_step env timeout) (demo_life l)" and "prod_step l l'"
  shows "reachable life_init (life_step env timeout) (demo_life l')"
  using reachable_step [OF assms(1) life_prod [of "demo_life l" l' env timeout]] assms(2)
  by (simp add: demo_life_def adapter_gone_def)

lemma demo_signalled_reachable: "reachable life_init (life_step env timeout) demo_signalled"
proof -
  let ?s1 = "demo_log_start\<lparr>prods := [PChecked demo_log_message]\<rparr>"
  note [simp] = demo_log_start_def log_start_def la_full_def la_ClearCallbacks_def la_new_def
  have "reachable life_init (life_step env timeout) (demo_life demo_log_start)"
    by (rule reachable_init) (auto simp: life_init_def log_init_def demo_life_def intro: exI [of _ "1 :: nat"])
  moreover have "prod_step demo_log_start ?s1"
    using prod_check [of 0 demo_log_start demo_log_message] by simp
  moreover have "prod_step ?s1 demo_log_appended"
    using prod_append [of 0 ?s1 demo_log_message] by (simp add: demo_log_appended_def)
  ultimately have r: "reachable life_init (life_step env timeout) (demo_life demo_log_appended)"
    by (blast intro: demo_life_sim)
  show ?thesis
    by (rule reachable_step [OF r])
      (use life_signal [of "demo_life demo_log_appended", OF _ log_dtor_step.intros] in
        \<open>simp add: demo_signalled_def demo_life_def\<close>)
qed

lemma life_wrk_steps:
  assumes "(log_wrk_step env)\<^sup>*\<^sup>* (logs s) l" and "reachable life_init (life_step env timeout) s" and "\<not> adapter_gone (log_dtor s)"
  shows "reachable life_init (life_step env timeout) (s\<lparr>logs := l\<rparr>)"
  using assms(1)
proof (induction rule: rtranclp_induct)
  case (step l l')
  have "life_step env timeout (s\<lparr>logs := l\<rparr>) (s\<lparr>logs := l\<rparr>\<lparr>logs := l'\<rparr>)"
    by (rule life_wrk) (use assms(3) step in simp_all)
  with step.IH show ?case by (auto intro: reachable_step)
qed (use assms in simp)

lemma dtor_own_reachable:
  "(dtor_own timeout)\<^sup>*\<^sup>* s t \<Longrightarrow> reachable life_init (life_step env timeout) s \<Longrightarrow>
   reachable life_init (life_step env timeout) t"
  by (induction rule: rtranclp_induct) (blast intro: reachable_step life_own)+

lemma demo_stopped:
  obtains l where "(log_wrk_step demo_log_env)\<^sup>*\<^sup>* (logs demo_signalled) l" "log_wrk l = LStopped"
proof -
  have i: "life_inv True demo_signalled" by (rule log_life.reachable_inv [OF demo_signalled_reachable])
  have "log_stops demo_log_env (logs demo_signalled) (appended (logs demo_signalled))"
    using i by (intro log_stops_top)
      (simp_all add: life_inv_def demo_signalled_def demo_life_def demo_log_appended_def demo_log_start_def log_start_def)
  then show ?thesis using that by (auto simp: log_stops_def)
qed

lemma dtor_own_decided:
  assumes "stopped_exact (logs s)" and "log_dtor s = LtDecided"
  shows "\<exists>t. (dtor_own timeout)\<^sup>*\<^sup>* s t \<and> logs t = logs s \<and>
    log_dtor t = (if log_wrk (logs s) = LStopped then LtJoined else LtDetached)"
proof (cases "log_wrk (logs s) = LStopped")
  case True
  let ?s = "s\<lparr>log_dtor := LtJoining\<rparr>"
  have "dtor_own timeout s ?s" using True assms by (intro own_join) (auto simp: stopped_exact_def)
  moreover have "dtor_own timeout ?s (?s\<lparr>log_dtor := LtJoined\<rparr>)" using True by (intro own_joined) simp_all
  ultimately have "(dtor_own timeout)\<^sup>*\<^sup>* s (?s\<lparr>log_dtor := LtJoined\<rparr>)" by (meson converse_rtranclp_into_rtranclp r_into_rtranclp)
  with True show ?thesis by (intro exI [of _ "?s\<lparr>log_dtor := LtJoined\<rparr>"]) simp
next
  case False
  then have "dtor_own timeout s (s\<lparr>log_dtor := LtDetached\<rparr>)"
    using assms by (intro own_detach) (auto simp: stopped_exact_def)
  with False show ?thesis by (intro exI [of _ "s\<lparr>log_dtor := LtDetached\<rparr>"]) auto
qed

text \<open>
  C27. A destructor that joins its worker leaves nothing behind: the worker has stopped, every message that
  had been appended when the destructor began has been dispatched, in order, and no thread has touched
  the adapter after its members were gone.
\<close>

theorem log_destructor_joins:
  assumes "reachable life_init (life_step env timeout) s" and "log_dtor s = LtJoined"
  shows "log_wrk (logs s) = LStopped \<and> \<not> used_after_free s \<and> (\<exists>later. dispatched (logs s) = at_signal s @ later)"
proof -
  have i: "life_inv timeout s" by (rule log_life.reachable_inv [OF assms(1)])
  with assms(2) have "log_ending (at_signal s) (logs s)" "log_wrk (logs s) = LStopped" by (simp_all add: life_inv_def)
  from log_ending_drained [OF this] i assms(2) show ?thesis by (auto simp: life_inv_def)
qed

theorem log_destructor_joins_witness:
  "\<exists>(s :: unit log_life) later. log_dtor s = LtJoined \<and> \<not> used_after_free s \<and> dispatched (logs s) = [demo_log_message] @ later"
proof -
  obtain l where l: "(log_wrk_step demo_log_env)\<^sup>*\<^sup>* (logs demo_signalled) l" "log_wrk l = LStopped" by (rule demo_stopped)
  let ?s = "demo_signalled\<lparr>logs := l\<rparr>" and ?d = "demo_signalled\<lparr>logs := l, log_dtor := LtDecided\<rparr>"
  have r: "reachable life_init (life_step demo_log_env False) ?s"
    by (rule life_wrk_steps [OF l(1) demo_signalled_reachable]) (simp add: demo_signalled_def adapter_gone_def)
  have x: "stopped_exact l" using log_life.reachable_inv [OF r] by (simp add: life_inv_def)
  have "dtor_own False ?s ?d"
    using own_decide [of ?s False] x l(2) by (simp add: demo_signalled_def stopped_exact_def)
  then have d: "reachable life_init (life_step demo_log_env False) ?d" by (blast intro: reachable_step [OF r] life_own)
  obtain t where t: "(dtor_own False)\<^sup>*\<^sup>* ?d t" "log_dtor t = LtJoined"
    using dtor_own_decided [of ?d False] x l(2) by auto
  have "at_signal t = [demo_log_message]"
    using t(1) by (induction rule: rtranclp_induct)
      (auto simp: demo_signalled_def demo_log_appended_def elim: dtor_own.cases)
  with log_destructor_joins [OF dtor_own_reachable [OF t(1) d] t(2)] t(2) show ?thesis by auto
qed


text \<open>
  The destructor returns. Once it waits, has decided or joins, its own steps lead to its end as soon as the
  worker has stopped or the timeout has passed, whatever the worker is doing: joined if the worker has
  stopped, detached otherwise. It never blocks in \<^verbatim>\<open>join()\<close>.
\<close>

theorem log_destructor_returns:
  assumes "reachable life_init (life_step env timeout) s" and "log_dtor s \<noteq> LtNone"
    and "timeout \<or> log_wrk (logs s) = LStopped"
  shows "\<exists>t. (dtor_own timeout)\<^sup>*\<^sup>* s t \<and> logs t = logs s \<and> adapter_gone (log_dtor t) \<and>
    (\<not> adapter_gone (log_dtor s) \<longrightarrow> log_dtor t = (if log_wrk (logs s) = LStopped then LtJoined else LtDetached))"
proof -
  have i: "life_inv timeout s" by (rule log_life.reachable_inv [OF assms(1)])
  show ?thesis
  proof (cases "log_dtor s")
    case LtWaiting
    let ?s = "s\<lparr>log_dtor := LtDecided\<rparr>"
    have "dtor_own timeout s ?s"
      using i LtWaiting assms(3) by (intro own_decide) (auto simp: life_inv_def stopped_exact_def)
    moreover have "\<exists>t. (dtor_own timeout)\<^sup>*\<^sup>* ?s t \<and> logs t = logs ?s \<and>
        log_dtor t = (if log_wrk (logs ?s) = LStopped then LtJoined else LtDetached)"
      using i by (intro dtor_own_decided) (simp_all add: life_inv_def)
    ultimately show ?thesis
      by (auto simp: adapter_gone_def LtWaiting split: if_splits intro: converse_rtranclp_into_rtranclp)
  next
    case LtDecided
    then have "\<exists>t. (dtor_own timeout)\<^sup>*\<^sup>* s t \<and> logs t = logs s \<and>
        log_dtor t = (if log_wrk (logs s) = LStopped then LtJoined else LtDetached)"
      using i by (intro dtor_own_decided) (simp_all add: life_inv_def)
    then show ?thesis by (auto simp: adapter_gone_def LtDecided split: if_splits)
  next
    case LtJoining
    then have "log_wrk (logs s) = LStopped" using i by (simp add: life_inv_def)
    with LtJoining show ?thesis
      by (intro exI [of _ "s\<lparr>log_dtor := LtJoined\<rparr>"]) (auto simp: adapter_gone_def intro: own_joined)
  qed (use assms(2) in \<open>auto simp: adapter_gone_def intro: exI [of _ s]\<close>)
qed

theorem log_destructor_returns_witness:
  "\<exists>t. (dtor_own True)\<^sup>*\<^sup>* demo_signalled t \<and> log_dtor t = LtDetached"
  using log_destructor_returns [OF demo_signalled_reachable, of True]
  by (auto simp: demo_signalled_def demo_life_def demo_log_appended_def demo_log_start_def log_start_def adapter_gone_def)


text \<open>
  Detaching is not safe. A destructor that may not time out never detaches and its adapter is never used after
  it is gone; but whenever a detached worker has not stopped, that worker can still take a step, and
  the step uses the destroyed adapter.
\<close>

theorem log_detach_unsafe:
  assumes "reachable life_init (life_step env timeout) s"
  shows "(\<not> timeout \<longrightarrow> log_dtor s \<noteq> LtDetached \<and> \<not> used_after_free s) \<and>
    (log_dtor s = LtDetached \<and> log_wrk (logs s) \<noteq> LStopped \<longrightarrow>
       (\<exists>t. life_step env timeout s t \<and> used_after_free t))"
proof -
  have i: "life_inv timeout s" by (rule log_life.reachable_inv [OF assms])
  have "\<exists>t. life_step env timeout s t \<and> used_after_free t"
    if d: "log_dtor s = LtDetached" "log_wrk (logs s) \<noteq> LStopped"
  proof -
    obtain l where "log_wrk_step env (logs s) l"
      using log_wrk_can_step [of "logs s" env] i d by (auto simp: life_inv_def)
    from life_freed [OF _ this] d(1) show ?thesis by (fastforce simp: adapter_gone_def)
  qed
  with i show ?thesis by (auto simp: life_inv_def)
qed

theorem log_detach_unsafe_witness:
  "\<exists>s t. log_dtor s = LtDetached \<and> life_step demo_log_env True s t \<and> used_after_free t"
proof -
  let ?d = "demo_signalled\<lparr>log_dtor := LtDecided\<rparr>"
  let ?t = "?d\<lparr>log_dtor := LtDetached\<rparr>"
  note [simp] = demo_signalled_def demo_life_def demo_log_appended_def demo_log_start_def log_start_def
    la_ClearCallbacks_def la_new_def
  have "dtor_own True demo_signalled ?d" by (rule own_decide) simp_all
  moreover have "dtor_own True ?d ?t" by (rule own_detach) simp_all
  ultimately have "(dtor_own True)\<^sup>*\<^sup>* demo_signalled ?t" by (meson converse_rtranclp_into_rtranclp r_into_rtranclp)
  from dtor_own_reachable [OF this demo_signalled_reachable]
  have "reachable life_init (life_step demo_log_env True) ?t" .
  from log_detach_unsafe [OF this] have "\<exists>t. life_step demo_log_env True ?t t \<and> used_after_free t" by simp
  moreover have "log_dtor ?t = LtDetached" by simp
  ultimately show ?thesis by blast
qed


end
