(* ===== verification/Tls_Providers.thy ===== *)
theory Tls_Providers
  imports Prelude
begin

text \<open>
  \<^verbatim>\<open>src/src/vectro/tls/\<close>: the providers of TLS contexts. A context is what the code configures on an
  \<^verbatim>\<open>asio::ssl::context\<close>. Whether a file can be loaded is decided by the file system and OpenSSL: \<open>ssl_files\<close>
  is a parameter, and a file that cannot be loaded makes the call throw. \<^verbatim>\<open>StartReloadTimer\<close> copies the
  function object it is just initializing; reading an object before its initialization is a fault of
  the model. The reloads a working timer would make are calls of \<^verbatim>\<open>ReloadContext\<close> at any time.
\<close>

datatype tls_method = Tlsv12Client | Tlsv12Server

datatype verify_mode = VerifyNone | VerifyPeer

record ssl_context =
  tls_method :: tls_method
  verify_mode :: "verify_mode option"
  verify_file :: "string option"
  certificate_chain :: "string option"
  private_key :: "string option"
  default_workarounds :: bool

definition ssl_new :: "tls_method \<Rightarrow> ssl_context" where
  "ssl_new method =
     \<lparr>tls_method = method, verify_mode = None, verify_file = None, certificate_chain = None, private_key = None,
      default_workarounds = False\<rparr>"

record ssl_files =
  loads_verify :: "string \<Rightarrow> bool"
  loads_chain :: "string \<Rightarrow> bool"
  loads_key :: "string \<Rightarrow> bool"

datatype tls_error = CannotLoad string

subsection \<open>Client providers\<close>

definition default_client_provider :: "tls_error + ssl_context" where
  "default_client_provider =
     (let ctx = ssl_new Tlsv12Client; ctx1 = ctx\<lparr>verify_mode := Some VerifyNone\<rparr>
      in Inr (ctx1\<lparr>default_workarounds := True\<rparr>))"

definition ca_verified_client_provider :: "ssl_files \<Rightarrow> string \<Rightarrow> tls_error + ssl_context" where
  "ca_verified_client_provider fs ca_bundle_path =
     (let ctx = (ssl_new Tlsv12Client)\<lparr>verify_mode := Some VerifyPeer\<rparr>
      in if loads_verify fs ca_bundle_path
         then Inr (ctx\<lparr>verify_file := Some ca_bundle_path, default_workarounds := True\<rparr>)
         else Inl (CannotLoad ca_bundle_path))"

definition self_signed_client_provider :: "ssl_files \<Rightarrow> string \<Rightarrow> tls_error + ssl_context" where
  "self_signed_client_provider fs trusted_cert_path =
     (let ctx = (ssl_new Tlsv12Client)\<lparr>verify_mode := Some VerifyPeer\<rparr>
      in if loads_verify fs trusted_cert_path
         then Inr (ctx\<lparr>verify_file := Some trusted_cert_path, default_workarounds := True\<rparr>)
         else Inl (CannotLoad trusted_cert_path))"

subsection \<open>The reloadable server provider\<close>

record reloadable =
  cert_path :: string
  key_path :: string
  current :: "ssl_context option"
  initialized :: bool

definition load_server_context :: "ssl_files \<Rightarrow> string \<Rightarrow> string \<Rightarrow> tls_error + ssl_context" where
  "load_server_context fs cert key =
     (let ctx = ssl_new Tlsv12Server
      in if \<not> loads_chain fs cert then Inl (CannotLoad cert)
         else let ctx1 = ctx\<lparr>certificate_chain := Some cert\<rparr>
              in if \<not> loads_key fs key then Inl (CannotLoad key)
                 else Inr (ctx1\<lparr>private_key := Some key, default_workarounds := True\<rparr>))"

definition rt_ReloadContext :: "ssl_files \<Rightarrow> reloadable \<Rightarrow> (tls_error + bool) \<times> reloadable" where
  "rt_ReloadContext fs p =
     (case load_server_context fs (cert_path p) (key_path p) of
        Inr ctx \<Rightarrow> (Inr True, p\<lparr>current := Some ctx, initialized := True\<rparr>)
      | Inl e \<Rightarrow> if \<not> initialized p then (Inl e, p) else (Inr False, p))"

definition rt_new :: "ssl_files \<Rightarrow> string \<Rightarrow> string \<Rightarrow> tls_error + reloadable" where
  "rt_new fs cert key =
     (case rt_ReloadContext fs \<lparr>cert_path = cert, key_path = key, current = None, initialized = False\<rparr> of
        (Inl e, p) \<Rightarrow> Inl e
      | (Inr ok, p) \<Rightarrow> Inr p)"

definition rt_GetContext :: "reloadable \<Rightarrow> ssl_context option" where
  "rt_GetContext p = current p"

text \<open>
  \<^verbatim>\<open>StartReloadTimer\<close>: the closure that initializes \<^verbatim>\<open>schedule\<close> captures \<^verbatim>\<open>schedule\<close> by copy. A function
  object is uninitialized or a closure with the copy it has captured; only an initialized one can be copied.
\<close>

datatype fn_object = Uninitialized | Closure fn_object

datatype timer_fault = ReadsUninitialized

definition copy_fn :: "fn_object \<Rightarrow> timer_fault + fn_object" where
  "copy_fn f = (case f of Uninitialized \<Rightarrow> Inl ReadsUninitialized | Closure c \<Rightarrow> Inr (Closure c))"

definition rt_StartReloadTimer :: "reloadable \<Rightarrow> timer_fault + fn_object \<times> reloadable" where
  "rt_StartReloadTimer p =
     (let schedule = Uninitialized
      in case copy_fn schedule of
           Inl e \<Rightarrow> Inl e
         | Inr captured \<Rightarrow> let schedule = Closure captured in Inr (schedule, p))"

definition rt_StopReloadTimer :: "reloadable \<Rightarrow> reloadable" where
  "rt_StopReloadTimer p = p"

text \<open>Hence the timer never starts in a program with defined behaviour.\<close>

lemma rt_timer_faults: "rt_StartReloadTimer p = Inl ReadsUninitialized"
  by (simp add: rt_StartReloadTimer_def copy_fn_def)

subsection \<open>What the users of a provider rely on\<close>

text \<open>
  \<^verbatim>\<open>TcpServer::Start\<close> and the constructor of \<^verbatim>\<open>TcpClient\<close> dereference the context a provider returns: a
  provider that was constructed returns one, made for the right role, whatever happens to it later.
\<close>

locale context_provider =
  fixes construct :: "'f \<Rightarrow> tls_error + 'p"
    and get :: "'p \<Rightarrow> ssl_context option"
    and evolves :: "'p \<Rightarrow> 'p \<Rightarrow> bool"
    and role :: tls_method
  assumes constructed: "construct f = Inr p \<Longrightarrow> \<exists>ctx. get p = Some ctx \<and> tls_method ctx = role"
    and evolves_keeps: "evolves p q \<Longrightarrow> (\<exists>ctx. get p = Some ctx \<and> tls_method ctx = role) \<Longrightarrow>
      \<exists>ctx. get q = Some ctx \<and> tls_method ctx = role"
begin

lemma always_usable:
  "construct f = Inr p \<Longrightarrow> evolves\<^sup>*\<^sup>* p q \<Longrightarrow> \<exists>ctx. get q = Some ctx \<and> tls_method ctx = role"
  by (rotate_tac, induction rule: rtranclp_induct) (auto dest: constructed evolves_keeps)

end

text \<open>A reload with any state of the files, or the (empty) stop of the timer.\<close>

definition rt_evolves :: "reloadable \<Rightarrow> reloadable \<Rightarrow> bool" where
  "rt_evolves p q \<longleftrightarrow> (\<exists>fs. q = snd (rt_ReloadContext fs p)) \<or> q = rt_StopReloadTimer p"

lemma load_server_role: "load_server_context fs c k = Inr ctx \<Longrightarrow> tls_method ctx = Tlsv12Server"
  by (auto simp: load_server_context_def ssl_new_def Let_def split: if_splits)

lemma rt_new_cases:
  "rt_new fs cert key = Inr p \<Longrightarrow>
     \<exists>ctx. load_server_context fs cert key = Inr ctx \<and>
       p = \<lparr>cert_path = cert, key_path = key, current = Some ctx, initialized = True\<rparr>"
  by (auto simp: rt_new_def rt_ReloadContext_def split: sum.splits)

lemma rt_Reload_current:
  "current (snd (rt_ReloadContext fs p)) =
     (case load_server_context fs (cert_path p) (key_path p) of Inr ctx \<Rightarrow> Some ctx | Inl e \<Rightarrow> current p)"
  by (simp add: rt_ReloadContext_def split: sum.splits)

interpretation server_tls: context_provider
  "\<lambda>(fs, cert, key). rt_new fs cert key" rt_GetContext rt_evolves Tlsv12Server
proof
  fix f p
  assume "(case f of (fs, cert, key) \<Rightarrow> rt_new fs cert key) = Inr p"
  then show "\<exists>ctx. rt_GetContext p = Some ctx \<and> tls_method ctx = Tlsv12Server"
    by (cases f) (auto dest!: rt_new_cases simp: rt_GetContext_def load_server_role)
next
  fix p q
  assume "rt_evolves p q" "\<exists>ctx. rt_GetContext p = Some ctx \<and> tls_method ctx = Tlsv12Server"
  then show "\<exists>ctx. rt_GetContext q = Some ctx \<and> tls_method ctx = Tlsv12Server"
    by (auto simp: rt_evolves_def rt_GetContext_def rt_Reload_current rt_StopReloadTimer_def load_server_role
        split: sum.splits)
qed

interpretation ca_tls: context_provider
  "\<lambda>(fs, path). ca_verified_client_provider fs path" Some "(=)" Tlsv12Client
  by unfold_locales (auto simp: ca_verified_client_provider_def ssl_new_def Let_def split: if_splits)

interpretation self_signed_tls: context_provider
  "\<lambda>(fs, path). self_signed_client_provider fs path" Some "(=)" Tlsv12Client
  by unfold_locales (auto simp: self_signed_client_provider_def ssl_new_def Let_def split: if_splits)

interpretation default_tls: context_provider "\<lambda>_ :: unit. default_client_provider" Some "(=)" Tlsv12Client
  by unfold_locales (auto simp: default_client_provider_def ssl_new_def Let_def)

text \<open>A sequence of reloads with the states of the files they find.\<close>

definition rt_reloads :: "ssl_files list \<Rightarrow> reloadable \<Rightarrow> reloadable" where
  "rt_reloads fss p = fold (\<lambda>fs p. snd (rt_ReloadContext fs p)) fss p"

definition loadable :: "string \<Rightarrow> string \<Rightarrow> ssl_files \<Rightarrow> bool" where
  "loadable cert key fs \<longleftrightarrow> loads_chain fs cert \<and> loads_key fs key"

lemma load_server_loadable:
  "load_server_context fs cert key =
     (if loadable cert key fs
      then Inr \<lparr>tls_method = Tlsv12Server, verify_mode = None, verify_file = None, certificate_chain = Some cert,
                private_key = Some key, default_workarounds = True\<rparr>
      else Inl (CannotLoad (if loads_chain fs cert then key else cert)))"
  by (simp add: load_server_context_def loadable_def ssl_new_def Let_def)

lemma rt_reloads_initialized:
  "initialized p \<Longrightarrow> initialized (rt_reloads fss p) \<and> cert_path (rt_reloads fss p) = cert_path p \<and>
     key_path (rt_reloads fss p) = key_path p \<and> (current p \<noteq> None \<longrightarrow> current (rt_reloads fss p) \<noteq> None)"
  unfolding rt_reloads_def
  by (induction fss arbitrary: p) (auto simp: rt_ReloadContext_def split: sum.splits)

lemma rt_reloads_evolves: "rt_evolves\<^sup>*\<^sup>* p (rt_reloads fss p)"
  unfolding rt_reloads_def
proof (induction fss arbitrary: p)
  case (Cons fs fss)
  have "rt_evolves p (snd (rt_ReloadContext fs p))" by (auto simp: rt_evolves_def)
  then show ?case using Cons.IH [of "snd (rt_ReloadContext fs p)"] by (simp add: converse_rtranclp_into_rtranclp)
qed simp

subsection \<open>Properties\<close>

text \<open>
  C34. Hot reload is safe. The provider cannot be constructed unless certificate and key load; once it is,
  it returns a server context with exactly that certificate and key after every sequence of reloads,
  successful or not, and a failed reload reports failure instead of throwing and leaves the provider
  exactly as it was.
\<close>

theorem rt_reload_safe:
  "(case rt_new fs cert key of
      Inl e \<Rightarrow> \<not> loadable cert key fs
    | Inr p \<Rightarrow> loadable cert key fs \<and>
        (\<exists>ctx. rt_GetContext (rt_reloads fss p) = Some ctx \<and> tls_method ctx = Tlsv12Server) \<and>
        (\<exists>ok. fst (rt_ReloadContext fs' (rt_reloads fss p)) = Inr ok \<and> (ok \<longleftrightarrow> loadable cert key fs') \<and>
          (ok \<or> snd (rt_ReloadContext fs' (rt_reloads fss p)) = rt_reloads fss p)))"
proof (cases "rt_new fs cert key")
  case (Inl e)
  then show ?thesis
    by (auto simp: rt_new_def rt_ReloadContext_def load_server_loadable split: if_splits)
next
  case (Inr p)
  obtain ctx where p: "load_server_context fs cert key = Inr ctx"
    "p = \<lparr>cert_path = cert, key_path = key, current = Some ctx, initialized = True\<rparr>"
    using rt_new_cases [OF Inr] by blast
  have "\<exists>ctx. rt_GetContext (rt_reloads fss p) = Some ctx \<and> tls_method ctx = Tlsv12Server"
    by (rule server_tls.always_usable [of "(fs, cert, key)", OF _ rt_reloads_evolves]) (simp add: Inr)
  moreover have "initialized (rt_reloads fss p)" "cert_path (rt_reloads fss p) = cert" "key_path (rt_reloads fss p) = key"
    using rt_reloads_initialized [of p fss] p(2) by simp_all
  moreover have "loadable cert key fs" using p(1) by (auto simp: load_server_loadable split: if_splits)
  ultimately show ?thesis by (simp add: Inr rt_ReloadContext_def load_server_loadable)
qed

text \<open>
  Which peers a client accepts: the CA and the self-signed provider build their context only when
  the trust file loads, and then verify the peer against exactly that file; the default provider
  always builds one, and its context verifies nothing.
\<close>

theorem client_providers_verify:
  "(case ca_verified_client_provider fs path of
      Inl e \<Rightarrow> \<not> loads_verify fs path
    | Inr ctx \<Rightarrow> loads_verify fs path \<and> verify_mode ctx = Some VerifyPeer \<and> verify_file ctx = Some path) \<and>
   self_signed_client_provider fs path = ca_verified_client_provider fs path \<and>
   (\<exists>ctx. default_client_provider = Inr ctx \<and> verify_mode ctx = Some VerifyNone \<and> verify_file ctx = None)"
  by (simp add: ca_verified_client_provider_def self_signed_client_provider_def default_client_provider_def
      ssl_new_def Let_def)

end
