(* ===== verification/Channel.thy ===== *)
theory Channel
  imports Task_Concurrency
begin

text \<open>
  \<^verbatim>\<open>src/src/vectro/channel.h\<close>: a channel, a task processor with hooks, and the manager of named
  channels. A hook is either unset or set; whether a set hook throws on a message is a parameter
  (\<open>throws\<close>). \<open>destroyed\<close> counts how often the destructor of the member \<^verbatim>\<open>proc_\<close> has run: the code calls it
  explicitly and the language calls it again at the end of the channel's life.
\<close>

subsection \<open>Channels\<close>

datatype 'm ch_event =
    Started
  | Stopped
  | ShutDown bool
  | Enqueued 'm
  | Processed 'm
  | Errored 'm

record ('m, 'r, 'e) channel =
  OnStart :: bool
  OnStop :: bool
  OnShutdown :: bool
  OnEnqueue :: bool
  OnProcessed :: bool
  OnDropped :: bool
  OnError :: bool
  ch_id :: string
  proc :: "('m, 'r, 'e) tmp"
  destroyed :: nat
  ch_log :: "'m ch_event list"

definition ch_emit :: "bool \<Rightarrow> 'm ch_event \<Rightarrow> ('m, 'r, 'e) channel \<Rightarrow> ('m, 'r, 'e) channel" where
  "ch_emit hook ev ch = (if hook then ch\<lparr>ch_log := ch_log ch @ [ev]\<rparr> else ch)"

text \<open>The hooks are members without initializers, so they are unset when the constructor's body runs.\<close>

definition ch_new :: "string \<Rightarrow> tmp_config \<Rightarrow> int \<Rightarrow> ('m, 'r, 'e) channel" where
  "ch_new ident c now =
     (let ch = \<lparr>OnStart = False, OnStop = False, OnShutdown = False, OnEnqueue = False, OnProcessed = False,
                OnDropped = False, OnError = False, ch_id = ident, proc = tmp_new c now, destroyed = 0, ch_log = []\<rparr>;
          ch1 = ch_emit (OnStart ch) Started ch
      in ch1\<lparr>proc := tmp_RegisterCallback (proc ch1)\<rparr>)"

text \<open>The callback the constructor registers with the processor.\<close>

definition ch_process :: "('m \<Rightarrow> bool) \<Rightarrow> 'm \<Rightarrow> ('m, 'r, 'e) channel \<Rightarrow> ('m, 'r, 'e) channel" where
  "ch_process throws m ch =
     (let ch1 = ch_emit (OnProcessed ch) (Processed m) ch
      in if OnProcessed ch \<and> throws m then ch_emit (OnError ch1) (Errored m) ch1 else ch1)"

definition ch_Enqueue :: "'m \<Rightarrow> ('m, 'r, 'e) channel \<Rightarrow> tmp_fault + ('m, 'r, 'e) channel" where
  "ch_Enqueue m ch =
     (let ch1 = ch_emit (OnEnqueue ch) (Enqueued m) ch
      in case tmp_Submit m (proc ch1) of Inl e \<Rightarrow> Inl e | Inr p \<Rightarrow> Inr (ch1\<lparr>proc := p\<rparr>))"

text \<open>One run of \<^verbatim>\<open>~TaskMultiProcessor\<close> on the member.\<close>

definition ch_kill :: "('m, 'r, 'e) channel \<Rightarrow> ('m, 'r, 'e) channel" where
  "ch_kill ch = ch\<lparr>proc := (proc ch)\<lparr>running := False, active_workers := 0, stopped := True\<rparr>, destroyed := Suc (destroyed ch)\<rparr>"

definition ch_ShutdownGraceful :: "('m, 'r, 'e) channel \<Rightarrow> ('m, 'r, 'e) channel" where
  "ch_ShutdownGraceful ch =
     (let ch1 = ch_kill (ch_emit (OnShutdown ch) (ShutDown False) ch) in ch_emit (OnStop ch1) Stopped ch1)"

definition ch_ShutdownForce :: "('m, 'r, 'e) channel \<Rightarrow> ('m, 'r, 'e) channel" where
  "ch_ShutdownForce ch =
     (let ch1 = ch_kill (ch_emit (OnShutdown ch) (ShutDown True) ch) in ch_emit (OnStop ch1) Stopped ch1)"

definition ch_UpdateConfig :: "tmp_config \<Rightarrow> ('m, 'r, 'e) channel \<Rightarrow> ('m, 'r, 'e) channel" where
  "ch_UpdateConfig c ch = ch\<lparr>proc := tmp_UpdateConfig c (proc ch)\<rparr>"

text \<open>The end of a channel's life: the destructor's body, then the destructors of the members.\<close>

definition ch_destroy :: "('m, 'r, 'e) channel \<Rightarrow> ('m, 'r, 'e) channel" where
  "ch_destroy ch = ch_kill (ch_ShutdownForce ch)"

subsection \<open>The manager\<close>

record ('m, 'r, 'e) channel_manager =
  default_cfg :: "string \<times> tmp_config"
  channels :: "(string, ('m, 'r, 'e) channel) hash_map"
  graveyard :: "('m, 'r, 'e) channel list"

datatype cm_fault = NullChannel | ProcFault tmp_fault

definition cm_new :: "string \<times> tmp_config \<Rightarrow> ('m, 'r, 'e) channel_manager" where
  "cm_new c = \<lparr>default_cfg = c, channels = [], graveyard = []\<rparr>"

text \<open>\<^verbatim>\<open>GetChannel\<close> returns in both branches of its lookup; the code after it, which would create the channel, is dead.\<close>

definition cm_GetChannel :: "string \<Rightarrow> ('m, 'r, 'e) channel_manager \<Rightarrow> ('m, 'r, 'e) channel option" where
  "cm_GetChannel ident cm = (case hm_find (channels cm) ident of Some ch \<Rightarrow> Some ch | None \<Rightarrow> None)"

text \<open>
  The dead code: a channel with the default configuration whose processed messages go to the manager's
  handler (exceptions of the handler are swallowed), entered under the id asked for.
\<close>

definition cm_create_channel ::
  "string \<Rightarrow> int \<Rightarrow> ('m, 'r, 'e) channel_manager \<Rightarrow> ('m, 'r, 'e) channel \<times> ('m, 'r, 'e) channel_manager" where
  "cm_create_channel ident now cm =
     (let ch = (ch_new (fst (default_cfg cm)) (snd (default_cfg cm)) now)\<lparr>OnProcessed := True\<rparr>
      in (ch, cm\<lparr>channels := hm_assign ident ch (channels cm)\<rparr>))"

text \<open>\<^verbatim>\<open>Dispatch\<close> notices a null channel and then uses it all the same.\<close>

definition cm_Dispatch ::
  "string \<Rightarrow> 'm \<Rightarrow> ('m, 'r, 'e) channel_manager \<Rightarrow> cm_fault + ('m, 'r, 'e) channel_manager" where
  "cm_Dispatch ident m cm =
     (case cm_GetChannel ident cm of
        None \<Rightarrow> Inl NullChannel
      | Some ch \<Rightarrow>
          (case ch_Enqueue m ch of
             Inl e \<Rightarrow> Inl (ProcFault e)
           | Inr ch' \<Rightarrow> Inr (cm\<lparr>channels := hm_assign ident ch' (channels cm)\<rparr>)))"

text \<open>The manager holds the last references: clearing the map ends the channels' lives.\<close>

definition cm_ShutdownAllGraceful :: "('m, 'r, 'e) channel_manager \<Rightarrow> ('m, 'r, 'e) channel_manager" where
  "cm_ShutdownAllGraceful cm =
     cm\<lparr>channels := [], graveyard := graveyard cm @ map (\<lambda>kv. ch_destroy (ch_ShutdownGraceful (snd kv))) (channels cm)\<rparr>"

definition cm_ShutdownAllForce :: "('m, 'r, 'e) channel_manager \<Rightarrow> ('m, 'r, 'e) channel_manager" where
  "cm_ShutdownAllForce cm =
     cm\<lparr>channels := [], graveyard := graveyard cm @ map (\<lambda>kv. ch_destroy (ch_ShutdownForce (snd kv))) (channels cm)\<rparr>"

lemmas ch_defs [vec_defs] =
  ch_emit_def ch_new_def ch_process_def ch_Enqueue_def ch_kill_def ch_ShutdownGraceful_def
  ch_ShutdownForce_def ch_destroy_def

subsection \<open>Runs of the manager\<close>

datatype 'm cm_call = CmDispatch string 'm | CmGraceful | CmForce

fun cm_run :: "'m cm_call list \<Rightarrow> ('m, 'r, 'e) channel_manager \<Rightarrow> cm_fault + ('m, 'r, 'e) channel_manager" where
  "cm_run [] cm = Inr cm"
| "cm_run (CmDispatch ident m # cs) cm = (case cm_Dispatch ident m cm of Inl e \<Rightarrow> Inl e | Inr cm' \<Rightarrow> cm_run cs cm')"
| "cm_run (CmGraceful # cs) cm = cm_run cs (cm_ShutdownAllGraceful cm)"
| "cm_run (CmForce # cs) cm = cm_run cs (cm_ShutdownAllForce cm)"

fun is_dispatch :: "'m cm_call \<Rightarrow> bool" where
  "is_dispatch (CmDispatch ident m) = True"
| "is_dispatch _ = False"

lemma cm_shutdown_empty:
  "channels cm = [] \<Longrightarrow> cm_ShutdownAllGraceful cm = cm" "channels cm = [] \<Longrightarrow> cm_ShutdownAllForce cm = cm"
  by (cases cm; simp add: cm_ShutdownAllGraceful_def cm_ShutdownAllForce_def)+

lemma cm_run_empty:
  "channels cm = [] \<Longrightarrow> cm_run cs cm = (if list_ex is_dispatch cs then Inl NullChannel else Inr cm)"
  by (induction cs cm rule: cm_run.induct) (auto simp: cm_Dispatch_def cm_GetChannel_def cm_shutdown_empty)

lemma destroyed_shutdown:
  "destroyed (ch_ShutdownGraceful ch) = Suc (destroyed ch)" "destroyed (ch_ShutdownForce ch) = Suc (destroyed ch)"
  "destroyed (ch_destroy ch) = Suc (Suc (destroyed ch))"
  by (simp_all add: ch_defs Let_def)

lemma ch_Enqueue_ok:
  assumes "tmp_wf (proc ch)"
  shows "\<exists>ch'. ch_Enqueue m ch = Inr ch' \<and> tmp_wf (proc ch') \<and> tmp_Submit m (proc ch) = Inr (proc ch') \<and>
    ch_log ch' = ch_log ch @ (if OnEnqueue ch then [Enqueued m] else [])"
  using tmp_SubmitImpl_wf [OF assms, of m "[]"]
  by (auto simp: ch_Enqueue_def ch_emit_def tmp_Submit_def Let_def)

subsection \<open>Properties\<close>

text \<open>
  Dispatch never works: nothing ever puts a channel into the manager - the code that would is
  unreachable - so on a manager as constructed, every sequence of calls that contains a \<^verbatim>\<open>Dispatch\<close> ends
  in the dereference of a null channel at the first one; sequences without one change nothing.
\<close>

theorem cm_dispatch_always_faults:
  "cm_run cs (cm_new c) = (if list_ex is_dispatch cs then Inl NullChannel else Inr (cm_new c))"
  by (rule cm_run_empty) (simp add: cm_new_def)

text \<open>
  A channel's processor is destroyed more than once: twice for a channel that is simply dropped, three
  times for one that was shut down by either mode before - and both modes do the same to the processor.
\<close>

theorem ch_processor_destroyed_repeatedly:
  "destroyed (ch_destroy (ch_new ident c now)) = 2 \<and>
   destroyed (ch_destroy (ch_ShutdownGraceful (ch_new ident c now))) = 3 \<and>
   destroyed (ch_destroy (ch_ShutdownForce (ch_new ident c now))) = 3 \<and>
   proc (ch_ShutdownGraceful ch) = proc (ch_ShutdownForce ch)"
  by (simp add: destroyed_shutdown) (simp add: ch_defs Let_def)

text \<open>
  A channel that exists works. Dispatching to it reports the message to \<^verbatim>\<open>OnEnqueue\<close>, submits it to that
  channel's processor and leaves every other channel alone; the processor stays well formed.
\<close>

theorem cm_dispatch_to_channel:
  assumes "hm_find (channels cm) ident = Some ch" and "tmp_wf (proc ch)"
  shows "\<exists>cm' ch'. cm_Dispatch ident m cm = Inr cm' \<and> hm_find (channels cm') ident = Some ch' \<and>
    tmp_Submit m (proc ch) = Inr (proc ch') \<and> tmp_wf (proc ch') \<and>
    ch_log ch' = ch_log ch @ (if OnEnqueue ch then [Enqueued m] else []) \<and>
    (\<forall>j. j = ident \<or> hm_find (channels cm') j = hm_find (channels cm) j)"
proof -
  from ch_Enqueue_ok [OF assms(2), of m] obtain ch' where
    "ch_Enqueue m ch = Inr ch'" "tmp_wf (proc ch')" "tmp_Submit m (proc ch) = Inr (proc ch')"
    "ch_log ch' = ch_log ch @ (if OnEnqueue ch then [Enqueued m] else [])" by blast
  with assms(1) show ?thesis by (auto simp: cm_Dispatch_def cm_GetChannel_def)
qed

theorem cm_dispatch_to_channel_witness:
  "\<exists>cm'. cm_Dispatch ''1'' CHR ''a''
     ((cm_new (''d'', tmp_config_default 1))\<lparr>channels :=
        [(''1'', (ch_new ''1'' (tmp_config_default 1) 0 :: (char, unit, unit) channel)\<lparr>OnEnqueue := True\<rparr>)]\<rparr>) = Inr cm'"
proof -
  let ?ch = "(ch_new ''1'' (tmp_config_default 1) 0 :: (char, unit, unit) channel)\<lparr>OnEnqueue := True\<rparr>"
  let ?cm = "(cm_new (''d'', tmp_config_default 1))\<lparr>channels := [(''1'', ?ch)]\<rparr>"
  have "hm_find (channels ?cm) ''1'' = Some ?ch" by simp
  moreover have "tmp_wf (proc ?ch)"
    by (simp add: ch_defs tmp_RegisterCallback_def tmp_new_def tmp_wf_def queued_def tmp_config_default_def Let_def)
  ultimately show ?thesis using cm_dispatch_to_channel [of ?cm "''1''" ?ch "CHR ''a''"] by blast
qed

text \<open>
  What the unreachable code would have achieved: with the channel it creates, dispatching to an id without a
  channel works, and every other channel is left alone.
\<close>

lemma cm_create_then_dispatch:
  assumes "0 < num_threads (snd (default_cfg cm))"
  shows "\<exists>cm' ch'. cm_Dispatch ident m (snd (cm_create_channel ident now cm)) = Inr cm' \<and>
    hm_find (channels cm') ident = Some ch' \<and> OnProcessed ch' \<and> tmp_wf (proc ch') \<and>
    (\<forall>j. j = ident \<or> hm_find (channels cm') j = hm_find (channels cm) j)"
proof -
  let ?ch = "fst (cm_create_channel ident now cm)" and ?cm = "snd (cm_create_channel ident now cm)"
  have wf: "tmp_wf (proc ?ch)"
    using assms by (simp add: cm_create_channel_def ch_defs tmp_RegisterCallback_def tmp_new_def tmp_wf_def queued_def Let_def)
  have ch: "hm_find (channels ?cm) ident = Some ?ch" "OnProcessed ?ch" by (simp_all add: cm_create_channel_def Let_def)
  obtain p where "tmp_Submit m (proc ?ch) = Inr p" "tmp_wf p"
    using ch_Enqueue_ok [OF wf, of m] by auto
  then show ?thesis
    using ch by (auto simp: cm_Dispatch_def cm_GetChannel_def ch_Enqueue_def ch_emit_def Let_def cm_create_channel_def)
qed

end
