(* ===== verification/Session_Manager.thy ===== *)
theory Session_Manager
  imports Session
begin

text \<open>
  \<^verbatim>\<open>src/src/vectro/session_manager.h\<close>: the registry of sessions by id, a template over the session
  type. The values are \<^verbatim>\<open>shared_ptr\<close>s: \<open>Some p\<close> for the session object at \<open>p\<close>, \<open>None\<close> for null. The
  session objects live in a world \<open>'w\<close>, and \<^verbatim>\<open>session->Close(force)\<close> is the parameter \<open>close\<close>. Each
  member function holds the mutex from start to end and is one atomic operation.
\<close>

record 'p session_manager =
  sessions :: "(u64, 'p option) hash_map"

definition sm_new :: "'p session_manager" where
  "sm_new = \<lparr>sessions = []\<rparr>"

definition sm_Add :: "u64 \<Rightarrow> 'p option \<Rightarrow> 'p session_manager \<Rightarrow> 'p session_manager" where
  "sm_Add i s m = m\<lparr>sessions := hm_emplace i s (sessions m)\<rparr>"

definition sm_Remove :: "u64 \<Rightarrow> 'p session_manager \<Rightarrow> 'p session_manager" where
  "sm_Remove i m = m\<lparr>sessions := hm_erase i (sessions m)\<rparr>"

definition sm_Get :: "u64 \<Rightarrow> 'p session_manager \<Rightarrow> 'p option" where
  "sm_Get i m = (case hm_find (sessions m) i of Some s \<Rightarrow> s | None \<Rightarrow> None)"

definition sm_All :: "'p session_manager \<Rightarrow> 'p option list" where
  "sm_All m = fold (\<lambda>kv result. result @ [snd kv]) (sessions m) []"

definition sm_ForEach :: "('p option \<Rightarrow> 'w \<Rightarrow> 'w) \<Rightarrow> 'p session_manager \<Rightarrow> 'w \<Rightarrow> 'w" where
  "sm_ForEach fn m w = fold (\<lambda>kv. fn (snd kv)) (sessions m) w"

definition sm_Count :: "'p session_manager \<Rightarrow> nat" where
  "sm_Count m = length (sessions m)"

definition sm_DrainGraceful :: "(bool \<Rightarrow> 'p \<Rightarrow> 'w \<Rightarrow> 'w) \<Rightarrow> 'p session_manager \<Rightarrow> 'w \<Rightarrow> 'p session_manager \<times> 'w" where
  "sm_DrainGraceful close m w =
     (m, fold (\<lambda>kv. case snd kv of Some s \<Rightarrow> close False s | None \<Rightarrow> (\<lambda>w. w)) (sessions m) w)"

definition sm_DrainForce :: "(bool \<Rightarrow> 'p \<Rightarrow> 'w \<Rightarrow> 'w) \<Rightarrow> 'p session_manager \<Rightarrow> 'w \<Rightarrow> 'p session_manager \<times> 'w" where
  "sm_DrainForce close m w =
     (m\<lparr>sessions := []\<rparr>,
      fold (\<lambda>kv. case snd kv of Some s \<Rightarrow> close True s | None \<Rightarrow> (\<lambda>w. w)) (sessions m) w)"

definition sm_Close :: "(bool \<Rightarrow> 'p \<Rightarrow> 'w \<Rightarrow> 'w) \<Rightarrow> bool \<Rightarrow> 'p session_manager \<Rightarrow> 'w \<Rightarrow> 'p session_manager \<times> 'w" where
  "sm_Close close force m w = (if force then sm_DrainForce close m w else sm_DrainGraceful close m w)"

lemmas sm_ops [vec_defs] =
  sm_new_def sm_Add_def sm_Remove_def sm_Get_def sm_ForEach_def sm_Count_def sm_DrainGraceful_def
  sm_DrainForce_def sm_Close_def

subsection \<open>The registry as a keyed container\<close>

interpretation registry: keyed_store "\<lambda>m. hm_find (sessions m)" sm_Add sm_Remove
  by unfold_locales (auto simp: sm_ops hm_find_emplace)

lemma sm_All_eq: "sm_All m = map snd (sessions m)"
proof -
  have "fold (\<lambda>kv result. result @ [snd kv]) kvs acc = acc @ map snd kvs" for kvs :: "(u64 \<times> 'a option) list" and acc
    by (induction kvs arbitrary: acc) auto
  then show ?thesis by (simp add: sm_All_def)
qed

subsection \<open>What the registry needs of a session\<close>

text \<open>
  Closing one session leaves the others alone, and closing twice in the same mode is closing once:
  the same object may be registered under several ids.
\<close>

locale closable_sessions =
  fixes close :: "bool \<Rightarrow> 'p \<Rightarrow> 'w \<Rightarrow> 'w"
    and state_of :: "'w \<Rightarrow> 'p \<Rightarrow> 's"
    and close_state :: "bool \<Rightarrow> 's \<Rightarrow> 's"
  assumes state_of_close:
    "state_of (close force p w) q = (if q = p then close_state force (state_of w p) else state_of w q)"
    and close_idem: "close_state force (close_state force s) = close_state force s"
begin

lemma drain_state:
  "state_of (fold (\<lambda>kv. case snd kv of Some s \<Rightarrow> close force s | None \<Rightarrow> (\<lambda>w. w)) kvs w) q =
     (if Some q \<in> snd ` set kvs then close_state force (state_of w q) else state_of w q)"
proof (induction kvs arbitrary: w)
  case (Cons kv kvs)
  then show ?case
    by (cases "snd kv") (auto simp: state_of_close close_idem image_iff)
qed simp

lemma close_all:
  "state_of (snd (sm_Close close force m w)) q =
     (if Some q \<in> snd ` set (sessions m) then close_state force (state_of w q) else state_of w q)"
  by (simp add: sm_ops drain_state)

end

text \<open>The program's sessions: objects at addresses, closed by \<^verbatim>\<open>Session::Close\<close>.\<close>

type_synonym ('f, 'm, 'b, 'p, 'e) ses_store = "address \<Rightarrow> ('f, 'm, 'b, 'p, 'e) session"

definition store_Close ::
  "bool \<Rightarrow> address \<Rightarrow> ('f, 'm, 'b, 'p, 'e) ses_store \<Rightarrow> ('f, 'm, 'b, 'p, 'e) ses_store" where
  "store_Close force p w = w(p := ses_Close force (w p))"

text \<open>\<^verbatim>\<open>session->AsyncSend(msg)\<close> on the same store.\<close>

definition store_AsyncSend ::
  "('f, 'm, 'b, 'p, 'i, 'e) ses_env \<Rightarrow> address \<Rightarrow> 'm \<Rightarrow> ('f, 'm, 'b, 'p, 'e) ses_store \<Rightarrow> ('f, 'm, 'b, 'p, 'e) ses_store" where
  "store_AsyncSend env p m w = w(p := ses_AsyncSend env m (w p))"

lemma wq_close_idem: "wq_event (EvClose force) (wq_event (EvClose force) q) = wq_event (EvClose force) q"
  by (cases force) (simp_all add: wq_event_def wq_ops)

lemma ses_Close_idem: "ses_Close force (ses_Close force s) = ses_Close force s"
  by (cases force) (auto simp: ses_ops Let_def wq_close_idem timer_defs)

interpretation session_registry: closable_sessions store_Close "\<lambda>w. w" ses_Close
  by unfold_locales (auto simp: store_Close_def ses_Close_idem)

lemma ses_Close_force_ends: "shutdown_in_progress (ses_Close True s)"
  by (simp add: ses_ops Let_def)

subsection \<open>Properties\<close>

text \<open>
  Registering and removing sessions. A new id is found afterwards and counted; an id that is
  taken keeps its old session, the new one is silently not registered; removing an id frees it and
  touches no other; and the snapshot lists exactly the registered sessions.
\<close>

theorem sm_add_get_remove:
  assumes "hm_wf (sessions m)"
  shows "(hm_find (sessions m) i = None \<longrightarrow>
      sm_Get i (sm_Add i (Some p) m) = Some p \<and> sm_Count (sm_Add i (Some p) m) = Suc (sm_Count m) \<and>
      hm_find (sessions (sm_Remove i (sm_Add i (Some p) m))) = hm_find (sessions m)) \<and>
    (hm_find (sessions m) i = Some q \<longrightarrow>
      sm_Add i (Some p) m = m \<and> Suc (sm_Count (sm_Remove i m)) = sm_Count m) \<and>
    sm_Get i (sm_Remove i m) = None \<and>
    (j = i \<or> sm_Get j (sm_Remove i m) = sm_Get j m \<and> sm_Get j (sm_Add i (Some p) m) = sm_Get j m) \<and>
    set (sm_All m) = {s. \<exists>k. hm_find (sessions m) k = Some s} \<and>
    hm_wf (sessions (sm_Add i (Some p) m)) \<and> hm_wf (sessions (sm_Remove i m))"
proof -
  have "hm_find (sessions (sm_Remove i (sm_Add i (Some p) m))) = hm_find (sessions m)"
    if "hm_find (sessions m) i = None"
    using that by (rule registry.store_then_remove)
  moreover have "set (sm_All m) = {s. \<exists>k. hm_find (sessions m) k = Some s}"
    using assms by (force simp: sm_All_eq hm_find_Some_iff)
  ultimately show ?thesis
    using assms
    by (auto simp: sm_ops hm_find_emplace length_hm_emplace hm_emplace_present length_hm_erase)
qed

theorem sm_add_get_remove_witness:
  "sm_Get 5 (sm_Add 5 (Some (1 :: nat)) sm_new) = Some 1 \<and>
   sm_Add 5 (Some (2 :: nat)) (sm_Add 5 (Some 1) sm_new) = sm_Add 5 (Some 1) sm_new"
proof -
  have "sm_Get 5 (sm_Add 5 (Some (1 :: nat)) sm_new) = Some 1"
    using sm_add_get_remove [of "sm_new :: nat session_manager" 5 1 None 5] by (simp add: sm_new_def)
  moreover have "hm_wf (sessions (sm_Add 5 (Some (1 :: nat)) sm_new))"
    "hm_find (sessions (sm_Add 5 (Some (1 :: nat)) sm_new)) 5 = Some (Some 1)"
    by (simp_all add: sm_ops hm_find_emplace)
  ultimately show ?thesis
    using sm_add_get_remove [of "sm_Add 5 (Some (1 :: nat)) sm_new" 5 2 "Some 1" 5] by blast
qed

text \<open>
  Closing the registry reaches every registered session exactly as a \<^verbatim>\<open>Close\<close> of that session
  would, also when one object is registered under several ids, and no other session; a forced close
  ends all of them and empties the registry, a graceful one leaves it as it is.
\<close>

theorem sm_Close_sessions:
  "snd (sm_Close store_Close force m w) q =
     (if Some q \<in> set (sm_All m) then ses_Close force (w q) else w q) \<and>
   fst (sm_Close store_Close force m w) = (if force then sm_new else m) \<and>
   (\<not> force \<or> Some q \<notin> set (sm_All m) \<or> shutdown_in_progress (snd (sm_Close store_Close force m w) q))"
proof -
  have "snd (sm_Close store_Close force m w) q =
     (if Some q \<in> set (sm_All m) then ses_Close force (w q) else w q)"
    using session_registry.close_all [of force m w q] by (simp add: sm_All_eq)
  then show ?thesis by (auto simp: sm_ops ses_Close_force_ends)
qed

theorem sm_Close_sessions_witness:
  "shutdown_in_progress (snd (sm_Close store_Close True (sm_Add 5 (Some 1) sm_new)
     (\<lambda>_. ses_new () :: (unit, string, string, unit, string) session)) 1)"
  using sm_Close_sessions [of True "sm_Add 5 (Some 1) sm_new" "\<lambda>_. ses_new () :: (unit, string, string, unit, string) session" 1]
  by (auto simp: sm_All_eq sm_ops hm_emplace_def)

end
