(* ===== verification/Controller.thy ===== *)
theory Controller
  imports Channel Session_Manager
begin

text \<open>
  \<^verbatim>\<open>src/src/vectro/controller.h\<close>: sessions, channels and routing. The members of the message metadata
  and of the session that the controller uses and the repository does not define (\<^verbatim>\<open>channel\<close>,
  \<^verbatim>\<open>dest_session\<close>, the session's \<^verbatim>\<open>meta()\<close>), the router, the controller callbacks, \<^verbatim>\<open>SessionManager::Drain\<close>
  and the user's hooks are parameters, gathered in \<open>ctl_env\<close>. Sending on a session acts on a world \<open>'w\<close>.
\<close>

record ('m, 'p, 'w) ctl_env =
  meta_channel :: "'m \<Rightarrow> nat option"
  meta_dest_session :: "'m \<Rightarrow> u64 option"
  inbound_ok :: "'m \<Rightarrow> bool"
  process_throws :: "'m \<Rightarrow> bool"
  route_throws :: "'m \<Rightarrow> bool"
  send_throws :: "'p \<Rightarrow> 'm \<Rightarrow> bool"
  session_AsyncSend :: "'p \<Rightarrow> 'm \<Rightarrow> 'w \<Rightarrow> 'w"
  session_set_channel :: "'p \<Rightarrow> nat \<Rightarrow> 'w \<Rightarrow> 'w"
  manager_Drain :: "bool \<Rightarrow> 'p session_manager \<Rightarrow> 'w \<Rightarrow> 'p session_manager \<times> 'w"

datatype 'm ctl_event =
    SessionConnected u64
  | Inbound 'm
  | Outbound 'm
  | Process 'm
  | Routed 'm
  | CtlError 'm

datatype ctl_fault = ModuloByZero | ChannelFault cm_fault

record ('m, 'r, 'e, 'p, 'w) controller =
  OnInbound :: bool
  OnProcess :: bool
  OnOutbound :: bool
  num_channels :: nat
  inbound_manager :: "('m, 'r, 'e) channel_manager"
  outbound_manager :: "('m, 'r, 'e) channel_manager"
  ctl_sessions :: "'p session_manager"
  router :: bool
  ctl_callbacks :: bool
  ctl_world :: 'w
  ctl_log :: "'m ctl_event list"

definition ctl_new :: "nat \<Rightarrow> string \<times> tmp_config \<Rightarrow> 'w \<Rightarrow> ('m, 'r, 'e, 'p, 'w) controller" where
  "ctl_new n c w =
     \<lparr>OnInbound = False, OnProcess = False, OnOutbound = False, num_channels = n, inbound_manager = cm_new c,
      outbound_manager = cm_new c, ctl_sessions = sm_new, router = False, ctl_callbacks = False, ctl_world = w,
      ctl_log = []\<rparr>"

definition ctl_emit :: "'m ctl_event list \<Rightarrow> ('m, 'r, 'e, 'p, 'w) controller \<Rightarrow> ('m, 'r, 'e, 'p, 'w) controller" where
  "ctl_emit evs c = c\<lparr>ctl_log := ctl_log c @ evs\<rparr>"

definition ctl_RegisterSession ::
  "('m, 'p, 'w) ctl_env \<Rightarrow> u64 \<Rightarrow> 'p \<Rightarrow> ('m, 'r, 'e, 'p, 'w) controller \<Rightarrow> ctl_fault + ('m, 'r, 'e, 'p, 'w) controller" where
  "ctl_RegisterSession env i p c =
     (if num_channels c = 0 then Inl ModuloByZero
      else
        let ch = unat i mod num_channels c;
            c1 = c\<lparr>ctl_world := session_set_channel env p ch (ctl_world c)\<rparr>;
            c2 = c1\<lparr>ctl_sessions := sm_Add i (Some p) (ctl_sessions c1)\<rparr>
        in Inr (if ctl_callbacks c2 then ctl_emit [SessionConnected i] c2 else c2))"

definition channel_name :: "('m, 'p, 'w) ctl_env \<Rightarrow> 'm \<Rightarrow> string" where
  "channel_name env m = to_string (case meta_channel env m of Some ch \<Rightarrow> ch | None \<Rightarrow> 0)"

definition ctl_RouteMessage ::
  "('m, 'p, 'w) ctl_env \<Rightarrow> 'm \<Rightarrow> ('m, 'r, 'e, 'p, 'w) controller \<Rightarrow> ctl_fault + ('m, 'r, 'e, 'p, 'w) controller" where
  "ctl_RouteMessage env m c =
     (let c1 = (if OnInbound c then ctl_emit [Inbound m] c else c)
      in if OnInbound c \<and> \<not> inbound_ok env m then Inr c1
         else case cm_Dispatch (channel_name env m) m (inbound_manager c1) of
                Inl e \<Rightarrow> Inl (ChannelFault e)
              | Inr cm \<Rightarrow> Inr (c1\<lparr>inbound_manager := cm\<rparr>))"

definition ctl_SendResponse ::
  "('m, 'p, 'w) ctl_env \<Rightarrow> 'm \<Rightarrow> ('m, 'r, 'e, 'p, 'w) controller \<Rightarrow> ctl_fault + ('m, 'r, 'e, 'p, 'w) controller" where
  "ctl_SendResponse env m c =
     (let c1 = (if OnOutbound c then ctl_emit [Outbound m] c else c)
      in case cm_Dispatch (channel_name env m) m (outbound_manager c1) of
           Inl e \<Rightarrow> Inl (ChannelFault e)
         | Inr cm \<Rightarrow> Inr (c1\<lparr>outbound_manager := cm\<rparr>))"

definition ctl_ShutdownAllSessions ::
  "('m, 'p, 'w) ctl_env \<Rightarrow> bool \<Rightarrow> ('m, 'r, 'e, 'p, 'w) controller \<Rightarrow> ('m, 'r, 'e, 'p, 'w) controller" where
  "ctl_ShutdownAllSessions env force c =
     (let (sm, w) = manager_Drain env force (ctl_sessions c) (ctl_world c);
          c1 = c\<lparr>ctl_sessions := sm, ctl_world := w\<rparr>;
          c2 = c1\<lparr>inbound_manager := cm_ShutdownAllGraceful (inbound_manager c1)\<rparr>
      in c2\<lparr>outbound_manager := cm_ShutdownAllGraceful (outbound_manager c2)\<rparr>)"

text \<open>
  The handlers the channel workers call, as they run on the strand. An exception of the hook skips the
  router; both are reported to the callbacks, if any.
\<close>

definition ctl_HandleProcessing ::
  "('m, 'p, 'w) ctl_env \<Rightarrow> 'm \<Rightarrow> ('m, 'r, 'e, 'p, 'w) controller \<Rightarrow> ('m, 'r, 'e, 'p, 'w) controller" where
  "ctl_HandleProcessing env m c =
     (let c1 = (if OnProcess c then ctl_emit [Process m] c else c)
      in if OnProcess c \<and> process_throws env m then (if ctl_callbacks c1 then ctl_emit [CtlError m] c1 else c1)
         else
           let c2 = (if router c1 then ctl_emit [Routed m] c1 else c1)
           in if router c1 \<and> route_throws env m \<and> ctl_callbacks c2 then ctl_emit [CtlError m] c2 else c2)"

definition ctl_HandleOutbound ::
  "('m, 'p, 'w) ctl_env \<Rightarrow> 'm \<Rightarrow> ('m, 'r, 'e, 'p, 'w) controller \<Rightarrow> ('m, 'r, 'e, 'p, 'w) controller" where
  "ctl_HandleOutbound env m c =
     (let i = (case meta_dest_session env m of Some i \<Rightarrow> i | None \<Rightarrow> 0)
      in case sm_Get i (ctl_sessions c) of
           None \<Rightarrow> c
         | Some p \<Rightarrow>
             let c1 = c\<lparr>ctl_world := session_AsyncSend env p m (ctl_world c)\<rparr>
             in if send_throws env p m \<and> ctl_callbacks c1 then ctl_emit [CtlError m] c1 else c1)"

subsection \<open>Properties\<close>

text \<open>
  Registering a session assigns it a channel below the number of channels, and registers it unless
  the id is taken. In that case the new session still gets a channel and is announced as connected,
  but later messages for the id go to the old one. Without channels the assignment divides by zero.
\<close>

theorem ctl_register:
  assumes "0 < num_channels c"
  shows "\<exists>c' ch. ctl_RegisterSession env i p c = Inr c' \<and> ch < num_channels c \<and> ch = unat i mod num_channels c \<and>
    ctl_world c' = session_set_channel env p ch (ctl_world c) \<and>
    sm_Get i (ctl_sessions c') = (case hm_find (sessions (ctl_sessions c)) i of None \<Rightarrow> Some p | Some old \<Rightarrow> old) \<and>
    (j = i \<or> sm_Get j (ctl_sessions c') = sm_Get j (ctl_sessions c)) \<and>
    ctl_log c' = ctl_log c @ (if ctl_callbacks c then [SessionConnected i] else [])"
  using assms
  by (auto simp: ctl_RegisterSession_def Let_def ctl_emit_def sm_Get_def sm_Add_def hm_find_emplace split: option.splits)

definition demo_ctl_env :: "(nat, nat, (nat \<times> nat) list) ctl_env" where
  "demo_ctl_env =
     \<lparr>meta_channel = \<lambda>m. Some (m mod 2), meta_dest_session = \<lambda>m. Some (of_nat m), inbound_ok = \<lambda>m. m < 100,
      process_throws = \<lambda>m. False, route_throws = \<lambda>m. False, send_throws = \<lambda>p m. False,
      session_AsyncSend = \<lambda>p m w. w @ [(p, m)], session_set_channel = \<lambda>p ch w. w,
      manager_Drain = \<lambda>force sm w. (sm, w)\<rparr>"

definition demo_ctl :: "(nat, unit, unit, nat, (nat \<times> nat) list) controller" where
  "demo_ctl = (ctl_new 4 (''d'', tmp_config_default 1) [])\<lparr>OnInbound := True\<rparr>"

theorem ctl_register_witness:
  "\<exists>c'. ctl_RegisterSession demo_ctl_env 7 1 demo_ctl = Inr c' \<and> sm_Get 7 (ctl_sessions c') = Some 1"
proof -
  have "0 < num_channels demo_ctl" by (simp add: demo_ctl_def ctl_new_def)
  from ctl_register [OF this, of demo_ctl_env 7 1 7] show ?thesis
    by (auto simp: demo_ctl_def ctl_new_def sm_new_def)
qed

text \<open>
  Routing on a controller as constructed: a message the inbound hook refuses is dropped with no
  effect but the hook's call, and every other message, and every response, runs into the missing channel.
\<close>

theorem ctl_route_fresh:
  assumes "channels (inbound_manager c) = []" and "channels (outbound_manager c) = []"
  shows "ctl_RouteMessage env m c =
      (if OnInbound c \<and> \<not> inbound_ok env m then Inr (ctl_emit [Inbound m] c) else Inl (ChannelFault NullChannel)) \<and>
    ctl_SendResponse env m c = Inl (ChannelFault NullChannel)"
  using assms
  by (simp add: ctl_RouteMessage_def ctl_SendResponse_def cm_Dispatch_def cm_GetChannel_def ctl_emit_def Let_def)

theorem ctl_route_fresh_witness:
  "ctl_RouteMessage demo_ctl_env 5 demo_ctl = Inl (ChannelFault NullChannel)"
proof -
  have "channels (inbound_manager demo_ctl) = []" "channels (outbound_manager demo_ctl) = []"
    by (simp_all add: demo_ctl_def ctl_new_def cm_new_def)
  from ctl_route_fresh [OF this, of demo_ctl_env 5] show ?thesis by (simp add: demo_ctl_env_def)
qed

text \<open>
  Routing with channels in place: a message the hook admits is submitted to the channel with the
  number of its metadata (0 without one) and to no other - channel names are the decimal numbers, and
  different numbers have different names.
\<close>

theorem ctl_route_to_channel:
  assumes "hm_find (channels (inbound_manager c)) (to_string ch) = Some chan" and "tmp_wf (proc chan)"
    and "meta_channel env m = Some ch" and "inbound_ok env m"
  shows "\<exists>c' chan'. ctl_RouteMessage env m c = Inr c' \<and>
    hm_find (channels (inbound_manager c')) (to_string ch) = Some chan' \<and> tmp_Submit m (proc chan) = Inr (proc chan') \<and>
    (j = ch \<or> hm_find (channels (inbound_manager c')) (to_string j) = hm_find (channels (inbound_manager c)) (to_string j)) \<and>
    outbound_manager c' = outbound_manager c"
proof -
  from ch_Enqueue_ok [OF assms(2), of m] obtain chan' where
    "ch_Enqueue m chan = Inr chan'" "tmp_Submit m (proc chan) = Inr (proc chan')" by blast
  with assms(1,3,4) show ?thesis
    by (auto simp: ctl_RouteMessage_def channel_name_def cm_Dispatch_def cm_GetChannel_def ctl_emit_def Let_def
        to_string_inj)
qed

text \<open>
  Outbound messages go to the registered session their metadata names (session 0 without one), and a
  message for an unknown session is dropped without a trace: no callback, no error.
\<close>

theorem ctl_outbound:
  "ctl_HandleOutbound env m c =
     (case sm_Get (case meta_dest_session env m of Some i \<Rightarrow> i | None \<Rightarrow> 0) (ctl_sessions c) of
        None \<Rightarrow> c
      | Some p \<Rightarrow>
          c\<lparr>ctl_world := session_AsyncSend env p m (ctl_world c),
            ctl_log := ctl_log c @ (if send_throws env p m \<and> ctl_callbacks c then [CtlError m] else [])\<rparr>)"
  by (cases c) (simp add: ctl_HandleOutbound_def Let_def ctl_emit_def split: option.splits)

end
