(* ===== verification/Acceptor_Loop.thy ===== *)
theory Acceptor_Loop
  imports Controller
begin

text \<open>
  \<^verbatim>\<open>src/src/vectro/tcp/tcp_acceptor_loop.h\<close> and \<^verbatim>\<open>tcp_acceptor_interface.h\<close>: accepting connections on
  one port. All handlers run on the loop's strand, and \<^verbatim>\<open>Start\<close>, \<^verbatim>\<open>Stop\<close>, \<^verbatim>\<open>EnableDraining\<close> and
  \<^verbatim>\<open>SetDrainCallback\<close> are dispatched to it, so each is one atomic operation.

  The state keeps the accepts outstanding at the operating system, each with the wait on the timer
  \<^verbatim>\<open>DoAccept\<close> made for it, and the number of expired waits whose handlers have not run yet. What the
  loops of one stream type share is in \<open>accept_world\<close>: the function-local \<^verbatim>\<open>static\<close> id counter, the heap on
  which session objects are made (\<open>next_obj\<close> is the next free address), and the controller, whose
  world is the store of session objects. The framer factory, the session's framer and plugins and the
  controller's hooks are parameters, gathered in \<open>al_env\<close>.
\<close>

type_synonym endpoint = "string \<times> u16"

text \<open>The result of an accept: \<open>Accepted None\<close> if the remote endpoint cannot be read.\<close>

datatype accept_result = Accepted "endpoint option" | AcceptError

record accept_op =
  accept_done :: "accept_result option"
  accept_timed :: bool

datatype al_effect =
    SessionCreated address u64 endpoint
  | SocketDropped "endpoint option"
  | DrainChanged bool

record 'p acceptor_loop =
  acceptor_open :: bool
  acceptor_port :: u16
  al_plugin_bundle :: "'p plugin_bundle"
  al_filter :: "(endpoint \<Rightarrow> bool) option"
  drain_callback :: bool
  al_stopped :: bool
  al_draining :: bool
  accepts_out :: "accept_op list"
  timeouts_due :: nat
  al_log :: "al_effect list"

record ('f, 'm, 'b, 'p, 'i, 'e) al_env =
  al_ses :: "('f, 'm, 'b, 'p, 'i, 'e) ses_env"
  al_framer_factory :: 'f
  al_ctl :: "('m, address, ('f, 'm, 'b, 'p, 'e) ses_store) ctl_env"

record ('f, 'm, 'b, 'p, 'e, 'r, 'x) accept_world =
  id_seq :: u64
  next_obj :: address
  ctl :: "('m, 'r, 'x, address, ('f, 'm, 'b, 'p, 'e) ses_store) controller"

subsection \<open>Operations\<close>

definition al_new :: "u16 \<Rightarrow> 'p plugin_bundle \<Rightarrow> (endpoint \<Rightarrow> bool) option \<Rightarrow> 'p acceptor_loop" where
  "al_new port bundle filt =
     \<lparr>acceptor_open = True, acceptor_port = port, al_plugin_bundle = bundle, al_filter = filt,
      drain_callback = False, al_stopped = False, al_draining = False, accepts_out = [],
      timeouts_due = 0, al_log = []\<rparr>"

text \<open>\<^verbatim>\<open>DoAccept\<close>: one accept and one timed wait are started; a stopped loop starts nothing.\<close>

definition al_DoAccept :: "'p acceptor_loop \<Rightarrow> 'p acceptor_loop" where
  "al_DoAccept L =
     (if al_stopped L then L
      else L\<lparr>accepts_out := accepts_out L @ [\<lparr>accept_done = None, accept_timed = True\<rparr>]\<rparr>)"

text \<open>\<^verbatim>\<open>acceptor_->cancel\<close>: the accepts still waiting complete with an error.\<close>

definition abort_accept :: "accept_op \<Rightarrow> accept_op" where
  "abort_accept op = (case accept_done op of None \<Rightarrow> op\<lparr>accept_done := Some AcceptError\<rparr> | Some _ \<Rightarrow> op)"

definition acceptor_cancel :: "'p acceptor_loop \<Rightarrow> 'p acceptor_loop" where
  "acceptor_cancel L = L\<lparr>accepts_out := map abort_accept (accepts_out L)\<rparr>"

definition al_Start :: "'p acceptor_loop \<Rightarrow> 'p acceptor_loop" where
  "al_Start L = (if al_stopped L then L else al_DoAccept L)"

definition al_Stop :: "'p acceptor_loop \<Rightarrow> 'p acceptor_loop" where
  "al_Stop L = (acceptor_cancel (L\<lparr>al_stopped := True\<rparr>))\<lparr>acceptor_open := False\<rparr>"

definition al_EnableDraining :: "bool \<Rightarrow> 'p acceptor_loop \<Rightarrow> 'p acceptor_loop" where
  "al_EnableDraining enable L =
     (let L1 = L\<lparr>al_draining := enable\<rparr>
      in if drain_callback L1 then L1\<lparr>al_log := al_log L1 @ [DrainChanged enable]\<rparr> else L1)"

definition al_SetDrainCallback :: "bool \<Rightarrow> 'p acceptor_loop \<Rightarrow> 'p acceptor_loop" where
  "al_SetDrainCallback cb L = L\<lparr>drain_callback := cb\<rparr>"

text \<open>
  \<^verbatim>\<open>OnSessionAccepted\<close>: the session is started under a new id with both handlers set, then
  registered with the controller.
\<close>

definition al_OnSessionAccepted ::
  "('f, 'm, 'b, 'p, 'i, 'e) al_env \<Rightarrow> address \<Rightarrow> endpoint \<Rightarrow> 'p acceptor_loop \<Rightarrow>
   ('f, 'm, 'b, 'p, 'e, 'r, 'x) accept_world \<Rightarrow> ctl_fault + u64 \<times> ('f, 'm, 'b, 'p, 'e, 'r, 'x) accept_world" where
  "al_OnSessionAccepted env p remote L W =
     (let i = id_seq W;
          W1 = W\<lparr>id_seq := i + 1\<rparr>;
          store = ctl_world (ctl W1);
          s = ses_Start (al_ses env) i (fst remote) (snd remote) (acceptor_port L) True True (store p);
          c1 = (ctl W1)\<lparr>ctl_world := store(p := s)\<rparr>
      in case ctl_RegisterSession (al_ctl env) i p c1 of
           Inl fault \<Rightarrow> Inl fault
         | Inr c2 \<Rightarrow> Inr (i, W1\<lparr>ctl := c2\<rparr>))"

definition al_CreateSession ::
  "('f, 'm, 'b, 'p, 'i, 'e) al_env \<Rightarrow> endpoint \<Rightarrow> 'p acceptor_loop \<Rightarrow>
   ('f, 'm, 'b, 'p, 'e, 'r, 'x) accept_world \<Rightarrow>
   ctl_fault + 'p acceptor_loop \<times> ('f, 'm, 'b, 'p, 'e, 'r, 'x) accept_world" where
  "al_CreateSession env remote L W =
     (let p = next_obj W;
          s = ses_SetPluginBundle (al_plugin_bundle L) (ses_new (al_framer_factory env));
          W1 = W\<lparr>next_obj := Suc p, ctl := (ctl W)\<lparr>ctl_world := (ctl_world (ctl W))(p := s)\<rparr>\<rparr>
      in case al_OnSessionAccepted env p remote L W1 of
           Inl fault \<Rightarrow> Inl fault
         | Inr (i, W2) \<Rightarrow> Inr (L\<lparr>al_log := al_log L @ [SessionCreated p i remote]\<rparr>, W2))"

text \<open>\<^verbatim>\<open>!rem_ec && (!filter_ || filter_(remote))\<close>: the endpoint of a connection that is let in.\<close>

definition al_admits :: "'p acceptor_loop \<Rightarrow> endpoint option \<Rightarrow> bool" where
  "al_admits L remote =
     (case remote of
        None \<Rightarrow> False
      | Some ep \<Rightarrow> (case al_filter L of None \<Rightarrow> True | Some f \<Rightarrow> f ep))"

text \<open>
  The completion handler of the \<open>i\<close>-th outstanding accept. Cancelling its timer ends the wait, unless
  the wait has already expired. In the branch without error the connection is handed on or closed;
  in every branch the next accept is issued.
\<close>

definition al_on_accept ::
  "('f, 'm, 'b, 'p, 'i, 'e) al_env \<Rightarrow> nat \<Rightarrow> accept_result \<Rightarrow> 'p acceptor_loop \<Rightarrow>
   ('f, 'm, 'b, 'p, 'e, 'r, 'x) accept_world \<Rightarrow>
   ctl_fault + 'p acceptor_loop \<times> ('f, 'm, 'b, 'p, 'e, 'r, 'x) accept_world" where
  "al_on_accept env i result L W =
     (let L0 = L\<lparr>accepts_out := take i (accepts_out L) @ drop (Suc i) (accepts_out L)\<rparr>
      in if al_stopped L0 then Inr (L0, W)
         else
           case result of
             AcceptError \<Rightarrow> Inr (al_DoAccept L0, W)
           | Accepted remote \<Rightarrow>
               if al_admits L0 remote \<and> \<not> al_draining L0 then
                 (case al_CreateSession env (the remote) L0 W of
                    Inl fault \<Rightarrow> Inl fault
                  | Inr (L1, W1) \<Rightarrow> Inr (al_DoAccept L1, W1))
               else Inr (al_DoAccept (L0\<lparr>al_log := al_log L0 @ [SocketDropped remote]\<rparr>), W))"

text \<open>The wait handler of an expired accept timer.\<close>

definition al_on_timeout :: "'p acceptor_loop \<Rightarrow> 'p acceptor_loop" where
  "al_on_timeout L = acceptor_cancel L"

lemmas al_ops [vec_defs] =
  al_new_def al_DoAccept_def abort_accept_def acceptor_cancel_def al_Start_def al_Stop_def
  al_EnableDraining_def al_SetDrainCallback_def al_on_timeout_def

subsection \<open>Runs\<close>

text \<open>
  Calls and completions in any order. \<open>AlArrive i r\<close>: the \<open>i\<close>-th outstanding accept completes with
  \<open>r\<close>, and its handler is queued; \<open>AlHandle i\<close>: that handler runs. \<open>AlExpire i\<close>: the wait of the
  \<open>i\<close>-th accept expires; \<open>AlTimeout\<close>: the handler of an expired wait runs. \<open>AlSession p ev\<close>: something
  happens on a session. An event for an operation that is not outstanding does not happen.
\<close>

datatype ('m, 'b) al_event =
    AlStart
  | AlStop
  | AlDrain bool
  | AlSetDrainCallback bool
  | AlArrive nat accept_result
  | AlHandle nat
  | AlExpire nat
  | AlTimeout
  | AlSession address "('m, 'b) ses_event"

definition world_session ::
  "('f, 'm, 'b, 'p, 'i, 'e) al_env \<Rightarrow> address \<Rightarrow> ('m, 'b) ses_event \<Rightarrow>
   ('f, 'm, 'b, 'p, 'e, 'r, 'x) accept_world \<Rightarrow> ('f, 'm, 'b, 'p, 'e, 'r, 'x) accept_world" where
  "world_session env p ev W =
     W\<lparr>ctl := (ctl W)\<lparr>ctl_world := (ctl_world (ctl W))(p := ses_event (al_ses env) ev (ctl_world (ctl W) p))\<rparr>\<rparr>"

fun al_exec ::
  "('f, 'm, 'b, 'p, 'i, 'e) al_env \<Rightarrow> ('m, 'b) al_event \<Rightarrow>
   'p acceptor_loop \<times> ('f, 'm, 'b, 'p, 'e, 'r, 'x) accept_world \<Rightarrow>
   ctl_fault + 'p acceptor_loop \<times> ('f, 'm, 'b, 'p, 'e, 'r, 'x) accept_world" where
  "al_exec env AlStart (L, W) = Inr (al_Start L, W)"
| "al_exec env AlStop (L, W) = Inr (al_Stop L, W)"
| "al_exec env (AlDrain b) (L, W) = Inr (al_EnableDraining b L, W)"
| "al_exec env (AlSetDrainCallback b) (L, W) = Inr (al_SetDrainCallback b L, W)"
| "al_exec env (AlArrive i r) (L, W) =
     (if i < length (accepts_out L) \<and> accept_done (accepts_out L ! i) = None
      then Inr (L\<lparr>accepts_out := (accepts_out L)[i := (accepts_out L ! i)\<lparr>accept_done := Some r\<rparr>]\<rparr>, W)
      else Inr (L, W))"
| "al_exec env (AlHandle i) (L, W) =
     (if i < length (accepts_out L)
      then (case accept_done (accepts_out L ! i) of
              None \<Rightarrow> Inr (L, W)
            | Some r \<Rightarrow> al_on_accept env i r L W)
      else Inr (L, W))"
| "al_exec env (AlExpire i) (L, W) =
     (if i < length (accepts_out L) \<and> accept_timed (accepts_out L ! i)
      then Inr (L\<lparr>accepts_out := (accepts_out L)[i := (accepts_out L ! i)\<lparr>accept_timed := False\<rparr>],
                  timeouts_due := Suc (timeouts_due L)\<rparr>, W)
      else Inr (L, W))"
| "al_exec env AlTimeout (L, W) =
     (if timeouts_due L = 0 then Inr (L, W)
      else Inr (al_on_timeout (L\<lparr>timeouts_due := timeouts_due L - 1\<rparr>), W))"
| "al_exec env (AlSession p ev) (L, W) = Inr (L, if p < next_obj W then world_session env p ev W else W)"

fun al_run ::
  "('f, 'm, 'b, 'p, 'i, 'e) al_env \<Rightarrow> ('m, 'b) al_event list \<Rightarrow>
   'p acceptor_loop \<times> ('f, 'm, 'b, 'p, 'e, 'r, 'x) accept_world \<Rightarrow>
   ctl_fault + 'p acceptor_loop \<times> ('f, 'm, 'b, 'p, 'e, 'r, 'x) accept_world" where
  "al_run env [] s = Inr s"
| "al_run env (ev # evs) s = (case al_exec env ev s of Inl fault \<Rightarrow> Inl fault | Inr t \<Rightarrow> al_run env evs t)"

inductive al_step ::
  "('f, 'm, 'b, 'p, 'i, 'e) al_env \<Rightarrow> 'p acceptor_loop \<times> ('f, 'm, 'b, 'p, 'e, 'r, 'x) accept_world \<Rightarrow>
   'p acceptor_loop \<times> ('f, 'm, 'b, 'p, 'e, 'r, 'x) accept_world \<Rightarrow> bool"
  for env :: "('f, 'm, 'b, 'p, 'i, 'e) al_env" where
  "al_exec env ev s = Inr t \<Longrightarrow> al_step env s t"

inductive_cases al_stepE [elim!]: "al_step env s t"

subsection \<open>Creating a session\<close>

text \<open>
  Assigning a channel writes the session's \<^verbatim>\<open>meta()\<close>, which is none of the members of the session
  modelled here.
\<close>

definition channel_is_separate :: "('f, 'm, 'b, 'p, 'i, 'e) al_env \<Rightarrow> bool" where
  "channel_is_separate env \<longleftrightarrow> (\<forall>p ch w. session_set_channel (al_ctl env) p ch w = w)"

definition accepted_session ::
  "('f, 'm, 'b, 'p, 'i, 'e) al_env \<Rightarrow> u64 \<Rightarrow> endpoint \<Rightarrow> 'p acceptor_loop \<Rightarrow> ('f, 'm, 'b, 'p, 'e) session" where
  "accepted_session env i remote L =
     ses_Start (al_ses env) i (fst remote) (snd remote) (acceptor_port L) True True
       (ses_SetPluginBundle (al_plugin_bundle L) (ses_new (al_framer_factory env)))"

lemma al_CreateSession_ok:
  assumes "0 < num_channels (ctl W)"
  shows "al_CreateSession env remote L W =
    Inr (L\<lparr>al_log := al_log L @ [SessionCreated (next_obj W) (id_seq W) remote]\<rparr>,
         W\<lparr>id_seq := id_seq W + 1, next_obj := Suc (next_obj W),
           ctl := (ctl W)\<lparr>ctl_world := session_set_channel (al_ctl env) (next_obj W) (unat (id_seq W) mod num_channels (ctl W))
                            ((ctl_world (ctl W))(next_obj W := accepted_session env (id_seq W) remote L)),
                          ctl_sessions := sm_Add (id_seq W) (Some (next_obj W)) (ctl_sessions (ctl W)),
                          ctl_log := ctl_log (ctl W) @ (if ctl_callbacks (ctl W) then [SessionConnected (id_seq W)] else [])\<rparr>\<rparr>)"
  using assms
  by (simp add: al_CreateSession_def al_OnSessionAccepted_def ctl_RegisterSession_def ctl_emit_def Let_def
      accepted_session_def)

lemma al_CreateSession_InrD:
  "al_CreateSession env remote L W = Inr s \<Longrightarrow> 0 < num_channels (ctl W)"
  by (cases "num_channels (ctl W)")
    (simp_all add: al_CreateSession_def al_OnSessionAccepted_def ctl_RegisterSession_def Let_def)

lemma al_CreateSession_loop:
  "al_CreateSession env remote L W = Inr (L', W') \<Longrightarrow> \<exists>l. L' = L\<lparr>al_log := l\<rparr>"
  by (frule al_CreateSession_InrD) (auto simp: al_CreateSession_ok)

text \<open>Who a session is talking to does not change during its life.\<close>

definition ses_identity :: "('f, 'm, 'b, 'p, 'e) session \<Rightarrow> u64 \<times> endpoint \<times> u16" where
  "ses_identity s = (ses_id s, (ses_remote_ip s, ses_remote_port s), ses_local_port s)"

lemma ses_identity_ops [simp]:
  "ses_identity (ses_emit effs s) = ses_identity s"
  "ses_identity (ses_Close_force s) = ses_identity s"
  "ses_identity (ses_Close force s) = ses_identity s"
  "ses_identity (ses_Shutdown s) = ses_identity s"
  "ses_identity (ses_WriteNext s) = ses_identity s"
  "ses_identity (ses_StartRead env s) = ses_identity s"
  by (simp_all add: ses_identity_def ses_ops Let_def split: list.splits option.splits)

lemma ses_identity_fields [simp]:
  "ses_identity (s\<lparr>framer := fr\<rparr>) = ses_identity s" "ses_identity (s\<lparr>write_deque := d\<rparr>) = ses_identity s"
  "ses_identity (s\<lparr>write_in_progress := b\<rparr>) = ses_identity s" "ses_identity (s\<lparr>write_queue_sg := q\<rparr>) = ses_identity s"
  "ses_identity (s\<lparr>read_timer := t\<rparr>) = ses_identity s" "ses_identity (s\<lparr>idle_timer := t\<rparr>) = ses_identity s"
  "ses_identity (s\<lparr>reads_out := n\<rparr>) = ses_identity s" "ses_identity (s\<lparr>writes_out := ws\<rparr>) = ses_identity s"
  by (simp_all add: ses_identity_def)

lemma ses_identity_event [simp]: "ses_identity (ses_event env ev s) = ses_identity s"
  by (cases ev)
    (simp_all add: ses_event_def ses_AsyncSend_def ses_on_read_def ses_on_written_def ses_on_timer_def Let_def
      split: option.splits sum.splits prod.splits)

lemma ses_identity_accepted [simp]:
  "ses_identity (accepted_session env i remote L) = (i, remote, acceptor_port L)"
  by (simp add: accepted_session_def ses_Start_def ses_StartIdleTimer_def Let_def)
    (simp add: ses_identity_def)

lemma ses_id_accepted [simp]: "ses_id (accepted_session env i remote L) = i"
  using ses_identity_accepted [of env i remote L] by (simp add: ses_identity_def)

lemma ses_id_event [simp]: "ses_id (ses_event env ev s) = ses_id s"
  using ses_identity_event [of env ev s] by (simp add: ses_identity_def)

subsection \<open>One step\<close>

lemma al_DoAccept_simps [simp]:
  "al_stopped (al_DoAccept L) = al_stopped L" "al_draining (al_DoAccept L) = al_draining L"
  "al_filter (al_DoAccept L) = al_filter L" "timeouts_due (al_DoAccept L) = timeouts_due L"
  "length (accepts_out (al_DoAccept L)) = length (accepts_out L) + (if al_stopped L then 0 else 1)"
  by (simp_all add: al_DoAccept_def)

lemma al_exec_listening:
  assumes "0 < num_channels (ctl W)"
  shows "\<exists>L' W'. al_exec env ev (L, W) = Inr (L', W') \<and> num_channels (ctl W') = num_channels (ctl W) \<and>
    (al_stopped L' \<or> \<not> al_stopped L \<and>
      length (accepts_out L') = length (accepts_out L) + (if ev = AlStart then 1 else 0))"
proof (cases ev)
  case (AlHandle i)
  with assms show ?thesis
    by (auto simp: al_on_accept_def al_CreateSession_ok Let_def split: option.splits accept_result.splits)
qed (auto simp: al_ops world_session_def Let_def)

lemma al_run_stopped:
  "al_run env evs s = Inr t \<Longrightarrow> 0 < num_channels (ctl (snd s)) \<Longrightarrow> al_stopped (fst s) \<Longrightarrow> al_stopped (fst t)"
proof (induction evs arbitrary: s)
  case (Cons ev evs)
  obtain L W where s: "s = (L, W)" by (cases s)
  from al_exec_listening [of W env ev L] Cons.prems(2) s obtain L' W' where
    "al_exec env ev s = Inr (L', W')" "num_channels (ctl W') = num_channels (ctl W)" "al_stopped L' \<or> \<not> al_stopped L"
    by auto
  with Cons s show ?case by auto
qed simp

subsection \<open>Every accept is timed\<close>

definition al_init :: "'p acceptor_loop \<times> ('f, 'm, 'b, 'p, 'e, 'r, 'x) accept_world \<Rightarrow> bool" where
  "al_init s \<longleftrightarrow>
     (\<exists>port bundle filt. fst s = al_new port bundle filt) \<and>
     id_seq (snd s) = 1 \<and> next_obj (snd s) = 0 \<and> sessions (ctl_sessions (ctl (snd s))) = []"

definition al_timed :: "'p acceptor_loop \<Rightarrow> bool" where
  "al_timed L \<longleftrightarrow>
     list_all (\<lambda>op. accept_done op = None \<longrightarrow> accept_timed op \<or> 0 < timeouts_due L) (accepts_out L)"

lemma al_timed_DoAccept [simp]: "al_timed L \<Longrightarrow> al_timed (al_DoAccept L)"
  by (simp add: al_timed_def al_DoAccept_def)

lemma al_timed_cancel [simp]: "al_timed (acceptor_cancel L)"
  by (auto simp: al_timed_def acceptor_cancel_def abort_accept_def list_all_iff split: option.splits)

lemma al_timed_update:
  "al_timed L \<Longrightarrow> accept_done op = None \<longrightarrow> accept_timed op \<or> 0 < n \<Longrightarrow> timeouts_due L \<le> n \<Longrightarrow>
     al_timed (L\<lparr>accepts_out := (accepts_out L)[i := op], timeouts_due := n\<rparr>)"
  by (force simp: al_timed_def list_all_iff dest: set_update_subset_insert [THEN subsetD])

lemma al_timed_fields [simp]:
  "al_timed (L\<lparr>al_log := l\<rparr>) = al_timed L" "al_timed (L\<lparr>drain_callback := b\<rparr>) = al_timed L"
  "al_timed (L\<lparr>al_draining := b\<rparr>) = al_timed L" "al_timed (L\<lparr>acceptor_open := b\<rparr>) = al_timed L"
  by (simp_all add: al_timed_def)

lemma al_timed_remove:
  "al_timed L \<Longrightarrow> al_timed (L\<lparr>accepts_out := take i (accepts_out L) @ drop (Suc i) (accepts_out L)\<rparr>)"
  by (auto simp: al_timed_def list_all_iff dest: in_set_takeD in_set_dropD)

lemma al_timed_on_accept:
  assumes "al_timed L" and "al_on_accept env i r L W = Inr (L', W')"
  shows "al_timed L'"
  using assms(2) al_timed_remove [OF assms(1), of i]
  by (auto simp: al_on_accept_def Let_def split: if_splits accept_result.splits sum.splits
      dest!: al_CreateSession_loop)

lemma al_timed_exec:
  assumes "al_timed L" and "al_exec env ev (L, W) = Inr (L', W')"
  shows "al_timed L'"
proof (cases ev)
  case (AlArrive i r)
  with assms show ?thesis
    using al_timed_update [OF assms(1), of "(accepts_out L ! i)\<lparr>accept_done := Some r\<rparr>" "timeouts_due L" i]
    by (auto simp: al_timed_def split: if_splits)
next
  case (AlExpire i)
  with assms show ?thesis
    using al_timed_update [OF assms(1), of "(accepts_out L ! i)\<lparr>accept_timed := False\<rparr>" "Suc (timeouts_due L)" i]
    by (auto split: if_splits)
next
  case (AlHandle i)
  with assms show ?thesis
    by (auto split: if_splits option.splits intro: al_timed_on_accept)
next
  case AlTimeout
  with assms show ?thesis by (auto simp: al_on_timeout_def split: if_splits)
qed (use assms in \<open>auto simp: al_Start_def al_Stop_def al_EnableDraining_def al_SetDrainCallback_def Let_def\<close>)

interpretation accept_timed: inductive_invariant al_init "al_step env" "\<lambda>s. al_timed (fst s)"
proof (unfold_locales, goal_cases)
  case (1 s)
  then show ?case by (auto simp: al_init_def al_timed_def al_new_def)
next
  case (2 s t)
  then show ?case by (cases s; cases t) (auto intro: al_timed_exec)
qed

subsection \<open>The interface of acceptor loops\<close>

text \<open>
  What \<^verbatim>\<open>AcceptorLoopInterface\<close> promises, as a machine of its own: \<^verbatim>\<open>Stop\<close> stops accepting for good,
  \<^verbatim>\<open>EnableDraining\<close> toggles a mode in which new sockets are not passed on, and a connection becomes a
  session only while neither holds and only if its endpoint is admitted.
\<close>

record acceptor_spec =
  sp_stopped :: bool
  sp_draining :: bool
  sp_admit :: "endpoint \<Rightarrow> bool"
  sp_sessions :: "endpoint list"

inductive spec_step :: "acceptor_spec \<Rightarrow> acceptor_spec \<Rightarrow> bool" where
  spec_stop: "spec_step a (a\<lparr>sp_stopped := True\<rparr>)"
| spec_drain: "spec_step a (a\<lparr>sp_draining := b\<rparr>)"
| spec_accept: "\<not> sp_stopped a \<Longrightarrow> \<not> sp_draining a \<Longrightarrow> sp_admit a ep \<Longrightarrow>
    spec_step a (a\<lparr>sp_sessions := sp_sessions a @ [ep]\<rparr>)"

inductive_cases spec_stepE [elim!]: "spec_step a b"

lemma spec_steps: "spec_step\<^sup>*\<^sup>* a (a\<lparr>sp_stopped := True\<rparr>)" "spec_step\<^sup>*\<^sup>* a (a\<lparr>sp_draining := b\<rparr>)"
  by (rule r_into_rtranclp, rule spec_step.intros)+

text \<open>The sessions of the loop are the session objects that exist, by their remote endpoints.\<close>

definition al_abs :: "'p acceptor_loop \<times> ('f, 'm, 'b, 'p, 'e, 'r, 'x) accept_world \<Rightarrow> acceptor_spec" where
  "al_abs s =
     \<lparr>sp_stopped = al_stopped (fst s), sp_draining = al_draining (fst s),
      sp_admit = (\<lambda>ep. al_admits (fst s) (Some ep)),
      sp_sessions = map (\<lambda>p. fst (snd (ses_identity (ctl_world (ctl (snd s)) p)))) [0..<next_obj (snd s)]\<rparr>"

lemma al_admits_fields [simp]:
  "al_admits (L\<lparr>accepts_out := ops\<rparr>) = al_admits L" "al_admits (L\<lparr>al_log := l\<rparr>) = al_admits L"
  "al_admits (L\<lparr>al_stopped := b\<rparr>) = al_admits L" "al_admits (L\<lparr>al_draining := b\<rparr>) = al_admits L"
  "al_admits (L\<lparr>drain_callback := b\<rparr>) = al_admits L" "al_admits (L\<lparr>timeouts_due := n\<rparr>) = al_admits L"
  "al_admits (L\<lparr>acceptor_open := b\<rparr>) = al_admits L" "al_admits (al_DoAccept L) = al_admits L"
  by (auto simp: al_admits_def al_DoAccept_def fun_eq_iff split: option.splits)

lemma al_abs_create:
  assumes "al_CreateSession env ep L W = Inr (L', W')" and "channel_is_separate env"
  shows "al_abs (L', W') = (al_abs (L, W))\<lparr>sp_sessions := sp_sessions (al_abs (L, W)) @ [ep]\<rparr>"
  using assms al_CreateSession_InrD [OF assms(1)]
  by (auto simp: al_CreateSession_ok al_abs_def channel_is_separate_def)

lemma al_abs_DoAccept [simp]: "al_abs (al_DoAccept L, W) = al_abs (L, W)"
  by (simp add: al_abs_def)

lemma al_abs_fields [simp]:
  "al_abs (L\<lparr>accepts_out := ops\<rparr>, W) = al_abs (L, W)" "al_abs (L\<lparr>al_log := l\<rparr>, W) = al_abs (L, W)"
  "al_abs (L\<lparr>drain_callback := b\<rparr>, W) = al_abs (L, W)" "al_abs (L\<lparr>timeouts_due := n\<rparr>, W) = al_abs (L, W)"
  "al_abs (L\<lparr>acceptor_open := b\<rparr>, W) = al_abs (L, W)"
  "al_abs (L\<lparr>al_stopped := b\<rparr>, W) = (al_abs (L, W))\<lparr>sp_stopped := b\<rparr>"
  "al_abs (L\<lparr>al_draining := b\<rparr>, W) = (al_abs (L, W))\<lparr>sp_draining := b\<rparr>"
  "p < next_obj W \<Longrightarrow> al_abs (L, world_session env p ev W) = al_abs (L, W)"
  by (simp_all add: al_abs_def world_session_def)

lemma al_create_refines:
  assumes "al_CreateSession env ep L0 W = Inr (L', W')" and "channel_is_separate env"
    and "al_abs (L0, W) = al_abs (L, W)" and "al_admits L (Some ep)" and "\<not> al_stopped L" and "\<not> al_draining L"
  shows "spec_step\<^sup>*\<^sup>* (al_abs (L, W)) (al_abs (L', W'))"
proof (rule r_into_rtranclp)
  have "al_abs (L', W') = (al_abs (L, W))\<lparr>sp_sessions := sp_sessions (al_abs (L, W)) @ [ep]\<rparr>"
    using al_abs_create [OF assms(1,2)] assms(3) by simp
  moreover have "spec_step (al_abs (L, W)) ((al_abs (L, W))\<lparr>sp_sessions := sp_sessions (al_abs (L, W)) @ [ep]\<rparr>)"
    using assms(4-6) by (intro spec_accept) (simp_all add: al_abs_def)
  ultimately show "spec_step (al_abs (L, W)) (al_abs (L', W'))" by simp
qed

lemma al_on_accept_refines:
  assumes "al_on_accept env i r L W = Inr t" and "channel_is_separate env"
  shows "spec_step\<^sup>*\<^sup>* (al_abs (L, W)) (al_abs t)"
proof (cases "\<exists>ep. r = Accepted (Some ep) \<and> al_admits L (Some ep) \<and> \<not> al_stopped L \<and> \<not> al_draining L")
  case True
  then obtain ep where "r = Accepted (Some ep)" "al_admits L (Some ep)" "\<not> al_stopped L" "\<not> al_draining L" by blast
  with assms show ?thesis
    by (auto simp: al_on_accept_def Let_def split: sum.splits) (erule al_create_refines; simp)
next
  case False
  then have "al_abs t = al_abs (L, W)"
    using assms(1)
    by (cases r; cases "case r of Accepted rem \<Rightarrow> rem | _ \<Rightarrow> None")
      (auto simp: al_on_accept_def al_admits_def [of _ None] Let_def split: if_splits)
  then show ?thesis by simp
qed

interpretation acceptor_refinement:
  forward_simulation "al_step env" spec_step al_abs "\<lambda>_. channel_is_separate env"
proof (unfold_locales, goal_cases)
  case (2 s t)
  then obtain ev L W where s: "s = (L, W)" and ev: "al_exec env ev (L, W) = Inr t" by (cases s) auto
  show ?case
  proof (cases ev)
    case (AlHandle i)
    with s ev 2 show ?thesis by (auto split: if_splits option.splits intro: al_on_accept_refines)
  next
    case AlStop
    with s ev show ?thesis by (auto simp: al_Stop_def acceptor_cancel_def spec_steps)
  next
    case (AlDrain b)
    with s ev show ?thesis by (auto simp: al_EnableDraining_def Let_def spec_steps)
  qed (use s ev in \<open>auto simp: al_Start_def al_SetDrainCallback_def al_on_timeout_def acceptor_cancel_def split: if_splits\<close>)
qed

text \<open>Once stopped, a loop creates no session any more.\<close>

lemma al_stopped_final:
  assumes "(al_step env)\<^sup>*\<^sup>* (L, W) (L', W')" and "channel_is_separate env" and "al_stopped L"
  shows "al_stopped L'" and "next_obj W' = next_obj W"
proof -
  let ?P = "\<lambda>a. sp_stopped a \<and> sp_sessions a = sp_sessions (al_abs (L, W))"
  have "?P (al_abs (L', W'))"
    by (rule acceptor_refinement.transfers [OF _ assms(1,2), of ?P]) (use assms(3) in \<open>auto simp: al_abs_def\<close>)
  then have "al_stopped L'" and "length (sp_sessions (al_abs (L', W'))) = length (sp_sessions (al_abs (L, W)))"
    by (simp_all add: al_abs_def)
  then show "al_stopped L'" and "next_obj W' = next_obj W" by (simp_all add: al_abs_def)
qed

subsection \<open>Properties\<close>

definition demo_al_env :: "(unit, string, string, unit, unit, string) al_env" where
  "demo_al_env =
     \<lparr>al_ses = demo_env,
      al_framer_factory = (),
      al_ctl = \<lparr>meta_channel = \<lambda>m. None, meta_dest_session = \<lambda>m. Some 1, inbound_ok = \<lambda>m. True,
                process_throws = \<lambda>m. False, route_throws = \<lambda>m. False, send_throws = \<lambda>p m. False,
                session_AsyncSend = store_AsyncSend demo_env, session_set_channel = \<lambda>p ch w. w, manager_Drain = sm_Close store_Close\<rparr>\<rparr>"

definition demo_world :: "(unit, string, string, unit, string, unit, unit) accept_world" where
  "demo_world =
     \<lparr>id_seq = 1, next_obj = 0, ctl = ctl_new 4 (''ch'', tmp_config_default 1) (\<lambda>_. ses_new ())\<rparr>"

definition demo_loop :: "unit acceptor_loop" where
  "demo_loop = al_new 80 [] None"

lemma demo_world_simps [simp]:
  "num_channels (ctl demo_world) = 4" "next_obj demo_world = 0" "al_init (demo_loop, demo_world)"
  "channel_is_separate demo_al_env"
  by (auto simp: demo_world_def ctl_new_def al_init_def demo_loop_def sm_new_def channel_is_separate_def demo_al_env_def)



text \<open>
  The accept timeout always works: in every reachable state, for every accept that is still waiting,
  the expiry of its timer and the handler of an expired timer suffice to complete it (with an error,
  after which the loop accepts again).
\<close>

theorem al_accept_bounded:
  assumes "reachable al_init (al_step env) (L, W)"
    and "i < length (accepts_out L)" and "accept_done (accepts_out L ! i) = None"
  shows "\<exists>evs L'. set evs \<subseteq> {AlExpire i, AlTimeout} \<and> al_run env evs (L, W) = Inr (L', W) \<and>
    length (accepts_out L') = length (accepts_out L) \<and> accept_done (accepts_out L' ! i) = Some AcceptError"
proof -
  have timed: "accept_timed (accepts_out L ! i) \<or> 0 < timeouts_due L"
    using accept_timed.reachable_inv [OF assms(1)] assms(2,3) by (auto simp: al_timed_def list_all_length)
  then show ?thesis
  proof (cases "0 < timeouts_due L")
    case True
    with assms(2,3) show ?thesis
      by (intro exI [of _ "[AlTimeout]"]) (auto simp: al_on_timeout_def acceptor_cancel_def abort_accept_def)
  next
    case False
    with timed assms(2,3) show ?thesis
      by (intro exI [of _ "[AlExpire i, AlTimeout]"]) (auto simp: al_on_timeout_def acceptor_cancel_def abort_accept_def)
  qed
qed

lemma demo_al_started: "reachable al_init (al_step demo_al_env) (al_Start demo_loop, demo_world)"
  by (rule reachable_step [OF reachable_init, of _ "(demo_loop, demo_world)"]) (auto intro: al_step.intros [of _ AlStart])

theorem al_accept_bounded_witness:
  "\<exists>evs L'. set evs \<subseteq> {AlExpire 0, AlTimeout} \<and>
     al_run demo_al_env evs (al_Start demo_loop, demo_world) = Inr (L', demo_world) \<and>
     accept_done (accepts_out L' ! 0) = Some AcceptError"
  using al_accept_bounded [OF demo_al_started, of 0] by (auto simp: demo_loop_def al_ops)

definition demo_accepted :: "unit acceptor_loop \<times> (unit, string, string, unit, string, unit, unit) accept_world" where
  "demo_accepted =
     (case al_run demo_al_env [AlStart, AlArrive 0 (Accepted (Some (''10.0.0.1'', 4242))), AlHandle 0] (demo_loop, demo_world) of
        Inr s \<Rightarrow> s | Inl _ \<Rightarrow> (demo_loop, demo_world))"

lemma al_run_steps: "al_run env evs s = Inr t \<Longrightarrow> (al_step env)\<^sup>*\<^sup>* s t"
  by (induction evs arbitrary: s) (auto split: sum.splits intro: converse_rtranclp_into_rtranclp al_step.intros)

lemma demo_accepted_run:
  "al_run demo_al_env [AlStart, AlArrive 0 (Accepted (Some (''10.0.0.1'', 4242))), AlHandle 0] (demo_loop, demo_world) =
     Inr demo_accepted"
  and demo_accepted_one: "next_obj (snd demo_accepted) = 1"
  by (simp_all add: demo_accepted_def demo_loop_def al_ops al_on_accept_def al_admits_def al_CreateSession_ok Let_def)



end
