(* ===== verification/Tcp_Server.thy ===== *)
theory Tcp_Server
  imports Acceptor_Loop
begin

text \<open>
  \<^verbatim>\<open>src/src/vectro/tcp/tcp_server.h\<close>: the listening ports of a server. Each member function holds the
  mutex throughout and is one atomic operation. Acceptor loops are objects behind \<^verbatim>\<open>shared_ptr\<close>s which
  their own handlers keep alive, so the model has a heap of loops (\<open>loops\<close>), and \<^verbatim>\<open>acceptors_\<close> maps a
  port to the position of its loop there; a loop that is no longer in \<^verbatim>\<open>acceptors_\<close> goes on running.

  The constructor call in \<^verbatim>\<open>Start\<close> passes a port, a TLS context and a flag where the constructor of
  \<^verbatim>\<open>AcceptorLoop\<close> takes an acceptor and a filter: the loop made here has an open acceptor on the port
  and no filter. The event hooks the server assigns are members the loop does not have, with empty
  bodies; they have no effect. \<open>is_tls\<close> is \<^verbatim>\<open>is_tls_stream_v<Stream>\<close>.
\<close>

subsection \<open>Streams\<close>

text \<open>\<^verbatim>\<open>detail/stream_traits.h\<close>: the stream types, and which of them are TLS streams.\<close>

datatype stream_type = TcpSocket | SslStream stream_type

fun is_tls_stream :: "stream_type \<Rightarrow> bool" where
  "is_tls_stream (SslStream next_layer) = True"
| "is_tls_stream TcpSocket = False"

subsection \<open>State and operations\<close>

record ('p, 't) port_config =
  cfg_port :: u16
  cfg_bundle :: "'p plugin_bundle"
  cfg_tls_provider :: "'t option"
  cfg_accept_timeout :: nat
  cfg_delayed_accept :: bool

record ('p, 't) tcp_server =
  ports :: "('p, 't) port_config list"
  acceptors :: "(u16, nat) hash_map"
  shutting_down :: bool
  loops :: "'p acceptor_loop list"

datatype srv_error = TlsProviderRequired

definition srv_new :: "('p, 't) tcp_server" where
  "srv_new = \<lparr>ports = [], acceptors = [], shutting_down = False, loops = []\<rparr>"

definition srv_AddPort ::
  "u16 \<Rightarrow> 'p plugin_bundle \<Rightarrow> 't option \<Rightarrow> nat \<Rightarrow> bool \<Rightarrow> ('p, 't) tcp_server \<Rightarrow> ('p, 't) tcp_server" where
  "srv_AddPort port bundle provider timeout delayed S =
     S\<lparr>ports := ports S @
        [\<lparr>cfg_port = port, cfg_bundle = bundle, cfg_tls_provider = provider, cfg_accept_timeout = timeout,
          cfg_delayed_accept = delayed\<rparr>]\<rparr>"

text \<open>A call on the loop a pointer of \<^verbatim>\<open>acceptors_\<close> leads to.\<close>

definition on_loop :: "('p acceptor_loop \<Rightarrow> 'p acceptor_loop) \<Rightarrow> nat \<Rightarrow> ('p, 't) tcp_server \<Rightarrow> ('p, 't) tcp_server" where
  "on_loop f k S = S\<lparr>loops := (loops S)[k := f (loops S ! k)]\<rparr>"

definition srv_RemovePort :: "u16 \<Rightarrow> ('p, 't) tcp_server \<Rightarrow> ('p, 't) tcp_server" where
  "srv_RemovePort port S =
     (let S1 = (case hm_find (acceptors S) port of
                  None \<Rightarrow> S
                | Some k \<Rightarrow> (on_loop al_Stop k S)\<lparr>acceptors := hm_erase port (acceptors S)\<rparr>)
      in S1\<lparr>ports := filter (\<lambda>c. cfg_port c \<noteq> port) (ports S1)\<rparr>)"

text \<open>The body of the loop in \<^verbatim>\<open>Start\<close> after the TLS check.\<close>

definition fresh_loop :: "bool \<Rightarrow> ('p, 't) port_config \<Rightarrow> 'p acceptor_loop" where
  "fresh_loop down pc =
     (let loop = al_new (cfg_port pc) (cfg_bundle pc) None
      in al_Start (if down then al_EnableDraining True loop else loop))"

definition srv_start_port :: "('p, 't) port_config \<Rightarrow> ('p, 't) tcp_server \<Rightarrow> ('p, 't) tcp_server" where
  "srv_start_port pc S =
     S\<lparr>loops := loops S @ [fresh_loop (shutting_down S) pc],
       acceptors := hm_assign (cfg_port pc) (length (loops S)) (acceptors S)\<rparr>"

fun srv_start_ports ::
  "bool \<Rightarrow> ('p, 't) port_config list \<Rightarrow> ('p, 't) tcp_server \<Rightarrow> srv_error option \<times> ('p, 't) tcp_server" where
  "srv_start_ports is_tls [] S = (None, S)"
| "srv_start_ports is_tls (pc # pcs) S =
     (if is_tls \<and> cfg_tls_provider pc = None then (Some TlsProviderRequired, S)
      else srv_start_ports is_tls pcs (srv_start_port pc S))"

definition srv_Start :: "bool \<Rightarrow> ('p, 't) tcp_server \<Rightarrow> srv_error option \<times> ('p, 't) tcp_server" where
  "srv_Start is_tls S = srv_start_ports is_tls (ports S) S"

definition srv_Stop ::
  "('m, address, 'w) ctl_env \<Rightarrow> bool \<Rightarrow> ('p, 't) tcp_server \<Rightarrow> ('m, 'r, 'x, address, 'w) controller \<Rightarrow>
   ('p, 't) tcp_server \<times> ('m, 'r, 'x, address, 'w) controller" where
  "srv_Stop env force S c =
     (let S1 = fold (\<lambda>kv. on_loop al_Stop (snd kv)) (acceptors S) S
      in (S1\<lparr>shutting_down := True\<rparr>, ctl_ShutdownAllSessions env force c))"

definition srv_EnableDrainingMode :: "bool \<Rightarrow> ('p, 't) tcp_server \<Rightarrow> ('p, 't) tcp_server" where
  "srv_EnableDrainingMode enable S =
     fold (\<lambda>kv. on_loop (al_EnableDraining enable) (snd kv)) (acceptors S) (S\<lparr>shutting_down := enable\<rparr>)"

lemmas srv_ops [vec_defs] =
  srv_new_def srv_AddPort_def on_loop_def srv_RemovePort_def srv_start_port_def srv_Start_def srv_Stop_def
  srv_EnableDrainingMode_def

subsection \<open>Runs\<close>

text \<open>
  The calls on the server and the events of its loops: completions, timers and sessions, on the loop
  at \<open>k\<close>.
\<close>

datatype ('p, 't, 'm, 'b) srv_event =
    SrvAddPort u16 "'p plugin_bundle" "'t option" nat bool
  | SrvRemovePort u16
  | SrvStart
  | SrvStop bool
  | SrvDrain bool
  | SrvLoop nat "('m, 'b) al_event"

definition loop_internal :: "('m, 'b) al_event \<Rightarrow> bool" where
  "loop_internal ev = (case ev of AlStart \<Rightarrow> False | AlStop \<Rightarrow> False | AlDrain _ \<Rightarrow> False | _ \<Rightarrow> True)"

type_synonym ('f, 'm, 'b, 'p, 'e, 'r, 'x, 't) srv_state =
  "('p, 't) tcp_server \<times> ('f, 'm, 'b, 'p, 'e, 'r, 'x) accept_world"

fun srv_exec ::
  "('f, 'm, 'b, 'p, 'i, 'e) al_env \<Rightarrow> bool \<Rightarrow> ('p, 't, 'm, 'b) srv_event \<Rightarrow>
   ('f, 'm, 'b, 'p, 'e, 'r, 'x, 't) srv_state \<Rightarrow> ctl_fault + ('f, 'm, 'b, 'p, 'e, 'r, 'x, 't) srv_state" where
  "srv_exec env is_tls (SrvAddPort port bundle provider timeout delayed) (S, W) =
     Inr (srv_AddPort port bundle provider timeout delayed S, W)"
| "srv_exec env is_tls (SrvRemovePort port) (S, W) = Inr (srv_RemovePort port S, W)"
| "srv_exec env is_tls SrvStart (S, W) = Inr (snd (srv_Start is_tls S), W)"
| "srv_exec env is_tls (SrvStop force) (S, W) =
     (let (S', c) = srv_Stop (al_ctl env) force S (ctl W) in Inr (S', W\<lparr>ctl := c\<rparr>))"
| "srv_exec env is_tls (SrvDrain enable) (S, W) = Inr (srv_EnableDrainingMode enable S, W)"
| "srv_exec env is_tls (SrvLoop k ev) (S, W) =
     (if k < length (loops S) \<and> loop_internal ev then
        (case al_exec env ev (loops S ! k, W) of
           Inl fault \<Rightarrow> Inl fault
         | Inr (L, W') \<Rightarrow> Inr (S\<lparr>loops := (loops S)[k := L]\<rparr>, W'))
      else Inr (S, W))"

inductive srv_step ::
  "('f, 'm, 'b, 'p, 'i, 'e) al_env \<Rightarrow> bool \<Rightarrow>
   (('p, 't, 'm, 'b) srv_event \<Rightarrow> ('f, 'm, 'b, 'p, 'e, 'r, 'x, 't) srv_state \<Rightarrow> bool) \<Rightarrow>
   ('f, 'm, 'b, 'p, 'e, 'r, 'x, 't) srv_state \<Rightarrow> ('f, 'm, 'b, 'p, 'e, 'r, 'x, 't) srv_state \<Rightarrow> bool"
  for env :: "('f, 'm, 'b, 'p, 'i, 'e) al_env" and is_tls :: bool
    and may :: "('p, 't, 'm, 'b) srv_event \<Rightarrow> ('f, 'm, 'b, 'p, 'e, 'r, 'x, 't) srv_state \<Rightarrow> bool" where
  "may ev s \<Longrightarrow> srv_exec env is_tls ev s = Inr t \<Longrightarrow> srv_step env is_tls may s t"

inductive_cases srv_stepE [elim!]: "srv_step env is_tls may s t"

fun srv_run ::
  "('f, 'm, 'b, 'p, 'i, 'e) al_env \<Rightarrow> bool \<Rightarrow> ('p, 't, 'm, 'b) srv_event list \<Rightarrow>
   ('f, 'm, 'b, 'p, 'e, 'r, 'x, 't) srv_state \<Rightarrow> ctl_fault + ('f, 'm, 'b, 'p, 'e, 'r, 'x, 't) srv_state" where
  "srv_run env is_tls [] s = Inr s"
| "srv_run env is_tls (ev # evs) s =
     (case srv_exec env is_tls ev s of Inl fault \<Rightarrow> Inl fault | Inr t \<Rightarrow> srv_run env is_tls evs t)"

subsection \<open>Which loops run\<close>

lemma al_stopped_ops [simp]:
  "al_stopped (al_Stop L)" "al_stopped (al_EnableDraining b L) = al_stopped L"
  "\<not> al_stopped (fresh_loop down pc)"
  by (simp_all add: al_ops fresh_loop_def Let_def)

lemma fold_on_loop_simps [simp]:
  "length (loops (fold (\<lambda>kv. on_loop f (snd kv)) m S)) = length (loops S)"
  "acceptors (fold (\<lambda>kv. on_loop f (snd kv)) m S) = acceptors S"
  "ports (fold (\<lambda>kv. on_loop f (snd kv)) m S) = ports S"
  "shutting_down (fold (\<lambda>kv. on_loop f (snd kv)) m S) = shutting_down S"
  by (induction m arbitrary: S) (simp_all add: on_loop_def)

lemma nth_update_at: "k < length xs \<Longrightarrow> xs[j := x] ! k = (if j = k then x else xs ! k)"
  by (cases "j = k") simp_all

lemma fold_al_Stop:
  "k < length (loops S) \<Longrightarrow>
     al_stopped (loops (fold (\<lambda>kv. on_loop al_Stop (snd kv)) m S) ! k) \<longleftrightarrow>
     al_stopped (loops S ! k) \<or> k \<in> snd ` set m"
  by (induction m arbitrary: S) (auto simp: on_loop_def nth_update_at split: if_splits)

lemma fold_al_EnableDraining:
  "k < length (loops S) \<Longrightarrow>
     al_stopped (loops (fold (\<lambda>kv. on_loop (al_EnableDraining b) (snd kv)) m S) ! k) = al_stopped (loops S ! k)"
  by (induction m arbitrary: S) (auto simp: on_loop_def nth_update_at)

text \<open>Every loop that runs is the loop of some port.\<close>

definition srv_tracked :: "('p, 't) tcp_server \<Rightarrow> bool" where
  "srv_tracked S \<longleftrightarrow>
     hm_wf (acceptors S) \<and>
     (\<forall>port k. hm_find (acceptors S) port = Some k \<longrightarrow> k < length (loops S)) \<and>
     (\<forall>k < length (loops S). al_stopped (loops S ! k) \<or> (\<exists>port. hm_find (acceptors S) port = Some k))"

text \<open>A start that finds none of the ports in use.\<close>

definition ports_free :: "('p, 't) port_config list \<Rightarrow> ('p, 't) tcp_server \<Rightarrow> bool" where
  "ports_free pcs S \<longleftrightarrow>
     distinct (map cfg_port pcs) \<and>
     list_all (\<lambda>pc. case hm_find (acceptors S) (cfg_port pc) of None \<Rightarrow> True | Some k \<Rightarrow> al_stopped (loops S ! k)) pcs"

lemma tracked_start_port:
  assumes "srv_tracked S" and "ports_free (pc # pcs) S"
  shows "srv_tracked (srv_start_port pc S)" and "ports_free pcs (srv_start_port pc S)"
proof -
  have lt: "k < length (loops S)" if "hm_find (acceptors S) port = Some k" for port k
    using assms(1) that by (simp add: srv_tracked_def)
  have kept: "\<exists>port. port \<noteq> cfg_port pc \<and> hm_find (acceptors S) port = Some k"
    if k: "k < length (loops S)" and run: "\<not> al_stopped (loops S ! k)" for k
  proof -
    from assms(1) k run obtain port where "hm_find (acceptors S) port = Some k" by (auto simp: srv_tracked_def)
    moreover from this run assms(2) have "port \<noteq> cfg_port pc" by (auto simp: ports_free_def)
    ultimately show ?thesis by blast
  qed
  have "al_stopped (loops (srv_start_port pc S) ! k) \<or> (\<exists>port. hm_find (acceptors (srv_start_port pc S)) port = Some k)"
    if "k < Suc (length (loops S))" for k
    using that kept [of k] by (cases "k = length (loops S)") (auto simp: srv_start_port_def nth_append)
  with assms(1) lt show "srv_tracked (srv_start_port pc S)"
    by (auto simp: srv_tracked_def srv_start_port_def intro: less_SucI)
  show "ports_free pcs (srv_start_port pc S)"
    using assms(2) lt
    by (auto simp: ports_free_def srv_start_port_def list_all_iff nth_append split: option.splits) (metis image_eqI)+
qed

lemma tracked_start_ports:
  "srv_tracked S \<Longrightarrow> ports_free pcs S \<Longrightarrow> srv_tracked (snd (srv_start_ports is_tls pcs S))"
  by (induction pcs arbitrary: S) (auto intro: tracked_start_port)

lemma tracked_remove:
  assumes "srv_tracked S"
  shows "srv_tracked (srv_RemovePort port S)"
proof (cases "hm_find (acceptors S) port")
  case None
  with assms show ?thesis by (simp add: srv_RemovePort_def srv_tracked_def)
next
  case (Some k)
  have "\<exists>q. q \<noteq> port \<and> hm_find (acceptors S) q = Some j"
    if "j < length (loops S)" "\<not> al_stopped ((loops S)[k := al_Stop (loops S ! k)] ! j)" for j
    using assms that Some by (auto simp: srv_tracked_def nth_list_update split: if_splits) (metis option.inject)
  then have "al_stopped (loops (srv_RemovePort port S) ! j) \<or> (\<exists>q. hm_find (acceptors (srv_RemovePort port S)) q = Some j)"
    if "j < length (loops S)" for j
    using that Some by (auto simp: srv_RemovePort_def on_loop_def Let_def)
  with assms Some show ?thesis
    by (auto simp: srv_tracked_def srv_RemovePort_def on_loop_def Let_def split: if_splits)
qed

lemma al_exec_internal:
  assumes "al_exec env ev (L, W) = Inr (L', W')" and "loop_internal ev"
  shows "al_stopped L' = al_stopped L"
proof (cases ev)
  case (AlHandle i)
  with assms show ?thesis
    by (auto simp: al_on_accept_def Let_def split: if_splits option.splits accept_result.splits sum.splits
        dest!: al_CreateSession_loop)
qed (use assms in \<open>auto simp: loop_internal_def al_ops split: if_splits\<close>)

definition srv_init :: "('f, 'm, 'b, 'p, 'e, 'r, 'x, 't) srv_state \<Rightarrow> bool" where
  "srv_init s \<longleftrightarrow>
     fst s = srv_new \<and> id_seq (snd s) = 1 \<and> next_obj (snd s) = 0 \<and> sessions (ctl_sessions (ctl (snd s))) = []"

text \<open>Runs in which \<^verbatim>\<open>Start\<close> is only called when the configured ports are not in use.\<close>

definition start_free :: "('p, 't, 'm, 'b) srv_event \<Rightarrow> ('f, 'm, 'b, 'p, 'e, 'r, 'x, 't) srv_state \<Rightarrow> bool" where
  "start_free ev s \<longleftrightarrow> (ev = SrvStart \<longrightarrow> ports_free (ports (fst s)) (fst s))"

lemma tracked_exec:
  assumes "srv_tracked S" and "start_free ev (S, W)" and "srv_exec env is_tls ev (S, W) = Inr (S', W')"
  shows "srv_tracked S'"
proof (cases ev)
  case (SrvAddPort port plugins provider timeout delayed)
  with assms show ?thesis by (auto simp: srv_AddPort_def srv_tracked_def)
next
  case (SrvRemovePort port)
  with assms show ?thesis by (auto intro: tracked_remove)
next
  case SrvStart
  with assms show ?thesis by (auto simp: start_free_def srv_Start_def intro: tracked_start_ports)
next
  case (SrvStop force)
  with assms show ?thesis
    by (auto simp: srv_Stop_def Let_def fold_al_Stop srv_tracked_def)
next
  case (SrvDrain enable)
  with assms show ?thesis
    by (auto simp: srv_EnableDrainingMode_def srv_tracked_def fold_al_EnableDraining)
next
  case (SrvLoop k e)
  show ?thesis
  proof (cases "S' = S")
    case False
    with SrvLoop assms(3) obtain L where "S' = S\<lparr>loops := (loops S)[k := L]\<rparr>" "al_stopped L = al_stopped (loops S ! k)"
      by (auto split: if_splits sum.splits dest: al_exec_internal)
    with assms(1) show ?thesis by (simp add: srv_tracked_def nth_update_at)
  qed (use assms(1) in simp)
qed

interpretation loops_tracked: inductive_invariant srv_init "srv_step env is_tls start_free" "\<lambda>s. srv_tracked (fst s)"
proof (unfold_locales, goal_cases)
  case (1 s)
  then show ?case by (simp add: srv_init_def srv_tracked_def srv_new_def)
next
  case (2 s t)
  then show ?case by (cases s; cases t) (auto intro: tracked_exec)
qed

lemma srv_Stop_all:
  assumes "srv_tracked S" and "L \<in> set (loops (fst (srv_Stop env force S c)))"
  shows "al_stopped L"
proof -
  let ?S = "fold (\<lambda>kv. on_loop al_Stop (snd kv)) (acceptors S) S"
  from assms(2) obtain k where k: "k < length (loops S)" "L = loops ?S ! k"
    by (auto simp: srv_Stop_def Let_def in_set_conv_nth)
  moreover have "al_stopped (loops S ! k) \<or> k \<in> snd ` set (acceptors S)"
    using assms(1) k(1) by (auto simp: srv_tracked_def hm_find_Some_iff) (metis image_eqI snd_conv)
  ultimately show ?thesis by (simp add: fold_al_Stop)
qed

subsection \<open>Sessions of all ports\<close>

lemma ended_ops [simp]:
  "shutdown_in_progress (ses_emit effs s) = shutdown_in_progress s"
  "shutdown_in_progress s \<Longrightarrow> shutdown_in_progress (ses_Close force s)"
  "shutdown_in_progress s \<Longrightarrow> shutdown_in_progress (ses_Shutdown s)"
  "shutdown_in_progress s \<Longrightarrow> shutdown_in_progress (ses_WriteNext s)"
  "shutdown_in_progress s \<Longrightarrow> ses_StartRead env s = s"
  by (simp_all add: ses_ops Let_def split: list.splits)

lemma ended_event [simp]: "shutdown_in_progress s \<Longrightarrow> shutdown_in_progress (ses_event env ev s)"
  by (cases ev)
    (simp_all add: ses_event_def ses_AsyncSend_def ses_on_read_def ses_on_written_def ses_on_timer_def Let_def
      split: option.splits sum.splits prod.splits)

lemma ses_id_Close [simp]: "ses_id (ses_Close force s) = ses_id s"
  using ses_identity_ops(3) [of force s] by (simp add: ses_identity_def)

text \<open>
  \<^verbatim>\<open>SessionManager::Drain\<close>, which the controller calls, is the registry's \<^verbatim>\<open>Close\<close> on the session store.
\<close>

definition drain_is_close :: "('f, 'm, 'b, 'p, 'i, 'e) al_env \<Rightarrow> bool" where
  "drain_is_close env \<longleftrightarrow> manager_Drain (al_ctl env) = sm_Close store_Close"

text \<open>
  Sessions of all loops together: ids count up, only sessions under their own ids are registered, and a
  session that is not registered has ended.
\<close>

definition srv_ids :: "('f, 'm, 'b, 'p, 'e, 'r, 'x) accept_world \<Rightarrow> bool" where
  "srv_ids W \<longleftrightarrow>
     (Suc (next_obj W) < 2 ^ 64 \<longrightarrow>
        id_seq W = of_nat (Suc (next_obj W)) \<and>
        (\<forall>i v. (i, v) \<in> set (sessions (ctl_sessions (ctl W))) \<longrightarrow> (\<exists>p < next_obj W. i = of_nat (Suc p) \<and> v = Some p)) \<and>
        (\<forall>p < next_obj W. ses_id (ctl_world (ctl W) p) = of_nat (Suc p) \<and>
           ((of_nat (Suc p), Some p) \<in> set (sessions (ctl_sessions (ctl W))) \<or>
            shutdown_in_progress (ctl_world (ctl W) p))))"

lemma srv_ids_session: "srv_ids W \<Longrightarrow> srv_ids (world_session env p ev W)"
  by (auto simp: srv_ids_def world_session_def)

lemma srv_ids_create:
  assumes "srv_ids W" and "channel_is_separate env" and "al_CreateSession env remote L W = Inr (L', W')"
  shows "srv_ids W'"
proof -
  have n: "0 < num_channels (ctl W)" by (rule al_CreateSession_InrD [OF assms(3)])
  have "map_of (sessions (ctl_sessions (ctl W))) (of_nat (Suc (next_obj W))) = None"
    if "Suc (Suc (next_obj W)) < 2 ^ 64"
  proof -
    have "(of_nat (Suc (next_obj W)) :: u64) \<noteq> of_nat (Suc p)" if "p < next_obj W" for p
      using that \<open>Suc (Suc (next_obj W)) < 2 ^ 64\<close> by (subst of_nat_u64_inj) auto
    with assms(1) that have "(of_nat (Suc (next_obj W)), v) \<notin> set (sessions (ctl_sessions (ctl W)))" for v
      by (auto simp: srv_ids_def simp del: of_nat_Suc) blast
    then show ?thesis by (auto simp: map_of_eq_None_iff simp del: of_nat_Suc)
  qed
  moreover have "(of_nat (Suc (next_obj W)) :: u64) + 1 = of_nat (Suc (Suc (next_obj W)))" by simp
  ultimately show ?thesis
    using assms n
    by (auto simp: srv_ids_def al_CreateSession_ok channel_is_separate_def sm_Add_def hm_emplace_def less_Suc_eq
        simp del: of_nat_Suc) blast+
qed

lemma srv_ids_al:
  assumes "srv_ids W" and "channel_is_separate env" and "al_exec env ev (L, W) = Inr (L', W')"
  shows "srv_ids W'"
proof (cases ev)
  case (AlHandle i)
  with assms show ?thesis
    by (auto simp: al_on_accept_def Let_def intro: srv_ids_create
        split: if_splits option.splits accept_result.splits sum.splits)
next
  case (AlSession p e)
  with assms show ?thesis by (auto split: if_splits intro: srv_ids_session)
qed (use assms in \<open>auto split: if_splits\<close>)

lemma ctl_Shutdown_registry:
  assumes "drain_is_close env"
  shows "ctl_sessions (ctl_ShutdownAllSessions (al_ctl env) force c) = (if force then sm_new else ctl_sessions c)"
    and "ctl_world (ctl_ShutdownAllSessions (al_ctl env) force c) p =
      (if Some p \<in> snd ` set (sessions (ctl_sessions c)) then ses_Close force (ctl_world c p) else ctl_world c p)"
proof -
  have "ctl_sessions (ctl_ShutdownAllSessions (al_ctl env) force c) = fst (sm_Close store_Close force (ctl_sessions c) (ctl_world c))"
    and "ctl_world (ctl_ShutdownAllSessions (al_ctl env) force c) = snd (sm_Close store_Close force (ctl_sessions c) (ctl_world c))"
    using assms by (simp_all add: ctl_ShutdownAllSessions_def drain_is_close_def Let_def split: prod.splits)
  then show "ctl_sessions (ctl_ShutdownAllSessions (al_ctl env) force c) = (if force then sm_new else ctl_sessions c)"
    and "ctl_world (ctl_ShutdownAllSessions (al_ctl env) force c) p =
      (if Some p \<in> snd ` set (sessions (ctl_sessions c)) then ses_Close force (ctl_world c p) else ctl_world c p)"
    by (simp_all only: session_registry.close_all) (simp add: sm_ops)
qed

lemma srv_ids_shutdown:
  assumes "srv_ids W" and "drain_is_close env"
  shows "srv_ids (W\<lparr>ctl := ctl_ShutdownAllSessions (al_ctl env) force (ctl W)\<rparr>)"
  using assms
  by (auto simp: srv_ids_def ctl_Shutdown_registry sm_new_def ses_Close_force_ends image_iff Bex_def)

interpretation session_numbering:
  inductive_invariant "\<lambda>s. srv_init s \<and> channel_is_separate env \<and> drain_is_close env" "srv_step env is_tls may"
    "\<lambda>s. srv_ids (snd s) \<and> channel_is_separate env \<and> drain_is_close env"
proof (unfold_locales, goal_cases)
  case (1 s)
  then show ?case by (simp add: srv_init_def srv_ids_def)
next
  case (2 s t)
  then obtain ev S W where s: "s = (S, W)" and ev: "srv_exec env is_tls ev (S, W) = Inr t" by (cases s) auto
  show ?case
  proof (cases ev)
    case (SrvStop force)
    with 2 s ev show ?thesis by (auto simp: srv_Stop_def Let_def intro: srv_ids_shutdown)
  next
    case (SrvLoop k e)
    with 2 s ev show ?thesis by (auto split: if_splits sum.splits intro: srv_ids_al)
  qed (use 2 s ev in auto)
qed

text \<open>Looking up the id of a session finds that session, or nothing when it has ended.\<close>

lemma srv_ids_lookup:
  assumes "srv_ids W" and "Suc (next_obj W) < 2 ^ 64" and "p < next_obj W"
  shows "case sm_Get (ses_id (ctl_world (ctl W) p)) (ctl_sessions (ctl W)) of
      Some r \<Rightarrow> r = p
    | None \<Rightarrow> shutdown_in_progress (ctl_world (ctl W) p)"
proof -
  let ?id = "of_nat (Suc p) :: u64" and ?m = "sessions (ctl_sessions (ctl W))"
  have id: "ses_id (ctl_world (ctl W) p) = ?id"
    and reg: "(?id, Some p) \<in> set ?m \<or> shutdown_in_progress (ctl_world (ctl W) p)"
    using assms by (simp_all add: srv_ids_def del: of_nat_Suc)
  have own: "v = Some p" if "(?id, v) \<in> set ?m" for v
  proof -
    from assms(1,2) that obtain q where "q < next_obj W" "?id = of_nat (Suc q)" "v = Some q"
      unfolding srv_ids_def by blast
    with assms(2,3) of_nat_u64_inj [of "Suc p" "Suc q"] show ?thesis by (simp del: of_nat_Suc)
  qed
  show ?thesis
  proof (cases "hm_find ?m ?id")
    case None
    then have "(?id, Some p) \<notin> set ?m" by (auto simp: hm_find_None_iff image_iff simp del: of_nat_Suc)
    with reg id None show ?thesis by (simp add: sm_Get_def del: of_nat_Suc)
  next
    case (Some v)
    then have "v = Some p" by (intro own) (simp add: hm_find_def map_of_SomeD del: of_nat_Suc)
    with id Some show ?thesis by (simp add: sm_Get_def del: of_nat_Suc)
  qed
qed

subsection \<open>After Stop\<close>

definition srv_quiet :: "nat \<Rightarrow> ('f, 'm, 'b, 'p, 'e, 'r, 'x, 't) srv_state \<Rightarrow> bool" where
  "srv_quiet n s \<longleftrightarrow>
     list_all al_stopped (loops (fst s)) \<and> next_obj (snd s) = n \<and>
     list_all (\<lambda>p. shutdown_in_progress (ctl_world (ctl (snd s)) p)) [0..<n]"

lemma al_exec_stopped:
  assumes "al_exec env ev (L, W) = Inr (L', W')" and "al_stopped L"
  shows "W' = W \<or> (\<exists>p e. W' = world_session env p e W)"
proof (cases ev)
  case (AlHandle i)
  with assms show ?thesis by (auto simp: al_on_accept_def Let_def split: if_splits option.splits)
qed (use assms in \<open>auto split: if_splits\<close>)

lemma srv_quiet_session: "srv_quiet n (S, W) \<Longrightarrow> srv_quiet n (S, world_session env p e W)"
  by (auto simp: srv_quiet_def world_session_def list_all_iff)

lemma srv_quiet_exec:
  assumes "srv_quiet n (S, W)" and "drain_is_close env" and "ev \<noteq> SrvStart"
    and "srv_exec env is_tls ev (S, W) = Inr (S', W')"
  shows "srv_quiet n (S', W')"
proof (cases ev)
  case (SrvLoop k e)
  show ?thesis
  proof (cases "k < length (loops S) \<and> loop_internal e")
    case True
    with SrvLoop assms(4) obtain L where L: "S' = S\<lparr>loops := (loops S)[k := L]\<rparr>" "al_exec env e (loops S ! k, W) = Inr (L, W')"
      by (auto split: sum.splits)
    have "al_stopped (loops S ! k)" using assms(1) True by (auto simp: srv_quiet_def list_all_length)
    with al_exec_stopped [OF L(2)] al_exec_internal [OF L(2)] True
    have "al_stopped L" and W': "W' = W \<or> (\<exists>p e. W' = world_session env p e W)" by auto
    with assms(1) L have "srv_quiet n (S', W)" by (simp add: srv_quiet_def list_all_update)
    with W' show ?thesis by (auto intro: srv_quiet_session)
  qed (use assms SrvLoop in auto)
next
  case (SrvStop force)
  with assms show ?thesis
    by (auto simp: srv_quiet_def srv_Stop_def Let_def ctl_Shutdown_registry list_all_length fold_al_Stop)
next
  case (SrvRemovePort port)
  with assms show ?thesis
    by (auto simp: srv_quiet_def srv_RemovePort_def on_loop_def Let_def list_all_update split: option.splits)
qed (use assms in \<open>auto simp: srv_quiet_def srv_AddPort_def srv_EnableDrainingMode_def list_all_length fold_al_EnableDraining\<close>)

interpretation after_stop:
  inductive_invariant "\<lambda>s. srv_quiet n s \<and> drain_is_close env" "srv_step env is_tls (\<lambda>ev s. ev \<noteq> SrvStart)"
    "\<lambda>s. srv_quiet n s \<and> drain_is_close env"
proof (unfold_locales, goal_cases)
  case (2 s t)
  then show ?case by (cases s; cases t) (auto intro: srv_quiet_exec)
qed

subsection \<open>Starting\<close>

definition tls_ready :: "bool \<Rightarrow> ('p, 't) port_config \<Rightarrow> bool" where
  "tls_ready is_tls pc \<longleftrightarrow> \<not> is_tls \<or> cfg_tls_provider pc \<noteq> None"

lemma srv_start_ports_eq:
  "srv_start_ports is_tls pcs S =
     (if list_all (tls_ready is_tls) pcs then None else Some TlsProviderRequired,
      fold srv_start_port (takeWhile (tls_ready is_tls) pcs) S)"
  by (induction pcs arbitrary: S) (auto simp: tls_ready_def)

lemma fold_start_simps [simp]:
  "shutting_down (fold srv_start_port pcs S) = shutting_down S"
  "ports (fold srv_start_port pcs S) = ports S"
  "loops (fold srv_start_port pcs S) = loops S @ map (fresh_loop (shutting_down S)) pcs"
  by (induction pcs arbitrary: S) (simp_all add: srv_start_port_def)

lemma fold_start_other:
  "port \<notin> cfg_port ` set pcs \<Longrightarrow> hm_find (acceptors (fold srv_start_port pcs S)) port = hm_find (acceptors S) port"
  by (induction pcs arbitrary: S) (simp_all add: srv_start_port_def)

lemma fold_start_acceptor:
  "j < length pcs \<Longrightarrow>
     \<exists>k. j \<le> k \<and> k < length pcs \<and> cfg_port (pcs ! k) = cfg_port (pcs ! j) \<and>
       hm_find (acceptors (fold srv_start_port pcs S)) (cfg_port (pcs ! j)) = Some (length (loops S) + k)"
proof (induction pcs arbitrary: j S)
  case (Cons pc pcs)
  show ?case
  proof (cases "\<exists>i. i < length pcs \<and> j \<le> Suc i \<and> cfg_port (pcs ! i) = cfg_port ((pc # pcs) ! j)")
    case True
    then obtain i where i: "i < length pcs" "j \<le> Suc i" "cfg_port (pcs ! i) = cfg_port ((pc # pcs) ! j)" by blast
    have "length (loops (srv_start_port pc S)) = Suc (length (loops S))" by (simp add: srv_start_port_def)
    with Cons.IH [OF i(1), of "srv_start_port pc S"] obtain k where
      "i \<le> k" "k < length pcs" "cfg_port (pcs ! k) = cfg_port (pcs ! i)"
      "hm_find (acceptors (fold srv_start_port pcs (srv_start_port pc S))) (cfg_port (pcs ! i)) = Some (Suc (length (loops S)) + k)"
      by auto
    with i show ?thesis by (intro exI [of _ "Suc k"]) auto
  next
    case False
    with Cons.prems have "j = 0" by (cases j) auto
    with False have "cfg_port pc \<notin> cfg_port ` set pcs" by (auto simp: in_set_conv_nth)
    with \<open>j = 0\<close> show ?thesis by (intro exI [of _ 0]) (simp add: fold_start_other, simp add: srv_start_port_def)
  qed
qed simp

lemma fresh_loop_simps [simp]:
  "acceptor_port (fresh_loop down pc) = cfg_port pc" "al_draining (fresh_loop down pc) = down"
  "length (accepts_out (fresh_loop down pc)) = 1"
  by (simp_all add: fresh_loop_def al_ops Let_def)

lemma ctl_Shutdown_channels [simp]: "num_channels (ctl_ShutdownAllSessions env force c) = num_channels c"
  by (simp add: ctl_ShutdownAllSessions_def Let_def split: prod.splits)

subsection \<open>Properties\<close>


lemma demo_srv_init: "srv_init (srv_new, demo_world) \<and> channel_is_separate demo_al_env \<and> drain_is_close demo_al_env"
  by (simp add: srv_init_def demo_world_def ctl_new_def sm_new_def drain_is_close_def demo_al_env_def)
    (simp add: channel_is_separate_def)

definition demo_srv :: "(unit, string, string, unit, string, unit, unit, unit) srv_state" where
  "demo_srv =
     (case srv_run demo_al_env False
        [SrvAddPort 80 [] None 10 False, SrvStart, SrvLoop 0 (AlArrive 0 (Accepted (Some (''10.0.0.1'', 4242)))), SrvLoop 0 (AlHandle 0)]
        (srv_new, demo_world) of
        Inr s \<Rightarrow> s | Inl _ \<Rightarrow> (srv_new, demo_world))"

lemma srv_run_reachable:
  "reachable I (srv_step env is_tls may) s \<Longrightarrow> srv_run env is_tls evs s = Inr t \<Longrightarrow>
     list_all (\<lambda>ev. \<forall>s. may ev s) evs \<Longrightarrow> reachable I (srv_step env is_tls may) t"
proof (induction evs arbitrary: s)
  case (Cons ev evs)
  then obtain u where "srv_exec env is_tls ev s = Inr u" "srv_run env is_tls evs u = Inr t" by (auto split: sum.splits)
  moreover from this Cons.prems have "reachable I (srv_step env is_tls may) u"
    by (intro reachable_step [OF Cons.prems(1)] srv_step.intros [of _ ev]) (cases s; simp)+
  ultimately show ?case using Cons by simp
qed simp

lemmas demo_srv_defs = srv_ops fresh_loop_def al_ops al_on_accept_def al_admits_def al_CreateSession_ok
  loop_internal_def Let_def

definition demo_listening :: "(unit, unit) tcp_server" where
  "demo_listening = snd (srv_Start False (srv_AddPort 80 [] None 10 False srv_new))"

lemma demo_srv_reachable:
  "reachable (\<lambda>s. srv_init s \<and> channel_is_separate demo_al_env \<and> drain_is_close demo_al_env)
     (srv_step demo_al_env False start_free) demo_srv"
proof -
  let ?R = "reachable (\<lambda>s. srv_init s \<and> channel_is_separate demo_al_env \<and> drain_is_close demo_al_env)
     (srv_step demo_al_env False start_free)"
  have "?R (srv_new, demo_world)" by (rule reachable_init) (rule demo_srv_init)
  then have "?R (srv_AddPort 80 [] None 10 False srv_new, demo_world)"
    by (rule srv_run_reachable [of _ _ _ _ _ "[SrvAddPort 80 [] None 10 False]"]) (simp_all add: start_free_def)
  moreover have "srv_step demo_al_env False start_free (srv_AddPort 80 [] None 10 False srv_new, demo_world)
      (demo_listening, demo_world)"
    by (rule srv_step.intros [of _ SrvStart]) (simp_all add: start_free_def ports_free_def srv_ops demo_listening_def)
  ultimately have "?R (demo_listening, demo_world)" by (rule reachable_step)
  then show ?thesis
    by (rule srv_run_reachable [of _ _ _ _ _ "[SrvLoop 0 (AlArrive 0 (Accepted (Some (''10.0.0.1'', 4242)))), SrvLoop 0 (AlHandle 0)]"])
      (simp_all add: start_free_def demo_srv_def demo_listening_def demo_srv_defs)
qed

lemma demo_srv_reachable_pair:
  "reachable (\<lambda>s. srv_init s \<and> channel_is_separate demo_al_env \<and> drain_is_close demo_al_env)
     (srv_step demo_al_env False start_free) (fst demo_srv, snd demo_srv)"
  using demo_srv_reachable by simp

lemma demo_srv_one: "next_obj (snd demo_srv) = 1"
  by (simp add: demo_srv_def demo_srv_defs)


text \<open>
  C23. Session ids are unique across all ports of a server, and the registry never confuses its sessions: until the 64-bit
  counter wraps, two sessions with the same id are the same object, whichever ports they came from,
  and a lookup of a session's id finds that session, unless it has ended and is no longer registered.
\<close>

theorem srv_unique_ids:
  assumes "reachable (\<lambda>s. srv_init s \<and> channel_is_separate env \<and> drain_is_close env) (srv_step env is_tls may) (S, W)"
    and "Suc (next_obj W) < 2 ^ 64" and "p < next_obj W" and "q < next_obj W"
  shows "(ses_id (ctl_world (ctl W) p) = ses_id (ctl_world (ctl W) q) \<longleftrightarrow> p = q) \<and>
    (case sm_Get (ses_id (ctl_world (ctl W) p)) (ctl_sessions (ctl W)) of
       Some r \<Rightarrow> r = p
     | None \<Rightarrow> shutdown_in_progress (ctl_world (ctl W) p))"
proof -
  have ids: "srv_ids W" using session_numbering.reachable_inv [OF assms(1)] by simp
  then have "ses_id (ctl_world (ctl W) i) = of_nat (Suc i)" if "i < next_obj W" for i
    using assms(2) that by (simp add: srv_ids_def)
  then show ?thesis
    using srv_ids_lookup [OF ids assms(2,3)] of_nat_u64_inj [of "Suc p" "Suc q"] assms(2-4)
    by (simp del: of_nat_Suc)
qed

theorem srv_unique_ids_witness:
  "case sm_Get (ses_id (ctl_world (ctl (snd demo_srv)) 0)) (ctl_sessions (ctl (snd demo_srv))) of
     Some r \<Rightarrow> r = 0 | None \<Rightarrow> shutdown_in_progress (ctl_world (ctl (snd demo_srv)) 0)"
  using srv_unique_ids [OF demo_srv_reachable_pair, of 0 0] by (simp add: demo_srv_one)

text \<open>
  What \<^verbatim>\<open>Start\<close> does. It starts the configured ports in order up to the first that lacks the TLS
  provider its stream needs, where it throws and leaves the later ones unstarted; each port started has
  a new loop with one accept outstanding, in draining mode iff the server is shutting down, and
  \<^verbatim>\<open>acceptors_\<close> leads from the port to a new loop on that port.
\<close>

theorem srv_Start_outcome:
  assumes "srv_Start is_tls S = (err, S')" and "good = takeWhile (tls_ready is_tls) (ports S)"
  shows "err = (if good = ports S then None else Some TlsProviderRequired) \<and>
    loops S' = loops S @ map (fresh_loop (shutting_down S)) good \<and>
    list_all (\<lambda>L. \<not> al_stopped L \<and> length (accepts_out L) = 1 \<and> al_draining L = shutting_down S) (drop (length (loops S)) (loops S')) \<and>
    list_all (\<lambda>pc. case hm_find (acceptors S') (cfg_port pc) of
        None \<Rightarrow> False
      | Some k \<Rightarrow> length (loops S) \<le> k \<and> k < length (loops S') \<and> acceptor_port (loops S' ! k) = cfg_port pc) good"
proof -
  have S': "S' = fold srv_start_port good S" and err: "err = (if list_all (tls_ready is_tls) (ports S) then None else Some TlsProviderRequired)"
    using assms by (simp_all add: srv_Start_def srv_start_ports_eq)
  have "good = ports S \<longleftrightarrow> list_all (tls_ready is_tls) (ports S)"
    using assms(2) by (simp add: takeWhile_eq_all_conv list_all_iff)
  moreover have "case hm_find (acceptors S') (cfg_port pc) of None \<Rightarrow> False
      | Some k \<Rightarrow> length (loops S) \<le> k \<and> k < length (loops S') \<and> acceptor_port (loops S' ! k) = cfg_port pc"
    if "pc \<in> set good" for pc
  proof -
    from that obtain j where "j < length good" "pc = good ! j" by (auto simp: in_set_conv_nth)
    with fold_start_acceptor [of j good S] S' show ?thesis by (auto simp: nth_append)
  qed
  ultimately show ?thesis using S' err by (auto simp: list_all_iff)
qed

theorem srv_Start_outcome_witness:
  "fst (srv_Start True (srv_AddPort 81 [] None 10 False (srv_AddPort 80 [] (Some ()) 10 False srv_new)) :: srv_error option \<times> (unit, unit) tcp_server)
     = Some TlsProviderRequired"
proof -
  let ?S = "srv_AddPort 81 [] None 10 False (srv_AddPort 80 [] (Some ()) 10 False srv_new) :: (unit, unit) tcp_server"
  have "srv_Start True ?S = (fst (srv_Start True ?S), snd (srv_Start True ?S))" by simp
  from srv_Start_outcome [OF this refl] show ?thesis by (simp add: srv_ops tls_ready_def)
qed

text \<open>
  A second \<^verbatim>\<open>Start\<close> orphans the running loop of a port: \<^verbatim>\<open>acceptors_[port] = loop\<close> drops the only
  pointer through which the server could stop it. After \<^verbatim>\<open>Start\<close>, \<^verbatim>\<open>Start\<close> and \<^verbatim>\<open>Stop\<close> the old loop
  still accepts, and the session it makes is running.
\<close>

theorem srv_second_start_orphans:
  assumes "0 < num_channels (ctl W)" and "channel_is_separate env"
  shows "\<exists>S' W'. srv_run env False
      [SrvAddPort port plugins None timeout delayed, SrvStart, SrvStart, SrvStop force,
       SrvLoop 0 (AlArrive 0 (Accepted (Some ep))), SrvLoop 0 (AlHandle 0)] (srv_new, W) = Inr (S', W') \<and>
    next_obj W' = Suc (next_obj W) \<and>
    ctl_world (ctl W') (next_obj W) = accepted_session env (id_seq W) ep (al_new port plugins None) \<and>
    \<not> shutdown_in_progress (ctl_world (ctl W') (next_obj W))"
  using assms
  by (simp add: demo_srv_defs hm_assign_def channel_is_separate_def accepted_session_def ses_Start_def ses_SetPluginBundle_def ses_new_def
      ses_StartRead_def ses_StartIdleTimer_def)

theorem srv_second_start_orphans_witness:
  "\<exists>S' W'. srv_run demo_al_env False
      [SrvAddPort 80 [] None 10 False, SrvStart, SrvStart, SrvStop True,
       SrvLoop 0 (AlArrive 0 (Accepted (Some (''10.0.0.1'', 4242)))), SrvLoop 0 (AlHandle 0)]
      (srv_new :: (unit, unit) tcp_server, demo_world) = Inr (S', W') \<and> next_obj W' = 1"
  using srv_second_start_orphans [of demo_world demo_al_env 80 "[]" 10 False True "(''10.0.0.1'', 4242)"]
  by auto

end
