(* ===== verification/Server_Example.thy ===== *)
theory Server_Example
  imports Tcp_Server
begin

text \<open>
  \<^verbatim>\<open>src/examples/tcp/server_main_example.h\<close>: the example program for the server, an echo server with a
  plaintext port and a TLS port on one controller. The example writes \<^verbatim>\<open>tcp::Server\<close> for the class the
  repository has as \<^verbatim>\<open>TcpServer\<close>, and gives both servers the controller of the plaintext sessions. The two servers are
  \<open>Tcp_Server\<close> models over one store of sessions. The id counter is a \<^verbatim>\<open>static\<close> of a member function of
  the template \<^verbatim>\<open>AcceptorLoop<Stream>\<close>, so each of the two stream types has its own: \<open>sx_ids\<close>, by whether
  the stream is a TLS stream.

  Each session's message handler calls \<^verbatim>\<open>RouteMessage\<close> on the controller. The disconnect handler calls
  \<^verbatim>\<open>UnregisterSession\<close>, which the controller does not have; it has no effect here. The handlers the example
  gives the controller are the hypothesis \<open>example_hooks\<close>. Events are what the I/O context runs; the
  program is over once it is stopped.
\<close>

subsection \<open>The program\<close>

record ('f, 'm, 'b, 'p, 'e, 'r, 'x, 't) server_example =
  sx_plain :: "('p, 't) tcp_server"
  sx_tls :: "('p, 't) tcp_server"
  sx_ids :: "bool \<Rightarrow> u64"
  sx_next :: address
  sx_ctl :: "('m, 'r, 'x, address, ('f, 'm, 'b, 'p, 'e) ses_store) controller"
  sx_io_stopped :: bool

text \<open>The hooks \<^verbatim>\<open>OnInbound\<close>, which returns true, and \<^verbatim>\<open>OnProcess\<close>.\<close>

definition example_hooks :: "('f, 'm, 'b, 'p, 'i, 'e) al_env \<Rightarrow> bool" where
  "example_hooks env \<longleftrightarrow> (\<forall>m. inbound_ok (al_ctl env) m \<and> \<not> process_throws (al_ctl env) m)"

text \<open>The controller: four channels, the router and the three hooks.\<close>

definition sx_controller ::
  "string \<times> tmp_config \<Rightarrow> 'w \<Rightarrow> ('m, 'r, 'x, 'q, 'w) controller" where
  "sx_controller chan w =
     (ctl_new 4 chan w)\<lparr>router := True, OnInbound := True, OnProcess := True, OnOutbound := True\<rparr>"

text \<open>
  \<^verbatim>\<open>EchoRouter::Route\<close>. The variable \<^verbatim>\<open>session\<close> it sends on is declared nowhere: it is the argument
  \<open>session\<close>. The members of the metadata are arguments too.
\<close>

definition EchoRouter_Route ::
  "('m, 'q, 'w) ctl_env \<Rightarrow> ('m \<Rightarrow> u64) \<Rightarrow> (u64 \<Rightarrow> 'm \<Rightarrow> 'm) \<Rightarrow> 'q \<Rightarrow> 'm \<Rightarrow>
   ('m, 'r, 'x, 'q, 'w) controller \<Rightarrow> ('m, 'r, 'x, 'q, 'w) controller" where
  "EchoRouter_Route env connection_id set_dest_session session msg c =
     (let session_id = connection_id msg;
          msg1 = set_dest_session session_id msg
      in c\<lparr>ctl_world := session_AsyncSend env session msg1 (ctl_world c)\<rparr>)"

text \<open>\<^verbatim>\<open>main\<close> up to \<^verbatim>\<open>io.run()\<close>: both servers, their ports, and \<^verbatim>\<open>Start\<close>; \<open>provider\<close> is the TLS provider.\<close>

definition sx_main ::
  "string \<times> tmp_config \<Rightarrow> 't \<Rightarrow> ('f, 'm, 'b, 'p, 'e) ses_store \<Rightarrow> ('f, 'm, 'b, 'p, 'e, 'r, 'x, 't) server_example" where
  "sx_main chan provider store =
     \<lparr>sx_plain = snd (srv_Start False (srv_AddPort 9000 [] None 10 False srv_new)),
      sx_tls = snd (srv_Start True (srv_AddPort 9443 [] (Some provider) 10 False srv_new)),
      sx_ids = (\<lambda>_. 1), sx_next = 0, sx_ctl = sx_controller chan store, sx_io_stopped = False\<rparr>"

text \<open>What a loop of the server of a stream type sees: the ids of its stream type, the rest shared.\<close>

definition sx_world ::
  "bool \<Rightarrow> ('f, 'm, 'b, 'p, 'e, 'r, 'x, 't) server_example \<Rightarrow> ('f, 'm, 'b, 'p, 'e, 'r, 'x) accept_world" where
  "sx_world is_tls E = \<lparr>id_seq = sx_ids E is_tls, next_obj = sx_next E, ctl = sx_ctl E\<rparr>"

text \<open>A completion of the \<open>k\<close>-th loop of a server.\<close>

definition sx_loop ::
  "('f, 'm, 'b, 'p, 'i, 'e) al_env \<Rightarrow> bool \<Rightarrow> nat \<Rightarrow> ('m, 'b) al_event \<Rightarrow>
   ('f, 'm, 'b, 'p, 'e, 'r, 'x, 't) server_example \<Rightarrow> ctl_fault + ('f, 'm, 'b, 'p, 'e, 'r, 'x, 't) server_example" where
  "sx_loop env is_tls k ev E =
     (case srv_exec env is_tls (SrvLoop k ev) (if is_tls then sx_tls E else sx_plain E, sx_world is_tls E) of
        Inl fault \<Rightarrow> Inl fault
      | Inr (S, W) \<Rightarrow>
          (let E1 = E\<lparr>sx_ids := (sx_ids E)(is_tls := id_seq W), sx_next := next_obj W, sx_ctl := ctl W\<rparr>
           in Inr (if is_tls then E1\<lparr>sx_tls := S\<rparr> else E1\<lparr>sx_plain := S\<rparr>)))"

text \<open>The messages a session hands to its message handler in one event.\<close>

fun delivered_in :: "('m, 'b, 'e) ses_effect list \<Rightarrow> 'm list" where
  "delivered_in [] = []"
| "delivered_in (Delivered m # effs) = m # delivered_in effs"
| "delivered_in (eff # effs) = delivered_in effs"

definition newly_delivered ::
  "('f, 'm, 'b, 'p, 'e) session \<Rightarrow> ('f, 'm, 'b, 'p, 'e) session \<Rightarrow> 'm list" where
  "newly_delivered s s' = delivered_in (drop (length (ses_log s)) (ses_log s'))"

text \<open>The message handler: \<^verbatim>\<open>ctl->RouteMessage(msg)\<close>, for each message.\<close>

fun route_all ::
  "('m, 'q, 'w) ctl_env \<Rightarrow> 'm list \<Rightarrow> ('m, 'r, 'x, 'q, 'w) controller \<Rightarrow> ctl_fault + ('m, 'r, 'x, 'q, 'w) controller" where
  "route_all env [] c = Inr c"
| "route_all env (m # ms) c = (case ctl_RouteMessage env m c of Inl fault \<Rightarrow> Inl fault | Inr c' \<Rightarrow> route_all env ms c')"

definition sx_session ::
  "('f, 'm, 'b, 'p, 'i, 'e) al_env \<Rightarrow> address \<Rightarrow> ('m, 'b) ses_event \<Rightarrow>
   ('f, 'm, 'b, 'p, 'e, 'r, 'x, 't) server_example \<Rightarrow> ctl_fault + ('f, 'm, 'b, 'p, 'e, 'r, 'x, 't) server_example" where
  "sx_session env p ev E =
     (if p < sx_next E then
        let c = sx_ctl E;
            s = ctl_world c p;
            s' = ses_event (al_ses env) ev s
        in case route_all (al_ctl env) (newly_delivered s s') (c\<lparr>ctl_world := (ctl_world c)(p := s')\<rparr>) of
             Inl fault \<Rightarrow> Inl fault
           | Inr c' \<Rightarrow> Inr (E\<lparr>sx_ctl := c'\<rparr>)
      else Inr E)"

text \<open>The signal handler.\<close>

definition sx_signal ::
  "('f, 'm, 'b, 'p, 'i, 'e) al_env \<Rightarrow> ('f, 'm, 'b, 'p, 'e, 'r, 'x, 't) server_example \<Rightarrow> ('f, 'm, 'b, 'p, 'e, 'r, 'x, 't) server_example" where
  "sx_signal env E =
     (let (S1, c1) = srv_Stop (al_ctl env) False (sx_plain E) (sx_ctl E);
          (S2, c2) = srv_Stop (al_ctl env) False (sx_tls E) c1
      in E\<lparr>sx_plain := S1, sx_tls := S2, sx_ctl := c2, sx_io_stopped := True\<rparr>)"

datatype ('m, 'b) sx_event =
    SxLoop bool nat "('m, 'b) al_event"
  | SxSession address "('m, 'b) ses_event"
  | SxSignal

fun sx_exec ::
  "('f, 'm, 'b, 'p, 'i, 'e) al_env \<Rightarrow> ('m, 'b) sx_event \<Rightarrow>
   ('f, 'm, 'b, 'p, 'e, 'r, 'x, 't) server_example \<Rightarrow> ctl_fault + ('f, 'm, 'b, 'p, 'e, 'r, 'x, 't) server_example" where
  "sx_exec env (SxLoop is_tls k ev) E = (case ev of AlSession p e \<Rightarrow> sx_session env p e E | _ \<Rightarrow> sx_loop env is_tls k ev E)"
| "sx_exec env (SxSession p ev) E = sx_session env p ev E"
| "sx_exec env SxSignal E = Inr (sx_signal env E)"

inductive sx_step ::
  "('f, 'm, 'b, 'p, 'i, 'e) al_env \<Rightarrow> ('f, 'm, 'b, 'p, 'e, 'r, 'x, 't) server_example \<Rightarrow>
   ('f, 'm, 'b, 'p, 'e, 'r, 'x, 't) server_example \<Rightarrow> bool"
  for env :: "('f, 'm, 'b, 'p, 'i, 'e) al_env" where
  "\<not> sx_io_stopped E \<Longrightarrow> sx_exec env ev E = Inr E' \<Longrightarrow> sx_step env E E'"

inductive_cases sx_stepE [elim!]: "sx_step env E E'"

fun sx_run ::
  "('f, 'm, 'b, 'p, 'i, 'e) al_env \<Rightarrow> ('m, 'b) sx_event list \<Rightarrow>
   ('f, 'm, 'b, 'p, 'e, 'r, 'x, 't) server_example \<Rightarrow> ctl_fault + ('f, 'm, 'b, 'p, 'e, 'r, 'x, 't) server_example" where
  "sx_run env [] E = Inr E"
| "sx_run env (ev # evs) E =
     (if sx_io_stopped E then Inr E
      else case sx_exec env ev E of Inl fault \<Rightarrow> Inl fault | Inr E' \<Rightarrow> sx_run env evs E')"

subsection \<open>What the events change\<close>

lemma al_exec_world:
  assumes "al_exec env ev (L, W) = Inr (L', W')" and "\<And>p e. ev \<noteq> AlSession p e"
  shows "W' = W \<or> (\<exists>remote L0 L1. al_CreateSession env remote L0 W = Inr (L1, W'))"
proof (cases ev)
  case (AlHandle i)
  with assms(1) show ?thesis
    by (auto simp: al_on_accept_def Let_def split: if_splits option.splits accept_result.splits sum.splits)
      (metis surj_pair)
qed (use assms in \<open>auto split: if_splits\<close>)

definition sx_core ::
  "('f, 'm, 'b, 'p, 'e, 'r, 'x, 't) server_example \<Rightarrow>
   (bool \<Rightarrow> u64) \<times> address \<times> ('m, 'r, 'x, address, ('f, 'm, 'b, 'p, 'e) ses_store) controller" where
  "sx_core E = (sx_ids E, sx_next E, sx_ctl E)"

text \<open>A loop's event leaves everything but its server alone, or makes one session.\<close>

lemma sx_loop_core:
  assumes "sx_loop env is_tls k ev E = Inr E'" and "\<And>p e. ev \<noteq> AlSession p e"
  shows "sx_core E' = sx_core E \<or>
    (\<exists>w l. sx_core E' = ((sx_ids E)(is_tls := sx_ids E is_tls + 1), Suc (sx_next E),
       (sx_ctl E)\<lparr>ctl_world := w, ctl_sessions := sm_Add (sx_ids E is_tls) (Some (sx_next E)) (ctl_sessions (sx_ctl E)),
                  ctl_log := l\<rparr>))"
proof -
  let ?S = "if is_tls then sx_tls E else sx_plain E" and ?W = "sx_world is_tls E"
  obtain S W where r: "srv_exec env is_tls (SrvLoop k ev) (?S, ?W) = Inr (S, W)"
    and E': "sx_core E' = ((sx_ids E)(is_tls := id_seq W), next_obj W, ctl W)"
    using assms(1) by (auto simp: sx_loop_def sx_core_def Let_def split: sum.splits prod.splits if_splits)
  have "W = ?W \<or> (\<exists>remote L0 L1. al_CreateSession env remote L0 ?W = Inr (L1, W))"
    using r assms(2) by (auto split: if_splits sum.splits dest!: al_exec_world)
  then show ?thesis
  proof
    assume "W = ?W"
    with E' show ?thesis by (simp add: sx_core_def sx_world_def)
  next
    assume "\<exists>remote L0 L1. al_CreateSession env remote L0 ?W = Inr (L1, W)"
    then obtain remote L0 L1 where c: "al_CreateSession env remote L0 ?W = Inr (L1, W)" by blast
    from al_CreateSession_ok [OF al_CreateSession_InrD [OF c], of env remote L0] c obtain w l where
      "W = \<lparr>id_seq = sx_ids E is_tls + 1, next_obj = Suc (sx_next E),
        ctl = (sx_ctl E)\<lparr>ctl_world := w, ctl_sessions := sm_Add (sx_ids E is_tls) (Some (sx_next E)) (ctl_sessions (sx_ctl E)),
                         ctl_log := l\<rparr>\<rparr>"
      by (simp add: sx_world_def) blast
    with E' have "sx_core E' = ((sx_ids E)(is_tls := sx_ids E is_tls + 1), Suc (sx_next E),
       (sx_ctl E)\<lparr>ctl_world := w, ctl_sessions := sm_Add (sx_ids E is_tls) (Some (sx_next E)) (ctl_sessions (sx_ctl E)),
                  ctl_log := l\<rparr>)" by simp
    then show ?thesis by blast
  qed
qed

lemma route_all_no_channels:
  assumes "example_hooks env" and "channels (inbound_manager c) = []"
  shows "route_all (al_ctl env) ms c = (if ms = [] then Inr c else Inl (ChannelFault NullChannel))"
  using assms
  by (cases ms) (simp_all add: example_hooks_def ctl_RouteMessage_def cm_Dispatch_def cm_GetChannel_def ctl_emit_def Let_def)

lemma sx_session_no_channels:
  assumes "example_hooks env" and "channels (inbound_manager (sx_ctl E)) = []" and "p < sx_next E"
  shows "sx_session env p ev E =
    (let c = sx_ctl E; s' = ses_event (al_ses env) ev (ctl_world c p)
     in if newly_delivered (ctl_world c p) s' = [] then Inr (E\<lparr>sx_ctl := c\<lparr>ctl_world := (ctl_world c)(p := s')\<rparr>\<rparr>)
        else Inl (ChannelFault NullChannel))"
  using assms by (simp add: sx_session_def route_all_no_channels Let_def)

subsection \<open>Invariants\<close>

text \<open>No channel is ever made, and nothing is ever routed or sent.\<close>

definition sx_mute :: "('f, 'm, 'b, 'p, 'e, 'r, 'x, 't) server_example \<Rightarrow> bool" where
  "sx_mute E \<longleftrightarrow> channels (inbound_manager (sx_ctl E)) = [] \<and> channels (outbound_manager (sx_ctl E)) = []"

text \<open>
  Both id counters start at one: after \<open>a\<close> plaintext and \<open>b\<close> TLS connections the ids in use, and in the
  registry, are those up to the larger of the two.
\<close>

definition sx_numbered :: "nat \<Rightarrow> nat \<Rightarrow> ('f, 'm, 'b, 'p, 'e, 'r, 'x, 't) server_example \<Rightarrow> bool" where
  "sx_numbered a b E \<longleftrightarrow>
     sx_ids E False = of_nat (Suc a) \<and> sx_ids E True = of_nat (Suc b) \<and> sx_next E = a + b \<and>
     (Suc (a + b) < 2 ^ 64 \<longrightarrow>
        hm_wf (sessions (ctl_sessions (sx_ctl E))) \<and>
        fst ` set (sessions (ctl_sessions (sx_ctl E))) = of_nat ` {1..max a b})"

lemma registry_add:
  assumes "hm_wf m" and "fst ` set m = (of_nat ` {1..n} :: u64 set)" and "k \<le> n" and "Suc n < 2 ^ 64"
  shows "fst ` set (hm_emplace (of_nat (Suc k)) v m) = of_nat ` {1..max n (Suc k)}"
proof (cases "k = n")
  case True
  have "(of_nat (Suc n) :: u64) \<notin> of_nat ` {1..n}"
  proof
    assume "(of_nat (Suc n) :: u64) \<in> of_nat ` {1..n}"
    then obtain j where "j \<le> n" "(of_nat (Suc n) :: u64) = of_nat j" by auto
    with of_nat_u64_inj [of "Suc n" j] assms(4) show False by (simp del: of_nat_Suc)
  qed
  with assms(2) have "map_of m (of_nat (Suc n)) = None" by (metis map_of_eq_None_iff)
  with True assms(2) show ?thesis
    by (simp add: hm_emplace_def atLeastAtMostSuc_conv max_def del: of_nat_Suc)
next
  case False
  with assms(3) have "Suc k \<in> {1..n}" by simp
  with assms(2) have "(of_nat (Suc k) :: u64) \<in> fst ` set m" by blast
  then obtain w where "hm_find m (of_nat (Suc k)) = Some w" using hm_find_None_iff by (metis not_None_eq)
  moreover have "max n (Suc k) = n" using False assms(3) by simp
  ultimately show ?thesis using assms(2) by (simp add: hm_emplace_present del: of_nat_Suc)
qed

lemma sx_numbered_loop:
  assumes "sx_numbered a b E" and "sx_loop env is_tls k ev E = Inr E'" and "\<And>p e. ev \<noteq> AlSession p e"
  shows "\<exists>a b. sx_numbered a b E'"
  using sx_loop_core [OF assms(2,3)]
proof
  assume "sx_core E' = sx_core E"
  with assms(1) show ?thesis by (auto simp: sx_core_def sx_numbered_def)
next
  let ?a = "if is_tls then a else Suc a" and ?b = "if is_tls then Suc b else b" and ?m = "sessions (ctl_sessions (sx_ctl E))"
  assume "\<exists>w l. sx_core E' = ((sx_ids E)(is_tls := sx_ids E is_tls + 1), Suc (sx_next E),
     (sx_ctl E)\<lparr>ctl_world := w, ctl_sessions := sm_Add (sx_ids E is_tls) (Some (sx_next E)) (ctl_sessions (sx_ctl E)),
                ctl_log := l\<rparr>)"
  then have c: "sx_ids E' = (sx_ids E)(is_tls := sx_ids E is_tls + 1)" "sx_next E' = Suc (sx_next E)"
    "sessions (ctl_sessions (sx_ctl E')) = hm_emplace (sx_ids E is_tls) (Some (sx_next E)) ?m"
    by (auto simp: sx_core_def sm_Add_def)
  have id: "sx_ids E is_tls = of_nat (Suc (if is_tls then b else a))"
    using assms(1) by (auto simp: sx_numbered_def)
  have "hm_wf (sessions (ctl_sessions (sx_ctl E'))) \<and>
      fst ` set (sessions (ctl_sessions (sx_ctl E'))) = of_nat ` {1..max ?a ?b}" if "Suc (?a + ?b) < 2 ^ 64"
  proof -
    from that have "Suc (a + b) < 2 ^ 64" by (auto split: if_splits)
    with assms(1) have m: "hm_wf ?m" "fst ` set ?m = of_nat ` {1..max a b}" by (auto simp: sx_numbered_def)
    have "max (max a b) (Suc (if is_tls then b else a)) = max ?a ?b" by auto
    with registry_add [OF m, of "if is_tls then b else a"] that m(1) show ?thesis
      by (auto simp: c(3) id simp del: of_nat_Suc split: if_splits)
  qed
  moreover have "sx_ids E' False = of_nat (Suc ?a) \<and> sx_ids E' True = of_nat (Suc ?b) \<and> sx_next E' = ?a + ?b"
    using assms(1) by (auto simp: c sx_numbered_def)
  ultimately show ?thesis unfolding sx_numbered_def by blast
qed

lemma ctl_Shutdown_mute [simp]:
  "channels (inbound_manager (ctl_ShutdownAllSessions env force c)) = []"
  "channels (outbound_manager (ctl_ShutdownAllSessions env force c)) = []"
  by (simp_all add: ctl_ShutdownAllSessions_def cm_ShutdownAllGraceful_def Let_def split: prod.splits)

lemma sx_signal_ctl:
  "sx_ctl (sx_signal env E) =
     ctl_ShutdownAllSessions (al_ctl env) False (ctl_ShutdownAllSessions (al_ctl env) False (sx_ctl E))"
  "sx_next (sx_signal env E) = sx_next E" "sx_ids (sx_signal env E) = sx_ids E" "sx_io_stopped (sx_signal env E)"
  by (simp_all add: sx_signal_def srv_Stop_def Let_def)

lemma sx_mute_loop:
  assumes "sx_mute E" and "sx_loop env is_tls k ev E = Inr E'" and "\<And>p e. ev \<noteq> AlSession p e"
  shows "sx_mute E'"
  using sx_loop_core [OF assms(2,3)] assms(1) by (auto simp: sx_core_def sx_mute_def)

lemma sx_exec_cases:
  assumes "sx_exec env ev E = Inr E'"
  obtains (loop) is_tls k e where "sx_loop env is_tls k e E = Inr E'" "\<And>p d. e \<noteq> AlSession p d"
    | (ses) p e where "sx_session env p e E = Inr E'"
    | (sig) "E' = sx_signal env E"
proof (cases ev)
  case (SxLoop is_tls k e)
  with assms loop ses show ?thesis by (cases e) auto
qed (use assms ses sig in auto)

lemma sx_session_quiet:
  assumes "example_hooks env" and "sx_mute E" and "sx_session env p e E = Inr E'"
  shows "\<exists>w. E' = E\<lparr>sx_ctl := (sx_ctl E)\<lparr>ctl_world := w\<rparr>\<rparr>"
proof (cases "p < sx_next E")
  case True
  with assms sx_session_no_channels [OF assms(1) _ True, of e] show ?thesis
    by (auto simp: sx_mute_def Let_def split: if_splits)
next
  case False
  with assms(3) show ?thesis by (intro exI [of _ "ctl_world (sx_ctl E)"]) (simp add: sx_session_def)
qed

definition sx_started :: "('f, 'm, 'b, 'p, 'e, 'r, 'x, 't) server_example \<Rightarrow> bool" where
  "sx_started E \<longleftrightarrow> (\<exists>chan provider store. E = sx_main chan provider store)"

interpretation example_mute: inductive_invariant "\<lambda>E. sx_started E \<and> example_hooks env" "sx_step env"
  "\<lambda>E. sx_mute E \<and> example_hooks env"
proof (unfold_locales, goal_cases)
  case (1 E)
  then show ?case by (auto simp: sx_started_def sx_main_def sx_controller_def sx_mute_def ctl_new_def cm_new_def)
next
  case (2 E E')
  then obtain ev where "sx_exec env ev E = Inr E'" by blast
  then show ?case
  proof (cases rule: sx_exec_cases)
    case (loop is_tls k e)
    with 2 show ?thesis by (blast intro: sx_mute_loop)
  next
    case (ses p e)
    with 2 sx_session_quiet [of env E p e E'] show ?thesis by (auto simp: sx_mute_def)
  next
    case sig
    with 2 show ?thesis by (simp add: sx_mute_def sx_signal_ctl)
  qed
qed

interpretation example_numbers: inductive_invariant
  "\<lambda>E. sx_started E \<and> example_hooks env \<and> drain_is_close env" "sx_step env"
  "\<lambda>E. (\<exists>a b. sx_numbered a b E) \<and> sx_mute E \<and> example_hooks env \<and> drain_is_close env"
proof (unfold_locales, goal_cases)
  case (1 E)
  then have "sx_numbered 0 0 E" by (auto simp: sx_started_def sx_main_def sx_controller_def sx_numbered_def ctl_new_def sm_new_def)
  moreover from 1 have "sx_mute E" using example_mute.base by blast
  ultimately show ?case using 1 by blast
next
  case (2 E E')
  have mute: "sx_mute E'" using example_mute.preserved [OF 2(1)] 2(2) by simp
  from 2 obtain ev where "sx_exec env ev E = Inr E'" by blast
  then have "\<exists>a b. sx_numbered a b E'"
  proof (cases rule: sx_exec_cases)
    case (loop is_tls k e)
    with 2 show ?thesis by (blast intro: sx_numbered_loop)
  next
    case (ses p e)
    with 2 sx_session_quiet [of env E p e E'] show ?thesis by (auto simp: sx_numbered_def)
  next
    case sig
    with 2 show ?thesis by (auto simp: sx_numbered_def sx_signal_ctl ctl_Shutdown_registry)
  qed
  with 2 mute show ?case by blast
qed

lemma sx_run_reachable:
  "reachable I (sx_step env) E \<Longrightarrow> sx_run env evs E = Inr E' \<Longrightarrow> reachable I (sx_step env) E'"
proof (induction evs arbitrary: E)
  case (Cons ev evs)
  show ?case
  proof (cases "sx_io_stopped E")
    case False
    with Cons.prems(2) obtain E1 where "sx_exec env ev E = Inr E1" "sx_run env evs E1 = Inr E'"
      by (auto split: sum.splits)
    with Cons.IH [OF reachable_step [OF Cons.prems(1) sx_step.intros [OF False]]] show ?thesis by blast
  qed (use Cons.prems in simp)
qed simp

subsection \<open>Closing twice\<close>

definition ses_idle :: "('f, 'm, 'b, 'p, 'e) session \<Rightarrow> bool" where
  "ses_idle s \<longleftrightarrow> \<not> use_write_queue s \<and> \<not> write_in_progress s \<and> write_deque s = []"

lemma ses_Close_graceful_ends:
  "shutdown_in_progress (ses_Close False s) \<longleftrightarrow> shutdown_in_progress s \<or> ses_idle s"
  by (auto simp: ses_ops ses_idle_def Let_def)

lemma signal_session:
  assumes "drain_is_close env"
  shows "ctl_world (sx_ctl (sx_signal env E)) p =
    (if Some p \<in> snd ` set (sessions (ctl_sessions (sx_ctl E))) then ses_Close False (ctl_world (sx_ctl E) p)
     else ctl_world (sx_ctl E) p)"
  using assms by (simp add: sx_signal_ctl ctl_Shutdown_registry ses_Close_idem)

lemma card_ids: "n < 2 ^ 64 \<Longrightarrow> card (of_nat ` {1..n} :: u64 set) = n"
proof -
  assume n: "n < 2 ^ 64"
  have "inj_on (of_nat :: nat \<Rightarrow> u64) {1..n}"
    using n by (intro inj_onI) (simp add: of_nat_u64_inj)
  then show ?thesis by (simp add: card_image)
qed

lemma registry_count:
  assumes "sx_numbered a b E" and "Suc (a + b) < 2 ^ 64"
  shows "sm_Count (ctl_sessions (sx_ctl E)) = max a b"
proof -
  let ?m = "sessions (ctl_sessions (sx_ctl E))"
  have m: "hm_wf ?m" "fst ` set ?m = of_nat ` {1..max a b}" using assms by (auto simp: sx_numbered_def)
  have "length ?m = card (fst ` set ?m)" using m(1) by (metis distinct_card hm_wf_def length_map set_map)
  moreover have "card (of_nat ` {1..max a b} :: u64 set) = max a b" using assms(2) by (intro card_ids) auto
  ultimately show ?thesis using m(2) by (simp add: sm_Count_def)
qed

subsection \<open>Properties\<close>

text \<open>
  C25. The echo server never echoes. The controller is made without channels and nothing ever adds one, so
  in every state the example can reach, the first message any session hands over - on either port -
  dereferences the missing channel in \<^verbatim>\<open>RouteMessage\<close>.
\<close>

theorem example_never_echoes:
  assumes "reachable (\<lambda>E. sx_started E \<and> example_hooks env) (sx_step env) E"
    and "p < sx_next E"
    and "newly_delivered (ctl_world (sx_ctl E) p) (ses_event (al_ses env) ev (ctl_world (sx_ctl E) p)) \<noteq> []"
  shows "sx_exec env (SxSession p ev) E = Inl (ChannelFault NullChannel)"
  using example_mute.reachable_inv [OF assms(1)] assms(2,3)
  by (simp add: sx_session_no_channels sx_mute_def Let_def)

text \<open>
  C24. Shutting the example down. The two stream types number their sessions separately, so after \<open>a\<close> plaintext and
  \<open>b\<close> TLS connections only \<open>max a b\<close> of the \<open>a + b\<close> sessions are in the registry. The signal ends exactly
  the registered sessions with nothing left to write (and those that had ended before), and as it stops
  the I/O context nothing happens after it: no write is completed, and no other session is closed.
\<close>

theorem example_shutdown:
  assumes "reachable (\<lambda>E. sx_started E \<and> example_hooks env \<and> drain_is_close env) (sx_step env) E"
    and "Suc (sx_next E) < 2 ^ 64"
  shows "(\<exists>a b. sx_ids E False = of_nat (Suc a) \<and> sx_ids E True = of_nat (Suc b) \<and> sx_next E = a + b \<and>
      sm_Count (ctl_sessions (sx_ctl E)) = max a b) \<and>
    \<not> sx_step env (sx_signal env E) E' \<and>
    (shutdown_in_progress (ctl_world (sx_ctl (sx_signal env E)) p) \<longleftrightarrow>
      shutdown_in_progress (ctl_world (sx_ctl E) p) \<or>
      Some p \<in> snd ` set (sessions (ctl_sessions (sx_ctl E))) \<and> ses_idle (ctl_world (sx_ctl E) p))"
proof -
  from example_numbers.reachable_inv [OF assms(1)] obtain a b
    where n: "sx_numbered a b E" and env: "drain_is_close env" by blast
  then have "sx_next E = a + b" by (simp add: sx_numbered_def)
  with n registry_count [OF n] assms(2)
  have "\<exists>a b. sx_ids E False = of_nat (Suc a) \<and> sx_ids E True = of_nat (Suc b) \<and> sx_next E = a + b \<and>
      sm_Count (ctl_sessions (sx_ctl E)) = max a b"
    by (intro exI [of _ a] exI [of _ b]) (simp add: sx_numbered_def)
  moreover have "\<not> sx_step env (sx_signal env E) E'" by (auto simp: sx_signal_ctl)
  ultimately show ?thesis by (simp add: signal_session [OF env] ses_Close_graceful_ends)
qed

text \<open>One connection on each port.\<close>

definition demo_server_example :: "(unit, string, string, unit, string, unit, unit, unit) server_example" where
  "demo_server_example = sx_main (''ch'', tmp_config_default 1) () (\<lambda>_. ses_new ())"

definition demo_connected :: "(unit, string, string, unit, string, unit, unit, unit) server_example" where
  "demo_connected =
     (case sx_run demo_al_env
        [SxLoop False 0 (AlArrive 0 (Accepted (Some (''10.0.0.1'', 4242)))), SxLoop False 0 (AlHandle 0),
         SxLoop True 0 (AlArrive 0 (Accepted (Some (''10.0.0.2'', 4343)))), SxLoop True 0 (AlHandle 0)] demo_server_example of
        Inr E \<Rightarrow> E | Inl _ \<Rightarrow> demo_server_example)"

lemmas demo_server_example_defs = demo_connected_def demo_server_example_def sx_main_def sx_loop_def sx_world_def sx_controller_def
  ctl_new_def demo_srv_defs

lemma demo_connected_next: "sx_next demo_connected = 2"
  by (simp add: demo_server_example_defs)

lemma demo_connected_registry: "sessions (ctl_sessions (sx_ctl demo_connected)) = [(1, Some 0)]"
  by (simp add: demo_server_example_defs sm_Add_def sm_new_def hm_emplace_def)

lemma demo_connected_session:
  "ctl_world (sx_ctl demo_connected) 0 = ses_Start demo_env 1 ''10.0.0.1'' 4242 9000 True True (ses_new ())"
  "ctl_world (sx_ctl demo_connected) 1 = ses_Start demo_env 1 ''10.0.0.2'' 4343 9443 True True (ses_new ())"
  by (simp_all add: demo_server_example_defs accepted_session_def ses_SetPluginBundle_def demo_al_env_def)
    (simp_all add: ses_new_def)

lemma demo_connected_reachable:
  "reachable (\<lambda>E. sx_started E \<and> example_hooks demo_al_env \<and> drain_is_close demo_al_env) (sx_step demo_al_env) demo_connected"
proof -
  let ?evs = "[SxLoop False 0 (AlArrive 0 (Accepted (Some (''10.0.0.1'', 4242)))), SxLoop False 0 (AlHandle 0),
    SxLoop True 0 (AlArrive 0 (Accepted (Some (''10.0.0.2'', 4343)))), SxLoop True 0 (AlHandle 0)]"
  have "sx_run demo_al_env ?evs demo_server_example = Inr demo_connected" by (simp add: demo_server_example_defs)
  moreover have "reachable (\<lambda>E. sx_started E \<and> example_hooks demo_al_env \<and> drain_is_close demo_al_env)
      (sx_step demo_al_env) demo_server_example"
    using demo_srv_init by (intro reachable_init) (auto simp: sx_started_def demo_server_example_def example_hooks_def demo_al_env_def)
  ultimately show ?thesis by (rule sx_run_reachable [rotated])
qed

lemma demo_connected_hooked:
  "reachable (\<lambda>E. sx_started E \<and> example_hooks demo_al_env) (sx_step demo_al_env) demo_connected"
  by (rule reachable_weaken [OF demo_connected_reachable [folded conj_assoc]])

theorem example_never_echoes_witness:
  "sx_exec demo_al_env (SxSession 1 (SesRead (Some ''hello''))) demo_connected = Inl (ChannelFault NullChannel)"
proof (rule example_never_echoes [OF demo_connected_hooked])
  show "newly_delivered (ctl_world (sx_ctl demo_connected) 1)
      (ses_event (al_ses demo_al_env) (SesRead (Some ''hello'')) (ctl_world (sx_ctl demo_connected) 1)) \<noteq> []"
    by (simp add: demo_connected_session(2) [simplified] newly_delivered_def ses_Start_def ses_ops ses_new_def ses_event_def ses_on_read_def
        demo_al_env_def demo_env_def Let_def)
qed (simp add: demo_connected_next)

theorem example_shutdown_witness:
  "sx_next demo_connected = 2 \<and>
   \<not> shutdown_in_progress (ctl_world (sx_ctl (sx_signal demo_al_env demo_connected)) 1)"
proof -
  have "\<not> shutdown_in_progress (ctl_world (sx_ctl demo_connected) 1)"
    by (simp add: demo_connected_session(2) [simplified] ses_Start_def ses_ops ses_new_def Let_def)
  with example_shutdown [OF demo_connected_reachable, of demo_connected 1] show ?thesis
    by (simp add: demo_connected_next demo_connected_registry)
qed

text \<open>
  If the session the router sends on is the one registered under the connection id, the router does what
  the controller's outbound handler does with the addressed message (when the send does not throw).
\<close>

lemma echo_is_outbound:
  assumes "\<And>i m. meta_dest_session env (set_dest_session i m) = Some i"
    and "sm_Get (connection_id msg) (ctl_sessions c) = Some session"
    and "\<not> send_throws env session (set_dest_session (connection_id msg) msg)"
  shows "EchoRouter_Route env connection_id set_dest_session session msg c =
    ctl_HandleOutbound env (set_dest_session (connection_id msg) msg) c"
  using assms by (simp add: EchoRouter_Route_def ctl_HandleOutbound_def Let_def)

end
