(* ===== verification/Tcp_Client.thy ===== *)
theory Tcp_Client
  imports Write_Queue_SG Session
begin

text \<open>
  \<^verbatim>\<open>src/src/vectro/tcp/tcp_client.h\<close>: a client connection with requests that are matched to responses
  by correlation id or time out. Calls and completion handlers are atomic operations on the client's
  state, which carries the operations outstanding at the operating system; handlers do not call back
  into the client before they return. The timer of a request is never cancelled, so its wait is
  outstanding until its handler runs.

  Parameters, in \<open>cl_env\<close>: the framer (its \<^verbatim>\<open>Frame\<close> is not a member of \<^verbatim>\<open>FramerBase\<close>), the correlation id of
  a message (not a member of its metadata), and the \<^verbatim>\<open>Register\<close> and typed \<^verbatim>\<open>Get\<close> of the plugin bundle
  (which the class does not have). The throwing \<^verbatim>\<open>cancel()\<close> of a socket that is not open throws.
\<close>

subsection \<open>State\<close>

record ('f, 'm, 'b, 'q, 'v, 'e) cl_env =
  cl_Frame :: "'f \<Rightarrow> 'm \<Rightarrow> 'e + 'b"
  cl_PrepareRead :: "'f \<Rightarrow> 'f"
  cl_OnData :: "'f \<Rightarrow> payload \<Rightarrow> ('e + 'm list) \<times> 'f"
  correlation_id :: "'m \<Rightarrow> u64"
  set_correlation_id :: "u64 \<Rightarrow> 'm \<Rightarrow> 'm"
  plugins_Register :: "string \<Rightarrow> 'v \<Rightarrow> 'q \<Rightarrow> 'q"
  has_backpressure :: "'q \<Rightarrow> bool"

datatype 'e cl_exception = FramerThrew 'e | BadDescriptor

text \<open>What the client does to the outside; responses and timeouts with the correlation id they are for.\<close>

datatype ('m, 'h, 'e) cl_effect =
    ConnectCalled bool
  | DisconnectCalled
  | MessageDelivered 'm
  | ResponseCalled u64 'h 'm
  | TimedOutCalled u64 'h
  | DropReported 'm
  | ClSocketCancelled
  | ClSocketClosed
  | Threw "'e cl_exception"

record client_config =
  connect_timeout :: nat
  read_timeout :: nat
  idle_timeout :: nat
  max_queue :: nat

definition client_config_default :: client_config where
  "client_config_default = \<lparr>connect_timeout = 10, read_timeout = 30, idle_timeout = 60, max_queue = 1024\<rparr>"

record metrics_snapshot =
  snap_pending_requests :: u64
  snap_queued_writes :: u64

record ('f, 'm, 'b, 'q, 'h, 'e) tcp_client =
  cl_plugins :: 'q
  cl_framer :: 'f
  cl_write_queue :: "('b, 'm) wq_sys"
  cl_socket_open :: bool
  connect_timer :: timer
  cl_read_timer :: timer
  cl_idle_timer :: timer
  next_correlation_id :: u64
  pending_requests :: u64
  pending_responses :: "(u64, 'h option) hash_map"
  cl_on_message :: bool
  cl_on_connect :: bool
  cl_on_disconnect :: bool
  cl_shutdown :: bool
  resolves_out :: nat
  connects_out :: nat
  handshakes_out :: nat
  cl_reads_out :: nat
  request_timers :: "u64 list"
  cl_log :: "('m, 'h, 'e) cl_effect list"

definition cl_emit ::
  "('m, 'h, 'e) cl_effect list \<Rightarrow> ('f, 'm, 'b, 'q, 'h, 'e) tcp_client \<Rightarrow> ('f, 'm, 'b, 'q, 'h, 'e) tcp_client" where
  "cl_emit effs c = c\<lparr>cl_log := cl_log c @ effs\<rparr>"

subsection \<open>Construction and configuration\<close>

datatype cl_error = ProviderRequired

definition cl_new ::
  "bool \<Rightarrow> 't option \<Rightarrow> 'f \<Rightarrow> client_config \<Rightarrow> 'q \<Rightarrow> cl_error + ('f, 'm, 'b, 'q, 'h, 'e) tcp_client" where
  "cl_new is_tls tls_provider f config plugins =
     (if is_tls \<and> tls_provider = None then Inl ProviderRequired
      else Inr
        \<lparr>cl_plugins = plugins, cl_framer = f, cl_write_queue = wq_start (max_queue config), cl_socket_open = False,
         connect_timer = timer_new, cl_read_timer = timer_new, cl_idle_timer = timer_new,
         next_correlation_id = 1, pending_requests = 0, pending_responses = [],
         cl_on_message = False, cl_on_connect = False, cl_on_disconnect = False, cl_shutdown = False,
         resolves_out = 0, connects_out = 0, handshakes_out = 0, cl_reads_out = 0, request_timers = [],
         cl_log = []\<rparr>)"

definition cl_SetOnMessage :: "bool \<Rightarrow> ('f, 'm, 'b, 'q, 'h, 'e) tcp_client \<Rightarrow> ('f, 'm, 'b, 'q, 'h, 'e) tcp_client" where
  "cl_SetOnMessage h c = c\<lparr>cl_on_message := h\<rparr>"

definition cl_SetOnDisconnect :: "bool \<Rightarrow> ('f, 'm, 'b, 'q, 'h, 'e) tcp_client \<Rightarrow> ('f, 'm, 'b, 'q, 'h, 'e) tcp_client" where
  "cl_SetOnDisconnect h c = c\<lparr>cl_on_disconnect := h\<rparr>"

definition cl_RegisterPlugin ::
  "('f, 'm, 'b, 'q, 'v, 'e) cl_env \<Rightarrow> string \<Rightarrow> 'v \<Rightarrow> ('f, 'm, 'b, 'q, 'h, 'e) tcp_client \<Rightarrow> ('f, 'm, 'b, 'q, 'h, 'e) tcp_client" where
  "cl_RegisterPlugin env key p c = c\<lparr>cl_plugins := plugins_Register env key p (cl_plugins c)\<rparr>"

definition cl_SnapshotMetrics :: "('f, 'm, 'b, 'q, 'h, 'e) tcp_client \<Rightarrow> metrics_snapshot" where
  "cl_SnapshotMetrics c = \<lparr>snap_pending_requests = pending_requests c, snap_queued_writes = 0\<rparr>"

subsection \<open>Sending\<close>

text \<open>
  An event of the write queue. The completion handlers it calls are those \<^verbatim>\<open>Send\<close> made: they report a
  message that was not sent to the backpressure plugin, if there is one.
\<close>

definition cl_queue_event ::
  "('f, 'm, 'b, 'q, 'v, 'e) cl_env \<Rightarrow> ('b, 'm) wq_event \<Rightarrow> ('f, 'm, 'b, 'q, 'h, 'e) tcp_client \<Rightarrow> ('f, 'm, 'b, 'q, 'h, 'e) tcp_client" where
  "cl_queue_event env ev c =
     (let q = wq_event ev (cl_write_queue c);
          called = drop (length (calls (cl_write_queue c))) (calls q)
      in cl_emit (map (\<lambda>(msg, ok). DropReported msg) (filter (\<lambda>(msg, ok). \<not> ok \<and> has_backpressure env (cl_plugins c)) called))
           (c\<lparr>cl_write_queue := q\<rparr>))"

text \<open>\<^verbatim>\<open>Send\<close>; an exception of the framer leaves it, and is what it returns.\<close>

definition cl_Send ::
  "('f, 'm, 'b, 'q, 'v, 'e) cl_env \<Rightarrow> 'm \<Rightarrow> ('f, 'm, 'b, 'q, 'h, 'e) tcp_client \<Rightarrow>
   'e option \<times> ('f, 'm, 'b, 'q, 'h, 'e) tcp_client" where
  "cl_Send env msg c =
     (case cl_Frame env (cl_framer c) msg of
        Inl e \<Rightarrow> (Some e, c)
      | Inr bufvec \<Rightarrow> (None, cl_queue_event env (EvSend bufvec (Some msg)) c))"

definition cl_SendRequest ::
  "('f, 'm, 'b, 'q, 'v, 'e) cl_env \<Rightarrow> 'm \<Rightarrow> 'h option \<Rightarrow> ('f, 'm, 'b, 'q, 'h, 'e) tcp_client \<Rightarrow>
   'e option \<times> ('f, 'm, 'b, 'q, 'h, 'e) tcp_client" where
  "cl_SendRequest env request on_response c =
     (let cid = next_correlation_id c;
          c1 = c\<lparr>next_correlation_id := cid + 1\<rparr>;
          request' = set_correlation_id env cid request;
          c2 = c1\<lparr>pending_responses := hm_emplace cid on_response (pending_responses c1)\<rparr>;
          c3 = c2\<lparr>pending_requests := pending_requests c2 + 1\<rparr>
      in case cl_Send env request' c3 of
           (Some e, c4) \<Rightarrow> (Some e, c4)
         | (None, c4) \<Rightarrow> (None, c4\<lparr>request_timers := request_timers c4 @ [cid]\<rparr>))"

text \<open>The wait handler of the \<open>i\<close>-th outstanding request timer.\<close>

definition cl_on_request_timer ::
  "nat \<Rightarrow> ('f, 'm, 'b, 'q, 'h, 'e) tcp_client \<Rightarrow> ('f, 'm, 'b, 'q, 'h, 'e) tcp_client" where
  "cl_on_request_timer i c =
     (let cid = request_timers c ! i;
          c0 = c\<lparr>request_timers := take i (request_timers c) @ drop (Suc i) (request_timers c)\<rparr>
      in case hm_find (pending_responses c0) cid of
           None \<Rightarrow> c0
         | Some cb \<Rightarrow>
             let c1 = c0\<lparr>pending_responses := hm_erase cid (pending_responses c0)\<rparr>;
                 c2 = c1\<lparr>pending_requests := pending_requests c1 - 1\<rparr>
             in (case cb of Some h \<Rightarrow> cl_emit [TimedOutCalled cid h] c2 | None \<Rightarrow> c2))"

subsection \<open>Closing\<close>

text \<open>\<^verbatim>\<open>Close\<close>. With \<^verbatim>\<open>force\<close> and a socket that is not open, \<^verbatim>\<open>cancel()\<close> throws and nothing after it happens.\<close>

definition cl_Close ::
  "('f, 'm, 'b, 'q, 'v, 'e) cl_env \<Rightarrow> bool \<Rightarrow> ('f, 'm, 'b, 'q, 'h, 'e) tcp_client \<Rightarrow> ('f, 'm, 'b, 'q, 'h, 'e) tcp_client" where
  "cl_Close env force c =
     (let c1 = c\<lparr>cl_shutdown := True\<rparr>
      in if force \<and> \<not> cl_socket_open c1 then cl_emit [Threw BadDescriptor] c1
         else
           let c2 = (if force
                     then cl_queue_event env (EvClose True) (cl_emit [ClSocketCancelled, ClSocketClosed] (c1\<lparr>cl_socket_open := False\<rparr>))
                     else cl_queue_event env (EvClose False) c1);
               c3 = c2\<lparr>connect_timer := timer_cancel (connect_timer c2), cl_read_timer := timer_cancel (cl_read_timer c2),
                       cl_idle_timer := timer_cancel (cl_idle_timer c2)\<rparr>
           in if cl_on_disconnect c3 then cl_emit [DisconnectCalled] c3 else c3)"

text \<open>The destructor.\<close>

definition cl_destroy ::
  "('f, 'm, 'b, 'q, 'v, 'e) cl_env \<Rightarrow> ('f, 'm, 'b, 'q, 'h, 'e) tcp_client \<Rightarrow> ('f, 'm, 'b, 'q, 'h, 'e) tcp_client" where
  "cl_destroy env c = cl_Close env True c"

subsection \<open>Reading\<close>

definition cl_StartRead ::
  "('f, 'm, 'b, 'q, 'v, 'e) cl_env \<Rightarrow> ('f, 'm, 'b, 'q, 'h, 'e) tcp_client \<Rightarrow> ('f, 'm, 'b, 'q, 'h, 'e) tcp_client" where
  "cl_StartRead env c =
     (if cl_shutdown c then c
      else c\<lparr>cl_framer := cl_PrepareRead env (cl_framer c), cl_reads_out := Suc (cl_reads_out c),
             cl_read_timer := timer_wait (timer_cancel (cl_read_timer c)),
             cl_idle_timer := timer_wait (timer_cancel (cl_idle_timer c))\<rparr>)"

text \<open>The body of the loop over the received messages.\<close>

definition cl_dispatch ::
  "('f, 'm, 'b, 'q, 'v, 'e) cl_env \<Rightarrow> 'm \<Rightarrow> ('f, 'm, 'b, 'q, 'h, 'e) tcp_client \<Rightarrow> ('f, 'm, 'b, 'q, 'h, 'e) tcp_client" where
  "cl_dispatch env msg c =
     (let cid = correlation_id env msg;
          (cb, c1) = (case hm_find (pending_responses c) cid of
                        Some cb \<Rightarrow> (cb, c\<lparr>pending_responses := hm_erase cid (pending_responses c)\<rparr>)
                      | None \<Rightarrow> (None, c))
      in case cb of
           Some h \<Rightarrow> cl_emit [ResponseCalled cid h msg] (c1\<lparr>pending_requests := pending_requests c1 - 1\<rparr>)
         | None \<Rightarrow> if cl_on_message c1 then cl_emit [MessageDelivered msg] c1 else c1)"

text \<open>The completion handler of a read: \<open>None\<close> for an error.\<close>

definition cl_on_read ::
  "('f, 'm, 'b, 'q, 'v, 'e) cl_env \<Rightarrow> payload option \<Rightarrow> ('f, 'm, 'b, 'q, 'h, 'e) tcp_client \<Rightarrow> ('f, 'm, 'b, 'q, 'h, 'e) tcp_client" where
  "cl_on_read env result c =
     (let c0 = c\<lparr>cl_reads_out := cl_reads_out c - 1\<rparr>
      in case result of
           None \<Rightarrow> cl_Close env True c0
         | Some data \<Rightarrow>
             (let c1 = c0\<lparr>cl_read_timer := timer_cancel (cl_read_timer c0), cl_idle_timer := timer_cancel (cl_idle_timer c0)\<rparr>
              in case cl_OnData env (cl_framer c1) data of
                   (Inl e, f) \<Rightarrow> cl_emit [Threw (FramerThrew e)] (c1\<lparr>cl_framer := f\<rparr>)
                 | (Inr msgs, f) \<Rightarrow> cl_StartRead env (fold (cl_dispatch env) msgs (c1\<lparr>cl_framer := f\<rparr>))))"

text \<open>The wait handlers of the read timer and the idle timer, for a wait that expired.\<close>

definition cl_on_timer ::
  "('f, 'm, 'b, 'q, 'v, 'e) cl_env \<Rightarrow> ('f, 'm, 'b, 'q, 'h, 'e) tcp_client \<Rightarrow> ('f, 'm, 'b, 'q, 'h, 'e) tcp_client" where
  "cl_on_timer env c = cl_Close env True c"

subsection \<open>Connecting\<close>

definition cl_Connect :: "bool \<Rightarrow> ('f, 'm, 'b, 'q, 'h, 'e) tcp_client \<Rightarrow> ('f, 'm, 'b, 'q, 'h, 'e) tcp_client" where
  "cl_Connect on_connect c =
     c\<lparr>cl_on_connect := on_connect, connect_timer := timer_wait (timer_cancel (connect_timer c)),
       resolves_out := Suc (resolves_out c)\<rparr>"

text \<open>The connect timer's handler cancels the socket's operations, if the socket is open, and throws otherwise.\<close>

definition cl_on_connect_timer :: "('f, 'm, 'b, 'q, 'h, 'e) tcp_client \<Rightarrow> ('f, 'm, 'b, 'q, 'h, 'e) tcp_client" where
  "cl_on_connect_timer c = (if cl_socket_open c then cl_emit [ClSocketCancelled] c else cl_emit [Threw BadDescriptor] c)"

definition cl_report_connect :: "bool \<Rightarrow> ('f, 'm, 'b, 'q, 'h, 'e) tcp_client \<Rightarrow> ('f, 'm, 'b, 'q, 'h, 'e) tcp_client" where
  "cl_report_connect ok c = (if cl_on_connect c then cl_emit [ConnectCalled ok] c else c)"

text \<open>
  The resolve handler: \<open>None\<close> for an error, otherwise whether connecting to the results opens the socket
  (not for an empty list of results).
\<close>

definition cl_on_resolved :: "bool option \<Rightarrow> ('f, 'm, 'b, 'q, 'h, 'e) tcp_client \<Rightarrow> ('f, 'm, 'b, 'q, 'h, 'e) tcp_client" where
  "cl_on_resolved result c =
     (let c1 = c\<lparr>resolves_out := resolves_out c - 1, connect_timer := timer_cancel (connect_timer c)\<rparr>
      in case result of
           None \<Rightarrow> cl_report_connect False c1
         | Some opens \<Rightarrow> c1\<lparr>connects_out := Suc (connects_out c1), cl_socket_open := cl_socket_open c1 \<or> opens\<rparr>)"

definition cl_DoHandshake :: "('f, 'm, 'b, 'q, 'h, 'e) tcp_client \<Rightarrow> ('f, 'm, 'b, 'q, 'h, 'e) tcp_client" where
  "cl_DoHandshake c = c\<lparr>handshakes_out := Suc (handshakes_out c)\<rparr>"

definition cl_on_connected ::
  "('f, 'm, 'b, 'q, 'v, 'e) cl_env \<Rightarrow> bool \<Rightarrow> bool \<Rightarrow> ('f, 'm, 'b, 'q, 'h, 'e) tcp_client \<Rightarrow> ('f, 'm, 'b, 'q, 'h, 'e) tcp_client" where
  "cl_on_connected env is_tls ok c =
     (let c1 = c\<lparr>connects_out := connects_out c - 1\<rparr>
      in if \<not> ok then cl_report_connect False c1
         else if is_tls then cl_DoHandshake c1
         else cl_StartRead env (cl_report_connect True c1))"

definition cl_on_handshake ::
  "('f, 'm, 'b, 'q, 'v, 'e) cl_env \<Rightarrow> bool \<Rightarrow> ('f, 'm, 'b, 'q, 'h, 'e) tcp_client \<Rightarrow> ('f, 'm, 'b, 'q, 'h, 'e) tcp_client" where
  "cl_on_handshake env ok c =
     (let c1 = cl_report_connect ok (c\<lparr>handshakes_out := handshakes_out c - 1\<rparr>)
      in if ok then cl_StartRead env c1 else c1)"

lemmas cl_ops [vec_defs] =
  cl_emit_def cl_queue_event_def cl_Send_def cl_SendRequest_def cl_on_request_timer_def cl_Close_def cl_StartRead_def
  cl_dispatch_def cl_on_read_def cl_on_timer_def cl_Connect_def cl_on_connect_timer_def cl_report_connect_def
  cl_on_resolved_def cl_DoHandshake_def cl_on_connected_def cl_on_handshake_def cl_SetOnMessage_def
  cl_SetOnDisconnect_def cl_RegisterPlugin_def

subsection \<open>Runs\<close>

datatype ('m, 'b, 'h, 'v) cl_event =
    ClConnect bool
  | ClConnectExpires
  | ClConnectTimer
  | ClResolved "bool option"
  | ClConnected bool
  | ClHandshake bool
  | ClSend 'm
  | ClRequest 'm "'h option"
  | ClRequestTimer nat
  | ClWritten nat bool
  | ClRead "payload option"
  | ClReadExpires
  | ClReadTimer
  | ClIdleExpires
  | ClIdleTimer
  | ClClose bool
  | ClSetOnMessage bool
  | ClSetOnDisconnect bool
  | ClRegister string 'v

text \<open>A wait of a timer that expired is handled.\<close>

definition timer_handled :: "timer \<Rightarrow> timer" where
  "timer_handled t = t\<lparr>due := due t - 1\<rparr>"

text \<open>
  One event; an exception that leaves a call or a handler is recorded in the log. An event for an
  operation that is not outstanding does not happen.
\<close>

definition cl_threw :: "'e option \<times> ('f, 'm, 'b, 'q, 'h, 'e) tcp_client \<Rightarrow> ('f, 'm, 'b, 'q, 'h, 'e) tcp_client" where
  "cl_threw r = (case fst r of None \<Rightarrow> snd r | Some e \<Rightarrow> cl_emit [Threw (FramerThrew e)] (snd r))"

fun cl_exec ::
  "('f, 'm, 'b, 'q, 'v, 'e) cl_env \<Rightarrow> bool \<Rightarrow> ('m, 'b, 'h, 'v) cl_event \<Rightarrow>
   ('f, 'm, 'b, 'q, 'h, 'e) tcp_client \<Rightarrow> ('f, 'm, 'b, 'q, 'h, 'e) tcp_client" where
  "cl_exec env is_tls (ClConnect h) c = cl_Connect h c"
| "cl_exec env is_tls ClConnectExpires c = c\<lparr>connect_timer := timer_expire (connect_timer c)\<rparr>"
| "cl_exec env is_tls ClConnectTimer c =
     (if due (connect_timer c) = 0 then c
      else cl_on_connect_timer (c\<lparr>connect_timer := timer_handled (connect_timer c)\<rparr>))"
| "cl_exec env is_tls (ClResolved r) c = (if resolves_out c = 0 then c else cl_on_resolved r c)"
| "cl_exec env is_tls (ClConnected ok) c = (if connects_out c = 0 then c else cl_on_connected env is_tls ok c)"
| "cl_exec env is_tls (ClHandshake ok) c = (if handshakes_out c = 0 then c else cl_on_handshake env ok c)"
| "cl_exec env is_tls (ClSend m) c = cl_threw (cl_Send env m c)"
| "cl_exec env is_tls (ClRequest m h) c = cl_threw (cl_SendRequest env m h c)"
| "cl_exec env is_tls (ClRequestTimer i) c =
     (if i < length (request_timers c) then cl_on_request_timer i c else c)"
| "cl_exec env is_tls (ClWritten i ok) c = cl_queue_event env (EvWritten i ok) c"
| "cl_exec env is_tls (ClRead r) c = (if cl_reads_out c = 0 then c else cl_on_read env r c)"
| "cl_exec env is_tls ClReadExpires c = c\<lparr>cl_read_timer := timer_expire (cl_read_timer c)\<rparr>"
| "cl_exec env is_tls ClReadTimer c =
     (if due (cl_read_timer c) = 0 then c else cl_on_timer env (c\<lparr>cl_read_timer := timer_handled (cl_read_timer c)\<rparr>))"
| "cl_exec env is_tls ClIdleExpires c = c\<lparr>cl_idle_timer := timer_expire (cl_idle_timer c)\<rparr>"
| "cl_exec env is_tls ClIdleTimer c =
     (if due (cl_idle_timer c) = 0 then c else cl_on_timer env (c\<lparr>cl_idle_timer := timer_handled (cl_idle_timer c)\<rparr>))"
| "cl_exec env is_tls (ClClose force) c = cl_Close env force c"
| "cl_exec env is_tls (ClSetOnMessage h) c = cl_SetOnMessage h c"
| "cl_exec env is_tls (ClSetOnDisconnect h) c = cl_SetOnDisconnect h c"
| "cl_exec env is_tls (ClRegister key v) c = cl_RegisterPlugin env key v c"

text \<open>Runs, with the handlers of the requests made so far, oldest first.\<close>

fun asked :: "('m, 'b, 'h, 'v) cl_event \<Rightarrow> 'h option list" where
  "asked (ClRequest m h) = [h]"
| "asked _ = []"

inductive cl_step ::
  "('f, 'm, 'b, 'q, 'v, 'e) cl_env \<Rightarrow> bool \<Rightarrow> 'h option list \<times> ('f, 'm, 'b, 'q, 'h, 'e) tcp_client \<Rightarrow>
   'h option list \<times> ('f, 'm, 'b, 'q, 'h, 'e) tcp_client \<Rightarrow> bool"
  for env :: "('f, 'm, 'b, 'q, 'v, 'e) cl_env" and is_tls :: bool where
  "cl_step env is_tls (hs, c) (hs @ asked ev, cl_exec env is_tls ev c)"

inductive_cases cl_stepE [elim!]: "cl_step env is_tls s t"

definition cl_init :: "'h option list \<times> ('f, 'm, 'b, 'q, 'h, 'e) tcp_client \<Rightarrow> bool" where
  "cl_init s \<longleftrightarrow>
     fst s = [] \<and> pending_responses (snd s) = [] \<and> pending_requests (snd s) = 0 \<and> next_correlation_id (snd s) = 1 \<and>
     request_timers (snd s) = [] \<and> cl_log (snd s) = []"

lemma cl_new_init: "cl_new is_tls provider f config plugins = Inr c \<Longrightarrow> cl_init ([], c)"
  by (auto simp: cl_new_def cl_init_def split: if_splits)

subsection \<open>Requests and their answers\<close>

text \<open>The handlers called for a correlation id, in order.\<close>

fun answer :: "u64 \<Rightarrow> ('m, 'h, 'e) cl_effect \<Rightarrow> 'h list" where
  "answer cid (ResponseCalled i h m) = (if i = cid then [h] else [])"
| "answer cid (TimedOutCalled i h) = (if i = cid then [h] else [])"
| "answer cid _ = []"

definition answers :: "u64 \<Rightarrow> ('m, 'h, 'e) cl_effect list \<Rightarrow> 'h list" where
  "answers cid effs = concat (map (answer cid) effs)"

lemma answers_simps [simp]:
  "answers cid [] = []" "answers cid (xs @ ys) = answers cid xs @ answers cid ys"
  "answers cid (eff # effs) = answer cid eff @ answers cid effs"
  by (simp_all add: answers_def)

lemma answers_drops [simp]: "answers cid (map (\<lambda>(m, ok). DropReported m) ps) = []"
  by (induction ps) auto

text \<open>
  The request table: the part of the client that concerns requests, as a machine of its own. A request
  takes the next correlation id and, if it is sent, has a timer; a timeout answers the request of its
  timer, if it is still pending; a response answers the request with its correlation id, if any.
\<close>

record 'h request_table =
  rq_pending :: "(u64, 'h option) hash_map"
  rq_count :: u64
  rq_next :: u64
  rq_timers :: "u64 list"
  rq_answers :: "u64 \<Rightarrow> 'h list"

definition handler_list :: "'h option \<Rightarrow> 'h list" where
  "handler_list h = (case h of Some h \<Rightarrow> [h] | None \<Rightarrow> [])"

lemma handler_list_simps [simp]: "handler_list (Some h) = [h]" "handler_list None = []"
  by (simp_all add: handler_list_def)

definition rq_request :: "bool \<Rightarrow> 'h option \<Rightarrow> 'h request_table \<Rightarrow> 'h request_table" where
  "rq_request sent h v =
     v\<lparr>rq_pending := hm_emplace (rq_next v) h (rq_pending v), rq_count := rq_count v + 1, rq_next := rq_next v + 1,
       rq_timers := rq_timers v @ (if sent then [rq_next v] else [])\<rparr>"

definition rq_timeout :: "nat \<Rightarrow> 'h request_table \<Rightarrow> 'h request_table" where
  "rq_timeout i v =
     (let cid = rq_timers v ! i;
          v1 = v\<lparr>rq_timers := take i (rq_timers v) @ drop (Suc i) (rq_timers v)\<rparr>
      in case hm_find (rq_pending v) cid of
           None \<Rightarrow> v1
         | Some h \<Rightarrow>
             v1\<lparr>rq_pending := hm_erase cid (rq_pending v), rq_count := rq_count v - 1,
                rq_answers := (rq_answers v)(cid := rq_answers v cid @ handler_list h)\<rparr>)"

definition rq_response :: "u64 \<Rightarrow> 'h request_table \<Rightarrow> 'h request_table" where
  "rq_response cid v =
     (case hm_find (rq_pending v) cid of
        None \<Rightarrow> v
      | Some None \<Rightarrow> v\<lparr>rq_pending := hm_erase cid (rq_pending v)\<rparr>
      | Some (Some h) \<Rightarrow>
          v\<lparr>rq_pending := hm_erase cid (rq_pending v), rq_count := rq_count v - 1,
            rq_answers := (rq_answers v)(cid := rq_answers v cid @ [h])\<rparr>)"

lemmas rq_ops = rq_request_def rq_timeout_def rq_response_def

inductive rq_step :: "bool \<Rightarrow> 'h option list \<times> 'h request_table \<Rightarrow> 'h option list \<times> 'h request_table \<Rightarrow> bool"
  for unsent :: bool where
  rq_step_request: "sent \<or> unsent \<Longrightarrow> rq_step unsent (hs, v) (hs @ [h], rq_request sent h v)"
| rq_step_timeout: "i < length (rq_timers v) \<Longrightarrow> rq_step unsent (hs, v) (hs, rq_timeout i v)"
| rq_step_response: "rq_step unsent (hs, v) (hs, rq_response cid v)"

inductive_cases rq_stepE [elim!]: "rq_step unsent s t"

definition req_view :: "('f, 'm, 'b, 'q, 'h, 'e) tcp_client \<Rightarrow> 'h request_table" where
  "req_view c =
     \<lparr>rq_pending = pending_responses c, rq_count = pending_requests c, rq_next = next_correlation_id c,
      rq_timers = request_timers c, rq_answers = (\<lambda>cid. answers cid (cl_log c))\<rparr>"

text \<open>Most operations of the client leave the request table alone.\<close>

lemma req_view_fields [simp]:
  "req_view (c\<lparr>cl_plugins := x1\<rparr>) = req_view c" "req_view (c\<lparr>cl_framer := x2\<rparr>) = req_view c"
  "req_view (c\<lparr>cl_write_queue := x3\<rparr>) = req_view c" "req_view (c\<lparr>cl_socket_open := x4\<rparr>) = req_view c"
  "req_view (c\<lparr>connect_timer := x5\<rparr>) = req_view c" "req_view (c\<lparr>cl_read_timer := x6\<rparr>) = req_view c"
  "req_view (c\<lparr>cl_idle_timer := x7\<rparr>) = req_view c" "req_view (c\<lparr>cl_on_message := x8\<rparr>) = req_view c"
  "req_view (c\<lparr>cl_on_connect := x9\<rparr>) = req_view c" "req_view (c\<lparr>cl_on_disconnect := x10\<rparr>) = req_view c"
  "req_view (c\<lparr>cl_shutdown := x11\<rparr>) = req_view c" "req_view (c\<lparr>resolves_out := x12\<rparr>) = req_view c"
  "req_view (c\<lparr>connects_out := x13\<rparr>) = req_view c" "req_view (c\<lparr>handshakes_out := x14\<rparr>) = req_view c"
  "req_view (c\<lparr>cl_reads_out := x15\<rparr>) = req_view c"
  by (simp_all add: req_view_def)

lemma req_view_emit: "(\<And>cid. answers cid effs = []) \<Longrightarrow> req_view (cl_emit effs c) = req_view c"
  by (simp add: req_view_def cl_emit_def)

lemma req_view_queue [simp]: "req_view (cl_queue_event env ev c) = req_view c"
  by (simp add: cl_queue_event_def Let_def req_view_emit)

lemma req_view_ops [simp]:
  "req_view (cl_Close env force c) = req_view c" "req_view (cl_StartRead env c) = req_view c"
  "req_view (cl_report_connect ok c) = req_view c" "req_view (cl_threw r) = req_view (snd r)"
  "req_view (snd (cl_Send env m c)) = req_view c"
  by (simp_all add: cl_Close_def cl_StartRead_def cl_report_connect_def cl_threw_def cl_Send_def Let_def req_view_emit
      split: option.splits sum.splits)

lemma req_view_connecting [simp]:
  "req_view (cl_Connect h c) = req_view c" "req_view (cl_on_connect_timer c) = req_view c"
  "req_view (cl_on_resolved res c) = req_view c" "req_view (cl_on_connected env is_tls ok c) = req_view c"
  "req_view (cl_on_handshake env ok c) = req_view c"
  by (simp_all add: cl_Connect_def cl_on_connect_timer_def cl_on_resolved_def cl_on_connected_def cl_DoHandshake_def
      cl_on_handshake_def Let_def req_view_emit split: option.splits)

text \<open>
  An event other than a request, a request timer or a read that brings data changes nothing about requests.
\<close>

definition req_event :: "('m, 'b, 'h, 'v) cl_event \<Rightarrow> bool" where
  "req_event ev = (case ev of ClRequest _ _ \<Rightarrow> True | ClRequestTimer _ \<Rightarrow> True | ClRead (Some _) \<Rightarrow> True | _ \<Rightarrow> False)"

lemma req_view_exec: "\<not> req_event ev \<Longrightarrow> req_view (cl_exec env is_tls ev c) = req_view c"
  by (cases ev)
    (auto simp: req_event_def cl_on_timer_def cl_on_read_def cl_SetOnMessage_def cl_SetOnDisconnect_def cl_RegisterPlugin_def
      Let_def split: option.splits)

lemma req_view_request:
  "req_view (snd (cl_SendRequest env m h c)) =
     rq_request (\<exists>b. cl_Frame env (cl_framer c) (set_correlation_id env (next_correlation_id c) m) = Inr b) h (req_view c)"
proof -
  let ?c = "c\<lparr>next_correlation_id := next_correlation_id c + 1,
    pending_responses := hm_emplace (next_correlation_id c) h (pending_responses c), pending_requests := pending_requests c + 1\<rparr>"
  let ?r = "cl_Send env (set_correlation_id env (next_correlation_id c) m) ?c"
  have sent: "fst ?r = None \<longleftrightarrow> (\<exists>b. cl_Frame env (cl_framer c) (set_correlation_id env (next_correlation_id c) m) = Inr b)"
    by (auto simp: cl_Send_def split: sum.splits)
  have "snd (cl_SendRequest env m h c) =
      (if fst ?r = None then (snd ?r)\<lparr>request_timers := request_timers (snd ?r) @ [next_correlation_id c]\<rparr> else snd ?r)"
    by (simp add: cl_SendRequest_def Let_def split: prod.splits option.splits)
  moreover have "req_view (snd ?r) = req_view ?c" by simp
  ultimately show ?thesis
    unfolding sent [symmetric] by (auto simp: req_view_def rq_request_def)
qed

lemma req_view_timer: "req_view (cl_on_request_timer i c) = rq_timeout i (req_view c)"
  by (auto simp: cl_on_request_timer_def rq_timeout_def req_view_def cl_emit_def Let_def fun_eq_iff split: option.splits)

lemma req_view_dispatch: "req_view (cl_dispatch env m c) = rq_response (correlation_id env m) (req_view c)"
  by (auto simp: cl_dispatch_def rq_response_def req_view_def cl_emit_def Let_def fun_eq_iff split: option.splits)

lemma rq_responses:
  "(rq_step unsent)\<^sup>*\<^sup>* (hs, req_view c) (hs, req_view (fold (cl_dispatch env) ms c))"
proof (induction ms arbitrary: c)
  case (Cons m ms)
  have "rq_step unsent (hs, req_view c) (hs, req_view (cl_dispatch env m c))"
    unfolding req_view_dispatch by (rule rq_step_response)
  with Cons show ?case by (simp add: converse_rtranclp_into_rtranclp)
qed simp

definition frame_total :: "('f, 'm, 'b, 'q, 'v, 'e) cl_env \<Rightarrow> bool" where
  "frame_total env \<longleftrightarrow> (\<forall>f m. \<exists>b. cl_Frame env f m = Inr b)"

lemma cl_exec_refines:
  assumes "unsent \<or> frame_total env"
  shows "(rq_step unsent)\<^sup>*\<^sup>* (hs, req_view c) (hs @ asked ev, req_view (cl_exec env is_tls ev c))"
proof (cases "req_event ev")
  case False
  then show ?thesis by (cases ev) (simp_all add: req_view_exec del: cl_exec.simps, simp_all add: req_event_def)
next
  case True
  then consider m h where "ev = ClRequest m h" | i where "ev = ClRequestTimer i" | d where "ev = ClRead (Some d)"
    by (auto simp: req_event_def split: cl_event.splits option.splits)
  then show ?thesis
  proof cases
    case 1
    with assms show ?thesis
      by (auto simp: req_view_request frame_total_def intro!: r_into_rtranclp rq_step_request)
  next
    case 2
    then show ?thesis by (auto simp: req_view_timer) (auto simp: req_view_def intro!: r_into_rtranclp rq_step_timeout)
  next
    case 3
    then show ?thesis
      using rq_responses [of unsent hs "c\<lparr>cl_reads_out := r, cl_read_timer := t, cl_idle_timer := u, cl_framer := f\<rparr>" env for r t u f]
      by (auto simp: cl_on_read_def Let_def req_view_emit split: prod.splits sum.splits)
  qed
qed

interpretation request_refinement:
  forward_simulation "cl_step env is_tls" "rq_step unsent" "\<lambda>s. (fst s, req_view (snd s))" "\<lambda>_. unsent \<or> frame_total env"
  by unfold_locales (auto intro: cl_exec_refines)

subsection \<open>Invariants of the request table\<close>

text \<open>The handler of the request with a correlation id: ids count from 1 in the order of the requests.\<close>

definition handler_of :: "'h option list \<Rightarrow> u64 \<Rightarrow> 'h list" where
  "handler_of hs cid = (if 0 < unat cid \<and> unat cid \<le> length hs then handler_list (hs ! (unat cid - 1)) else [])"

text \<open>
  As long as the ids have not wrapped: the handlers called for an id, followed by the one still pending,
  are together exactly the handler of the request with that id.
\<close>

definition rq_settled :: "'h option list \<times> 'h request_table \<Rightarrow> bool" where
  "rq_settled s \<longleftrightarrow>
     (let hs = fst s; v = snd s in
      Suc (length hs) < 2 ^ 64 \<longrightarrow>
        rq_next v = of_nat (Suc (length hs)) \<and>
        (\<forall>cid. rq_answers v cid @ (case hm_find (rq_pending v) cid of Some h \<Rightarrow> handler_list h | None \<Rightarrow> []) = handler_of hs cid) \<and>
        (\<forall>cid. hm_find (rq_pending v) cid = None \<or>
           0 < unat cid \<and> unat cid \<le> length hs \<and> hm_find (rq_pending v) cid = Some (hs ! (unat cid - 1))))"

lemma handler_of_snoc:
  assumes "Suc (Suc (length hs)) < 2 ^ 64"
  shows "handler_of (hs @ [h]) cid = (if cid = of_nat (Suc (length hs)) then handler_list h else handler_of hs cid)"
proof -
  have "unat cid = Suc (length hs) \<longleftrightarrow> cid = of_nat (Suc (length hs))"
    using assms unat_of_nat_u64 [of "Suc (length hs)"] by (auto simp del: of_nat_Suc simp: word_unat_eq_iff)
  then show ?thesis by (auto simp: handler_of_def nth_append)
qed

lemma rq_settled_request:
  assumes "rq_settled (hs, v)"
  shows "rq_settled (hs @ [h], rq_request sent h v)"
proof (cases "Suc (Suc (length hs)) < 2 ^ 64")
  case True
  let ?cid = "of_nat (Suc (length hs)) :: u64"
  have id: "unat ?cid = Suc (length hs)" using True by (subst unat_of_nat_u64) auto
  have old: "rq_next v = ?cid" "hm_find (rq_pending v) cid = None \<or>
      0 < unat cid \<and> unat cid \<le> length hs \<and> hm_find (rq_pending v) cid = Some (hs ! (unat cid - 1))"
    "rq_answers v cid @ (case hm_find (rq_pending v) cid of Some h \<Rightarrow> handler_list h | None \<Rightarrow> []) = handler_of hs cid" for cid
    using assms True by (simp_all add: rq_settled_def)
  have fresh: "hm_find (rq_pending v) ?cid = None" using old(2) [of ?cid] id by auto
  then have answers: "rq_answers v ?cid = []" using old(3) [of ?cid] id by (simp add: handler_of_def)
  let ?find = "hm_find (hm_emplace ?cid h (rq_pending v))"
  have find: "?find cid = (if cid = ?cid then Some h else hm_find (rq_pending v) cid)" for cid
    using fresh by (simp add: hm_find_emplace)
  have "?find cid = None \<or> 0 < unat cid \<and> unat cid \<le> Suc (length hs) \<and> ?find cid = Some ((hs @ [h]) ! (unat cid - 1))" for cid
    using old(2) [of cid] id by (cases "cid = ?cid") (auto simp: find nth_append simp del: of_nat_Suc)
  moreover have "rq_answers v cid @ (case ?find cid of Some h \<Rightarrow> handler_list h | None \<Rightarrow> []) = handler_of (hs @ [h]) cid" for cid
    using old(3) [of cid] answers by (simp add: find handler_of_snoc [OF True] del: of_nat_Suc)
  moreover have "?cid + 1 = of_nat (Suc (Suc (length hs)))" by simp
  ultimately show ?thesis
    using old(1) by (simp add: rq_settled_def rq_request_def Let_def del: of_nat_Suc)
next
  case False
  then show ?thesis by (simp add: rq_settled_def)
qed

lemma rq_settled_timeout: "rq_settled (hs, v) \<Longrightarrow> rq_settled (hs, rq_timeout i v)"
  by (auto simp: rq_settled_def rq_timeout_def Let_def split: option.splits)

lemma rq_settled_response: "rq_settled (hs, v) \<Longrightarrow> rq_settled (hs, rq_response cid v)"
  by (auto simp: rq_settled_def rq_response_def Let_def split: option.splits)
    (metis handler_list_simps append_Nil2)+

text \<open>The counter counts the pending requests, if no request has a null handler.\<close>

definition rq_counted :: "'h option list \<times> 'h request_table \<Rightarrow> bool" where
  "rq_counted s \<longleftrightarrow>
     (let hs = fst s; v = snd s in
      hm_wf (rq_pending v) \<and>
      (Suc (length hs) < 2 ^ 64 \<and> None \<notin> set hs \<longrightarrow>
         (\<forall>cid. hm_find (rq_pending v) cid \<noteq> Some None) \<and> rq_count v = of_nat (length (rq_pending v))))"

lemma of_nat_pred: "Suc m = n \<Longrightarrow> (of_nat n :: u64) - 1 = of_nat m"
  by auto

lemma rq_counted_request:
  assumes "rq_settled (hs, v)" and "rq_counted (hs, v)"
  shows "rq_counted (hs @ [h], rq_request sent h v)"
proof (cases "Suc (Suc (length hs)) < 2 ^ 64")
  case True
  then have "unat (of_nat (Suc (length hs)) :: u64) = Suc (length hs)" by (subst unat_of_nat_u64) auto
  with assms(1) True have "hm_find (rq_pending v) (rq_next v) = None"
    by (auto simp: rq_settled_def Let_def simp del: of_nat_Suc)
  with assms(2) True show ?thesis
    by (cases h) (auto simp: rq_counted_def rq_request_def hm_find_emplace length_hm_emplace Let_def)
qed (use assms in \<open>auto simp: rq_counted_def rq_request_def Let_def\<close>)

lemma rq_counted_fields [simp]:
  "rq_counted (hs, v\<lparr>rq_timers := t\<rparr>) = rq_counted (hs, v)" "rq_counted (hs, v\<lparr>rq_answers := a\<rparr>) = rq_counted (hs, v)"
  by (simp_all add: rq_counted_def)

lemma rq_counted_erase:
  assumes "rq_counted (hs, v)" and "hm_find (rq_pending v) cid = Some h" and "h \<noteq> None \<longrightarrow> n = rq_count v - 1"
  shows "rq_counted (hs, v\<lparr>rq_pending := hm_erase cid (rq_pending v), rq_count := n\<rparr>)"
  using assms of_nat_pred [OF length_hm_erase [OF _ assms(2)]] by (cases h) (auto simp: rq_counted_def Let_def)

lemma rq_counted_timeout: "rq_counted (hs, v) \<Longrightarrow> rq_counted (hs, rq_timeout i v)"
  using rq_counted_erase [of hs "v\<lparr>rq_timers := take i (rq_timers v) @ drop (Suc i) (rq_timers v)\<rparr>" "rq_timers v ! i"]
  by (auto simp: rq_timeout_def Let_def split: option.splits)

lemma rq_counted_response: "rq_counted (hs, v) \<Longrightarrow> rq_counted (hs, rq_response cid v)"
  using rq_counted_erase [of hs v cid _ "rq_count v"] rq_counted_erase [of hs v cid _ "rq_count v - 1"]
  by (auto simp: rq_response_def split: option.splits)

interpretation request_table:
  inductive_invariant "\<lambda>s. rq_settled s \<and> rq_counted s" "rq_step unsent" "\<lambda>s. rq_settled s \<and> rq_counted s"
  by unfold_locales
    (auto intro: rq_settled_request rq_settled_timeout rq_settled_response rq_counted_request rq_counted_timeout
      rq_counted_response)

text \<open>If every request is sent, every pending request has its timer.\<close>

definition rq_timed :: "'h option list \<times> 'h request_table \<Rightarrow> bool" where
  "rq_timed s \<longleftrightarrow> (\<forall>cid. hm_find (rq_pending (snd s)) cid = None \<or> cid \<in> set (rq_timers (snd s)))"

lemma set_remove_nth:
  "i < length xs \<Longrightarrow> x \<notin> set (take i xs) \<Longrightarrow> x \<notin> set (drop (Suc i) xs) \<Longrightarrow> x \<noteq> xs ! i \<Longrightarrow> x \<notin> set xs"
  by (metis Un_iff id_take_nth_drop set_ConsD set_append)

interpretation timed_requests: inductive_invariant rq_timed "rq_step False" rq_timed
proof (unfold_locales, goal_cases)
  case (2 s t)
  then show ?case
    by (auto simp: rq_timed_def rq_ops hm_find_emplace Let_def split: option.splits) (metis set_remove_nth)+
qed

lemma cl_init_table:
  assumes "cl_init s"
  shows "rq_settled (fst s, req_view (snd s))" and "rq_counted (fst s, req_view (snd s))"
    and "rq_timed (fst s, req_view (snd s))"
  using assms by (auto simp: cl_init_def rq_settled_def rq_counted_def rq_timed_def req_view_def handler_of_def)

lemma cl_table_inv:
  assumes "reachable cl_init (cl_step env is_tls) (hs, c)"
  shows "rq_settled (hs, req_view c)" and "rq_counted (hs, req_view c)"
proof -
  from reachable_steps [OF assms] obtain s0 where s0: "cl_init s0" "(cl_step env is_tls)\<^sup>*\<^sup>* s0 (hs, c)" by blast
  have "(rq_step True)\<^sup>*\<^sup>* (fst s0, req_view (snd s0)) (hs, req_view c)"
    using request_refinement.refines [OF s0(2), of True] by simp
  from request_table.steps_inv [OF this] cl_init_table [OF s0(1)]
  show "rq_settled (hs, req_view c)" and "rq_counted (hs, req_view c)" by simp_all
qed

lemma cl_table_timed:
  assumes "reachable cl_init (cl_step env is_tls) (hs, c)" and "frame_total env"
  shows "rq_timed (hs, req_view c)"
proof -
  from reachable_steps [OF assms(1)] obtain s0 where s0: "cl_init s0" "(cl_step env is_tls)\<^sup>*\<^sup>* s0 (hs, c)" by blast
  have "(rq_step False)\<^sup>*\<^sup>* (fst s0, req_view (snd s0)) (hs, req_view c)"
    using request_refinement.refines [OF s0(2), of False] assms(2) by simp
  from timed_requests.steps_inv [OF this] cl_init_table(3) [OF s0(1)] show ?thesis by simp
qed

text \<open>Letting all outstanding request timers run empties the table.\<close>

lemma rq_timers_run:
  "length (rq_timers v) = n \<Longrightarrow> rq_timed (hs, v) \<Longrightarrow>
     rq_timers ((rq_timeout 0 ^^ n) v) = [] \<and> rq_timed (hs, (rq_timeout 0 ^^ n) v)"
proof (induction n arbitrary: v)
  case (Suc n)
  then have "0 < length (rq_timers v)" by simp
  then have step: "rq_step False (hs, v) (hs, rq_timeout 0 v)" by (rule rq_step_timeout)
  have "length (rq_timers (rq_timeout 0 v)) = n"
    using Suc.prems(1) by (simp add: rq_timeout_def Let_def split: option.splits)
  from Suc.IH [OF this timed_requests.preserved [OF step Suc.prems(2)]] show ?case
    by (simp only: funpow_Suc_right comp_apply)
qed simp

lemma cl_timers_run:
  "length (request_timers c) = n \<Longrightarrow>
     req_view (fold (cl_exec env is_tls) (replicate n (ClRequestTimer 0)) c) = (rq_timeout 0 ^^ n) (req_view c)"
proof (induction n arbitrary: c)
  case (Suc n)
  then have "length (request_timers (cl_on_request_timer 0 c)) = n"
    by (simp add: cl_on_request_timer_def cl_emit_def Let_def split: option.splits)
  from Suc.IH [OF this] Suc.prems show ?case
    by (simp add: req_view_timer funpow_Suc_right del: funpow.simps)
qed simp

lemma rq_timeouts_inv:
  "rq_settled (hs, v) \<and> rq_counted (hs, v) \<Longrightarrow>
     rq_settled (hs, (rq_timeout 0 ^^ n) v) \<and> rq_counted (hs, (rq_timeout 0 ^^ n) v)"
  by (induction n) (auto intro: rq_settled_timeout rq_counted_timeout)

subsection \<open>Properties\<close>

definition demo_cl_env :: "(unit, u64 \<times> string, string, unit, unit, string) cl_env" where
  "demo_cl_env =
     \<lparr>cl_Frame = \<lambda>f m. Inr (snd m), cl_PrepareRead = \<lambda>f. f, cl_OnData = \<lambda>f d. (Inr [(of_nat (length d), d)], f),
      correlation_id = fst, set_correlation_id = \<lambda>i m. (i, snd m), plugins_Register = \<lambda>k v q. q,
      has_backpressure = \<lambda>q. True\<rparr>"

definition demo_client :: "(unit, u64 \<times> string, string, unit, string, string) tcp_client" where
  "demo_client =
     (case cl_new False (None :: unit option) () client_config_default () of Inr c \<Rightarrow> c)"

lemma demo_client_init: "cl_init ([], demo_client)"
  by (rule cl_new_init [of False "None :: unit option" "()" client_config_default "()"])
    (simp add: demo_client_def cl_new_def)

text \<open>A connected client that made one request.\<close>

definition demo_asked :: "(unit, u64 \<times> string, string, unit, string, string) tcp_client" where
  "demo_asked =
     fold (cl_exec demo_cl_env False) [ClConnect True, ClResolved (Some True), ClConnected True, ClRequest (0, ''hi'') (Some ''reply'')]
       demo_client"

lemma cl_run_reachable:
  "reachable I (cl_step env is_tls) (hs, c) \<Longrightarrow>
     reachable I (cl_step env is_tls) (hs @ concat (map asked evs), fold (cl_exec env is_tls) evs c)"
proof (induction evs arbitrary: hs c)
  case (Cons ev evs)
  from Cons.IH [OF reachable_step [OF Cons.prems cl_step.intros [of env is_tls hs c ev]]] show ?case by simp
qed simp

lemma demo_asked_reachable: "reachable cl_init (cl_step demo_cl_env False) ([Some ''reply''], demo_asked)"
proof -
  have "reachable cl_init (cl_step demo_cl_env False) ([], demo_client)"
    by (rule reachable_init) (rule demo_client_init)
  from cl_run_reachable [OF this, of "[ClConnect True, ClResolved (Some True), ClConnected True, ClRequest (0, ''hi'') (Some ''reply'')]"]
  show ?thesis by (simp add: demo_asked_def del: cl_exec.simps)
qed




lemma demo_frame_total: "frame_total demo_cl_env"
  by (simp add: frame_total_def demo_cl_env_def)


text \<open>
  The metric is exact: as long as no request is made with a null handler, \<^verbatim>\<open>SnapshotMetrics\<close> reports the
  number of requests that are pending.
\<close>

theorem cl_pending_metric:
  assumes "reachable cl_init (cl_step env is_tls) (hs, c)" and "Suc (length hs) < 2 ^ 64" and "None \<notin> set hs"
  shows "snap_pending_requests (cl_SnapshotMetrics c) = of_nat (length (pending_responses c)) \<and>
    hm_wf (pending_responses c) \<and> length (pending_responses c) \<le> length hs"
proof -
  have c: "rq_counted (hs, req_view c)" "rq_settled (hs, req_view c)" using cl_table_inv [OF assms(1)] by simp_all
  then have wf: "hm_wf (pending_responses c)" by (simp add: rq_counted_def req_view_def)
  have "unat ` fst ` set (pending_responses c) \<subseteq> {0<..length hs}"
    using c(2) assms(2) by (auto simp: rq_settled_def req_view_def Let_def hm_find_def simp del: of_nat_Suc)
      (metis map_of_eq_None_iff fst_conv image_eqI)+
  then have "card (unat ` fst ` set (pending_responses c)) \<le> length hs"
    using card_mono [of "{0<..length hs}"] by simp
  moreover have "card (unat ` fst ` set (pending_responses c)) = length (pending_responses c)"
    using wf by (subst card_image) (simp_all add: hm_wf_def distinct_card [of "map fst _", simplified] inj_on_def word_unat_eq_iff)
  ultimately show ?thesis
    using c(1) assms(2,3) wf by (simp add: rq_counted_def req_view_def cl_SnapshotMetrics_def)
qed

theorem cl_pending_metric_witness:
  "snap_pending_requests (cl_SnapshotMetrics demo_asked) = of_nat (length (pending_responses demo_asked))"
  using cl_pending_metric [OF demo_asked_reachable] by simp

text \<open>
  A null response handler leaks the counter: a response to such a request removes its entry but does not
  count it down, and the timer, which finds no entry, does not either; the message is taken for an
  unsolicited one.
\<close>

theorem cl_null_handler_leaks:
  assumes "hm_find (pending_responses c) (correlation_id env m) = Some None" and "hm_wf (pending_responses c)"
  shows "Suc (length (pending_responses (cl_dispatch env m c))) = length (pending_responses c) \<and>
    pending_requests (cl_dispatch env m c) = pending_requests c \<and>
    cl_log (cl_dispatch env m c) = cl_log c @ (if cl_on_message c then [MessageDelivered m] else [])"
  using assms length_hm_erase [OF assms(2,1)] by (simp add: cl_dispatch_def cl_emit_def)

text \<open>
  A forced close throws in a handler. Closing with force while a read is outstanding closes the socket;
  the read then completes with an error, its handler closes with force again, and \<^verbatim>\<open>cancel()\<close> on the
  closed socket throws out of the completion handler, before the queue, the timers and
  \<^verbatim>\<open>on_disconnect_\<close> are reached. Any further forced close, the destructor's included, throws as well.
\<close>

theorem cl_forced_close_throws:
  assumes "cl_socket_open c" and "0 < cl_reads_out c" and "c1 = cl_exec env is_tls (ClClose True) c"
  shows "cl_log (cl_exec env is_tls (ClRead None) c1) = cl_log c1 @ [Threw BadDescriptor] \<and>
    cl_log (cl_exec env is_tls (ClClose True) c1) = cl_log c1 @ [Threw BadDescriptor] \<and>
    cl_log (cl_destroy env c1) = cl_log c1 @ [Threw BadDescriptor]"
  using assms by (simp add: cl_destroy_def cl_Close_def cl_on_read_def cl_queue_event_def cl_emit_def Let_def)

theorem cl_forced_close_throws_witness:
  "Threw BadDescriptor \<in> set (cl_log (cl_exec demo_cl_env False (ClRead None) (cl_exec demo_cl_env False (ClClose True) demo_asked)))"
proof -
  have "cl_socket_open demo_asked" and "0 < cl_reads_out demo_asked"
    by (simp_all add: demo_asked_def demo_client_def cl_new_def cl_ops cl_threw_def demo_cl_env_def Let_def)
  from cl_forced_close_throws [OF this refl, of demo_cl_env False] show ?thesis by (simp del: cl_exec.simps)
qed

text \<open>
  The connect timeout does not time out connecting. If it expires while the name is being resolved, the
  socket is not open yet, \<^verbatim>\<open>cancel()\<close> throws and the resolution goes on; and the resolve handler cancels
  it before connecting, so connecting and the TLS handshake have no timeout at all.
\<close>

theorem cl_connect_timeout_void:
  assumes "0 < resolves_out c" and "due (connect_timer c) = 0" and "armed (connect_timer c) = 1"
    and "\<not> cl_socket_open c" and "c1 = cl_exec env is_tls (ClResolved (Some opens)) c"
    and "c2 = cl_exec env is_tls ClConnectTimer (cl_exec env is_tls ClConnectExpires c)"
  shows "cl_log c2 = cl_log c @ [Threw BadDescriptor] \<and> resolves_out c2 = resolves_out c \<and>
    connects_out c1 = Suc (connects_out c) \<and>
    cl_exec env is_tls ClConnectTimer (cl_exec env is_tls ClConnectExpires c1) = c1\<lparr>connect_timer := timer_new\<rparr>"
  using assms by (simp add: cl_on_resolved_def cl_on_connect_timer_def cl_emit_def timer_handled_def Let_def timer_defs)

theorem cl_connect_timeout_void_witness:
  "cl_log (cl_exec demo_cl_env False ClConnectTimer (cl_exec demo_cl_env False ClConnectExpires
     (cl_exec demo_cl_env False (ClConnect True) demo_client))) = [Threw BadDescriptor]"
proof -
  let ?c = "cl_exec demo_cl_env False (ClConnect True) demo_client"
  have "0 < resolves_out ?c" "due (connect_timer ?c) = 0" "armed (connect_timer ?c) = 1" "\<not> cl_socket_open ?c" "cl_log ?c = []"
    by (simp_all add: demo_client_def cl_new_def cl_Connect_def timer_defs)
  with cl_connect_timeout_void [OF this(1-4) refl refl, of demo_cl_env False True] show ?thesis
    by (simp del: cl_exec.simps)
qed



end
