(* ===== verification/Client_Example.thy ===== *)
theory Client_Example
  imports Tcp_Client Internal_Message
begin

text \<open>
  \<^verbatim>\<open>src/examples/tcp/client_main_example.h\<close>: the example program for \<^verbatim>\<open>TcpClient\<close>, a TLS client with
  a heartbeat and a disconnect handler that reconnects. Its handlers run inside the client's calls:
  each \<^verbatim>\<open>on_disconnect\<close> the client makes runs the example's handler. That handler waits on a timer that is a local
  variable; destroying an \<^verbatim>\<open>asio\<close> timer completes its waits with \<^verbatim>\<open>operation_aborted\<close>, and the
  wait handler ignores the code, so the wait is over as soon as the handler returns. The example asks a \<^verbatim>\<open>RawBuffer\<close>
  for its deleter, which the class does not offer; the model uses the member.

  The first part is about the client alone: what a client that has been closed can still do when
  it is connected again.
\<close>

subsection \<open>A closed client\<close>

text \<open>What the peer sent, as far as the client passed it on.\<close>

fun is_received :: "('m, 'h, 'e) cl_effect \<Rightarrow> bool" where
  "is_received (MessageDelivered m) = True"
| "is_received (ResponseCalled cid h m) = True"
| "is_received _ = False"

definition received :: "('f, 'm, 'b, 'q, 'h, 'e) tcp_client \<Rightarrow> ('m, 'h, 'e) cl_effect list" where
  "received c = filter is_received (cl_log c)"

lemma received_emit [simp]: "received (cl_emit effs c) = received c @ filter is_received effs"
  by (simp add: received_def cl_emit_def)

lemma cl_queue_event_deaf [simp]:
  "cl_shutdown (cl_queue_event env ev c) = cl_shutdown c" "cl_reads_out (cl_queue_event env ev c) = cl_reads_out c"
  "received (cl_queue_event env ev c) = received c"
  by (simp_all add: cl_queue_event_def Let_def received_def cl_emit_def filter_empty_conv split_beta)

lemma cl_emit_deaf [simp]:
  "cl_shutdown (cl_emit effs c) = cl_shutdown c" "cl_reads_out (cl_emit effs c) = cl_reads_out c"
  by (simp_all add: cl_emit_def)

lemma received_upd [simp]:
  "received (c\<lparr>cl_shutdown := b\<rparr>) = received c" "received (c\<lparr>cl_socket_open := b\<rparr>) = received c"
  "received (c\<lparr>connect_timer := t\<rparr>) = received c" "received (c\<lparr>cl_read_timer := t\<rparr>) = received c"
  "received (c\<lparr>cl_idle_timer := t\<rparr>) = received c" "received (c\<lparr>cl_framer := f\<rparr>) = received c"
  "received (c\<lparr>cl_plugins := p\<rparr>) = received c" "received (c\<lparr>cl_on_message := b\<rparr>) = received c"
  "received (c\<lparr>cl_on_connect := b\<rparr>) = received c" "received (c\<lparr>cl_on_disconnect := b\<rparr>) = received c"
  "received (c\<lparr>next_correlation_id := i\<rparr>) = received c" "received (c\<lparr>pending_responses := r\<rparr>) = received c"
  "received (c\<lparr>pending_requests := n\<rparr>) = received c" "received (c\<lparr>request_timers := ts\<rparr>) = received c"
  "received (c\<lparr>resolves_out := k\<rparr>) = received c" "received (c\<lparr>connects_out := k\<rparr>) = received c"
  "received (c\<lparr>handshakes_out := k\<rparr>) = received c" "received (c\<lparr>cl_reads_out := k\<rparr>) = received c"
  by (simp_all add: received_def)

text \<open>A client that was closed and has no read outstanding.\<close>

definition deaf :: "('f, 'm, 'b, 'q, 'h, 'e) tcp_client \<Rightarrow> bool" where
  "deaf c \<longleftrightarrow> cl_shutdown c \<and> cl_reads_out c = 0"

lemma cl_Close_deaf: "deaf c \<Longrightarrow> deaf (cl_Close env force c) \<and> received (cl_Close env force c) = received c"
  by (auto simp: deaf_def cl_Close_def Let_def)

lemma cl_Send_deaf:
  "deaf c \<Longrightarrow> deaf (snd (cl_Send env m c)) \<and> received (snd (cl_Send env m c)) = received c"
  by (auto simp: deaf_def cl_Send_def split: sum.splits)

lemma cl_SendRequest_deaf:
  "deaf c \<Longrightarrow> deaf (snd (cl_SendRequest env m h c)) \<and> received (snd (cl_SendRequest env m h c)) = received c"
  by (auto simp: deaf_def cl_SendRequest_def cl_Send_def Let_def split: sum.splits)

lemma cl_threw_deaf: "deaf (snd r) \<Longrightarrow> deaf (cl_threw r) \<and> received (cl_threw r) = received (snd r)"
  by (auto simp: deaf_def cl_threw_def split: option.splits)

lemma cl_exec_deaf: "deaf c \<Longrightarrow> deaf (cl_exec env is_tls ev c) \<and> received (cl_exec env is_tls ev c) = received c"
proof (cases ev)
  case (ClSend m)
  assume "deaf c"
  with ClSend show ?thesis using cl_Send_deaf [of c env m] cl_threw_deaf [of "cl_Send env m c"] by simp
next
  case (ClRequest m h)
  assume "deaf c"
  with ClRequest show ?thesis
    using cl_SendRequest_deaf [of c env m h] cl_threw_deaf [of "cl_SendRequest env m h c"] by simp
qed (auto simp: cl_on_timer_def cl_Connect_def cl_on_connect_timer_def cl_on_resolved_def cl_report_connect_def
    cl_on_connected_def cl_DoHandshake_def cl_on_handshake_def cl_StartRead_def cl_on_request_timer_def
    cl_SetOnMessage_def cl_SetOnDisconnect_def cl_RegisterPlugin_def deaf_def Let_def cl_Close_def
    split: option.splits)

subsection \<open>The heartbeat\<close>

datatype example_fault = NullPointer | OutsideBlock | ThrewRb rb_error

definition ping_text :: payload where
  "ping_text = ''PING'' @ [CHR 0x0A]"

text \<open>
  \<^verbatim>\<open>memcpy\<close> into the message's buffer, then the buffer is replaced by one with the same pointer and the
  new size: the temporary is built from the pointer and deleter of the buffer and moved into it, which first resets it.
\<close>

definition ping_into :: "internal_message \<Rightarrow> mem \<Rightarrow> example_fault + internal_message \<times> mem" where
  "ping_into msg h =
     (let rb = im_buffer msg
      in case rb_data rb of
           None \<Rightarrow> Inl NullPointer
         | Some p \<Rightarrow>
             (case mem_write h p 0 ping_text of
                None \<Rightarrow> Inl OutsideBlock
              | Some h1 \<Rightarrow>
                  (case rb_new (rb_data rb) (length ping_text) (rb_deleter rb) of
                     Inl e \<Rightarrow> Inl (ThrewRb e)
                   | Inr temp \<Rightarrow>
                       (let (reset, h2) = rb_Reset rb h1;
                            (this, temp') = rb_MoveFrom reset temp
                        in Inr (msg\<lparr>im_buffer := this\<rparr>, rb_destroy temp' h2)))))"

text \<open>\<^verbatim>\<open>send_heartbeat\<close> up to its \<^verbatim>\<open>Send\<close>, on a message made by the default constructor.\<close>

definition ex_heartbeat :: "mem \<Rightarrow> example_fault + internal_message \<times> mem" where
  "ex_heartbeat h = ping_into im_default h"

subsection \<open>The program\<close>

record ('f, 'm, 'b, 'q, 'h, 'e) example =
  ex_client :: "('f, 'm, 'b, 'q, 'h, 'e) tcp_client"
  ex_waits :: nat
  ex_stopped :: bool

definition ex_config :: client_config where
  "ex_config = \<lparr>connect_timeout = 5, read_timeout = 20, idle_timeout = 60, max_queue = 2048\<rparr>"

text \<open>Steps 2 to 7 of \<^verbatim>\<open>main\<close>: client, handlers, first connection.\<close>

definition ex_start :: "'t \<Rightarrow> 'f \<Rightarrow> 'q \<Rightarrow> cl_error + ('f, 'm, 'b, 'q, 'h, 'e) example" where
  "ex_start tls_provider f plugins =
     (case cl_new True (Some tls_provider) f ex_config plugins of
        Inl e \<Rightarrow> Inl e
      | Inr c \<Rightarrow>
          Inr \<lparr>ex_client = cl_Connect True (cl_SetOnDisconnect True (cl_SetOnMessage True c)), ex_waits = 0,
               ex_stopped = False\<rparr>)"

text \<open>
  The disconnect handler: a local timer, one wait on it, and its destruction. \<open>ex_waits\<close> counts the wait
  handlers that are ready to run.
\<close>

definition ex_on_disconnect :: "('f, 'm, 'b, 'q, 'h, 'e) example \<Rightarrow> ('f, 'm, 'b, 'q, 'h, 'e) example" where
  "ex_on_disconnect x =
     (let t = timer_wait timer_new; aborted = armed t in x\<lparr>ex_waits := ex_waits x + aborted\<rparr>)"

definition disconnects :: "('f, 'm, 'b, 'q, 'h, 'e) tcp_client \<Rightarrow> nat" where
  "disconnects c = length (filter (\<lambda>eff. case eff of DisconnectCalled \<Rightarrow> True | _ \<Rightarrow> False) (cl_log c))"

text \<open>The client at work, with the example's handler called as often as the client calls it.\<close>

definition ex_client_event ::
  "('f, 'm, 'b, 'q, 'v, 'e) cl_env \<Rightarrow> ('m, 'b, 'h, 'v) cl_event \<Rightarrow>
   ('f, 'm, 'b, 'q, 'h, 'e) example \<Rightarrow> ('f, 'm, 'b, 'q, 'h, 'e) example" where
  "ex_client_event env ev x =
     (let c = cl_exec env True ev (ex_client x)
      in (ex_on_disconnect ^^ (disconnects c - disconnects (ex_client x))) (x\<lparr>ex_client := c\<rparr>))"

text \<open>The wait handler calls \<^verbatim>\<open>do_connect\<close>, whatever the error code.\<close>

definition ex_retry :: "('f, 'm, 'b, 'q, 'h, 'e) example \<Rightarrow> ('f, 'm, 'b, 'q, 'h, 'e) example" where
  "ex_retry x =
     (if ex_waits x = 0 then x
      else x\<lparr>ex_waits := ex_waits x - 1, ex_client := cl_Connect True (ex_client x)\<rparr>)"

text \<open>Step 10: close and stop the I/O context, after which no handler runs.\<close>

definition ex_quit ::
  "('f, 'm, 'b, 'q, 'v, 'e) cl_env \<Rightarrow> ('f, 'm, 'b, 'q, 'h, 'e) example \<Rightarrow> ('f, 'm, 'b, 'q, 'h, 'e) example" where
  "ex_quit env x = (ex_client_event env (ClClose False :: ('m, 'b, 'h, 'v) cl_event) x)\<lparr>ex_stopped := True\<rparr>"

inductive ex_step ::
  "('f, 'm, 'b, 'q, 'v, 'e) cl_env \<Rightarrow> ('f, 'm, 'b, 'q, 'h, 'e) example \<Rightarrow> ('f, 'm, 'b, 'q, 'h, 'e) example \<Rightarrow> bool"
  for env :: "('f, 'm, 'b, 'q, 'v, 'e) cl_env" where
  ex_net: "\<not> ex_stopped x \<Longrightarrow> ex_step env x (ex_client_event env ev x)"
| ex_wait: "\<not> ex_stopped x \<Longrightarrow> ex_step env x (ex_retry x)"
| ex_end: "\<not> ex_stopped x \<Longrightarrow> ex_step env x (ex_quit env x)"

lemma ex_client_event_client [simp]: "ex_client (ex_client_event env ev x) = cl_exec env True ev (ex_client x)"
proof -
  have "ex_client ((ex_on_disconnect ^^ n) y) = ex_client y" for n and y :: "('a, 'b, 'c, 'd, 'e, 'f) example"
    by (induction n) (simp_all add: ex_on_disconnect_def Let_def)
  then show ?thesis by (simp add: ex_client_event_def Let_def)
qed

lemma ex_step_client:
  assumes "ex_step env x y"
  shows "\<exists>ev. ex_client y = cl_exec env True ev (ex_client x) \<or> ex_client y = ex_client x"
  using assms
proof (induction rule: ex_step.induct)
  case (ex_wait x)
  have "ex_client (ex_retry x) = ex_client x \<or> ex_client (ex_retry x) = cl_exec env True (ClConnect True) (ex_client x)"
    by (simp add: ex_retry_def)
  then show ?case by blast
next
  case (ex_net x ev)
  show ?case by (rule exI [of _ ev]) simp
next
  case (ex_end x)
  show ?case by (rule exI [of _ "ClClose False"]) (simp add: ex_quit_def)
qed

lemma ex_step_deaf:
  "ex_step env x y \<Longrightarrow> deaf (ex_client x) \<Longrightarrow> deaf (ex_client y) \<and> received (ex_client y) = received (ex_client x)"
  by (drule ex_step_client) (use cl_exec_deaf in fastforce)

lemma ex_steps_deaf:
  "(ex_step env)\<^sup>*\<^sup>* x y \<Longrightarrow> deaf (ex_client x) \<Longrightarrow> deaf (ex_client y) \<and> received (ex_client y) = received (ex_client x)"
  by (induction rule: rtranclp_induct) (auto dest: ex_step_deaf)

text \<open>The error of the only outstanding read.\<close>

lemma cl_read_error_deaf:
  assumes "cl_reads_out c = 1"
  shows "deaf (cl_exec env is_tls (ClRead None) c) \<and> received (cl_exec env is_tls (ClRead None) c) = received c"
  using assms by (auto simp: cl_on_read_def cl_Close_def deaf_def Let_def)

lemma cl_read_error_reports:
  assumes "cl_reads_out c = 1" and "cl_socket_open c" and "cl_on_disconnect c"
  shows "disconnects (cl_exec env is_tls (ClRead None) c) = Suc (disconnects c)"
  using assms
  by (simp add: cl_on_read_def cl_Close_def cl_queue_event_def cl_emit_def disconnects_def Let_def split_beta comp_def)

subsection \<open>Properties\<close>

text \<open>
  A closed client stays deaf. After a read error, which closes the client, nothing the peer sends is ever
  passed on again and no read is ever started, however often the client is connected again:
  \<^verbatim>\<open>Connect\<close> does not clear \<^verbatim>\<open>shutdown_\<close>, and \<^verbatim>\<open>StartRead\<close> does nothing while it is set.
\<close>

theorem cl_reconnect_deaf:
  assumes "cl_reads_out c = 1" and "c' = fold (cl_exec env is_tls) evs (cl_exec env is_tls (ClRead None) c)"
  shows "cl_reads_out c' = 0 \<and> received c' = received c"
proof -
  have "deaf c \<Longrightarrow> deaf (fold (cl_exec env is_tls) evs c) \<and> received (fold (cl_exec env is_tls) evs c) = received c" for c
    by (induction evs arbitrary: c) (simp_all add: cl_exec_deaf)
  with cl_read_error_deaf [OF assms(1), of env is_tls] show ?thesis by (simp add: assms(2) deaf_def)
qed

theorem cl_reconnect_deaf_witness:
  "received (fold (cl_exec demo_cl_env False) [ClConnect True, ClResolved (Some True), ClConnected True, ClRead (Some ''x'')]
     (cl_exec demo_cl_env False (ClRead None) demo_asked)) = received demo_asked"
  by (rule cl_reconnect_deaf [THEN conjunct2, OF _ refl])
    (simp add: demo_asked_def demo_client_def cl_new_def cl_ops demo_cl_env_def wq_event_def wq_start_def wq_ops
      client_config_default_def cl_threw_def Let_def)

text \<open>
  The example's reconnect is immediate and in vain. When its connection breaks, a wait handler that
  connects again is ready at once, not after the three seconds it asks for; and in every later
  state of the program no message has been delivered beyond those delivered before.
\<close>

theorem example_reconnects_deaf:
  assumes "cl_reads_out (ex_client x) = 1" and "cl_socket_open (ex_client x)" and "cl_on_disconnect (ex_client x)"
    and "(ex_step env)\<^sup>*\<^sup>* (ex_client_event env (ClRead None) x) y"
  shows "ex_waits (ex_client_event env (ClRead None) x) = Suc (ex_waits x) \<and>
    cl_reads_out (ex_client y) = 0 \<and> received (ex_client y) = received (ex_client x)"
proof -
  have "ex_waits (ex_client_event env (ClRead None) x) = Suc (ex_waits x)"
    using cl_read_error_reports [OF assms(1-3), of env True]
    by (simp add: ex_client_event_def Let_def ex_on_disconnect_def timer_defs del: cl_exec.simps)
  with ex_steps_deaf [OF assms(4)] cl_read_error_deaf [OF assms(1), of env True] show ?thesis
    by (simp add: deaf_def del: cl_exec.simps)
qed

text \<open>The example connected, the handshake done.\<close>

definition demo_example :: "(unit, u64 \<times> string, string, unit, string, string) example" where
  "demo_example =
     (case ex_start () () () of
        Inr x \<Rightarrow> x\<lparr>ex_client := fold (cl_exec demo_cl_env True) [ClResolved (Some True), ClConnected True, ClHandshake True] (ex_client x)\<rparr>)"

theorem example_reconnects_deaf_witness:
  "received (ex_client (ex_retry (ex_client_event demo_cl_env (ClRead None) demo_example))) = received (ex_client demo_example)"
proof -
  let ?x = demo_example and ?y = "ex_client_event demo_cl_env (ClRead None) demo_example"
  have x: "cl_reads_out (ex_client ?x) = 1" "cl_socket_open (ex_client ?x)" "cl_on_disconnect (ex_client ?x)" "\<not> ex_stopped ?x"
    by (simp_all add: demo_example_def ex_start_def cl_new_def cl_ops demo_cl_env_def Let_def)
  have "ex_stopped ((ex_on_disconnect ^^ n) z) = ex_stopped z" for n and z :: "(unit, u64 \<times> string, string, unit, string, string) example"
    by (induction n) (simp_all add: ex_on_disconnect_def Let_def)
  then have "\<not> ex_stopped ?y" using x(4) by (simp add: ex_client_event_def Let_def del: cl_exec.simps)
  then have "(ex_step demo_cl_env)\<^sup>*\<^sup>* ?y (ex_retry ?y)" by (intro r_into_rtranclp ex_wait)
  from example_reconnects_deaf [OF x(1-3) this] show ?thesis by simp
qed

text \<open>
  The heartbeat cannot work. A message made by the default constructor has no memory, so the first heartbeat
  writes through a null pointer; and for a message that does own enough memory, the replacement of
  the buffer frees the block it keeps pointing to, so that destroying the message frees it twice.
\<close>

theorem example_heartbeat_faults:
  assumes "im_buffer msg = \<lparr>rb_data = Some p, rb_size = length bs, rb_deleter = Some op_delete\<rparr>"
    and "live h p = Some bs" and "5 \<le> length bs"
  shows "ex_heartbeat h' = Inl NullPointer \<and>
    (\<exists>msg' h2. ping_into msg h = Inr (msg', h2) \<and> rb_data (im_buffer msg') = Some p \<and> live h2 p = None \<and>
       bad_free (im_destroy msg' h2))"
proof -
  have "length ping_text = 5" by (simp add: ping_text_def)
  then show ?thesis
    using assms
    by (simp add: ex_heartbeat_def ping_into_def im_default_def mem_write_def rb_new_def Option.is_none_def
        rb_Reset_def rb_MoveFrom_eq op_delete_def rb_destroy_def im_destroy_def Let_def)
qed

theorem example_heartbeat_faults_witness:
  "\<exists>msg' h2. ping_into (im_default\<lparr>im_buffer := \<lparr>rb_data = Some 0, rb_size = 8, rb_deleter = Some op_delete\<rparr>\<rparr>)
       \<lparr>live = [0 \<mapsto> ''........''], next_addr = 1, budget = 0, bad_free = False\<rparr> = Inr (msg', h2) \<and>
     bad_free (im_destroy msg' h2)"
  using example_heartbeat_faults [of "im_default\<lparr>im_buffer := \<lparr>rb_data = Some 0, rb_size = 8, rb_deleter = Some op_delete\<rparr>\<rparr>"
      0 "''........''" "\<lparr>live = [0 \<mapsto> ''........''], next_addr = 1, budget = 0, bad_free = False\<rparr>" mem0]
  by auto

end
