(* ===== verification/Spec2Isabelle.thy ===== *)
theory Spec2Isabelle
  imports Line_Session Pool_Spec Pool_Progress Log_Callbacks Log_Shutdown Tls_Providers Server_Example Client_Example
begin

text \<open>
  Vectro is a C++ networking library (namespace \<^verbatim>\<open>vectro\<close>, under \<^verbatim>\<open>src/src/vectro\<close>). A \<^verbatim>\<open>TcpServer\<close> runs one
  \<^verbatim>\<open>AcceptorLoop\<close> per port; an accepted connection becomes a \<^verbatim>\<open>Session\<close>, which reads through a framer,
  writes directly or through a \<^verbatim>\<open>WriteQueueSG\<close>, and is registered in the \<^verbatim>\<open>SessionManager\<close> of a
  \<^verbatim>\<open>Controller\<close>. The controller routes messages into \<^verbatim>\<open>Channel\<close>s, each with a \<^verbatim>\<open>TaskMultiProcessor\<close> (a
  pool of worker threads), and sends responses through the sessions. \<^verbatim>\<open>TcpClient\<close> is the other end of a
  connection, with requests matched to responses. \<^verbatim>\<open>RawBuffer\<close>, \<^verbatim>\<open>InternalMessage\<close>, \<^verbatim>\<open>PluginBundle\<close>,
  the TLS context providers and \<^verbatim>\<open>LogAdapter\<close> serve the others.

  \<^bold>\<open>Theories and sources.\<close> Each theory translates the files named, one definition per member function or
  completion handler, with the members of a class as a record.

  \<^item> \<open>Prelude\<close>: widths, hash maps, reachable states, and the interfaces stated as locales:
    \<open>inductive_invariant\<close> and \<open>forward_simulation\<close> (proof principles for the state machines),
    \<open>keyed_store\<close>, \<open>bounded_queue\<close>, \<open>counting_queue\<close> (contracts of containers and queues).
  \<^item> \<open>Raw_Buffer\<close>, \<open>Internal_Message\<close>, \<open>Simple_Line_Framer\<close>: \<^verbatim>\<open>frame/\<close>, over an explicit heap of blocks in
    which freeing a block that is not live is an error. No double free, no leak, exact framing of lines,
    the read protocol of \<^verbatim>\<open>framer_base.h\<close>.
  \<^item> \<open>Plugin_Bundle\<close>: \<^verbatim>\<open>plugin/\<close>. Merge against overlay.
  \<^item> \<open>Write_Queue_SG\<close>: \<^verbatim>\<open>stream/write_queue_sg.h\<close> with the stream as environment. Order, limits, draining,
    what a failed write leaves behind.
  \<^item> \<open>Session\<close>, \<open>Session_Manager\<close>: \<^verbatim>\<open>session.h\<close>, \<^verbatim>\<open>session_manager.h\<close>. One read and one write at a time, one
    end, graceful draining, the timeouts; the registry and its effect on the store of session objects
    (locale \<open>closable_sessions\<close>).
  \<^item> \<open>Line_Session\<close>: a session reading through the line framer, from the bytes on the wire to the message
    handler; what an empty line does to it.
  \<^item> \<open>Task_Multi_Processor\<close>, \<open>Task_Concurrency\<close>: \<^verbatim>\<open>pool/task_multi_processor.h\<close>, first operation by
    operation (circuit breaker, stealing, futures), then as threads interleaved at every atomic access
    and critical section: no task lost or run twice, order, the counter, shutdown.
  \<^item> \<open>Pool_Spec\<close>: the specification of that pool, a bag of tasks with a fixed number of servers, which the
    interleaved threads refine in every scheduling mode; its futures under cancellation.
  \<^item> \<open>Pool_Life\<close>, \<open>Pool_Shutdown\<close>: construction with thread affinity, setters and final callback of the
    same pool; type safety (no thread ever faults); the workers terminate and the destructor returns unless a
    worker missed the signal.
  \<^item> \<open>Pool_Progress\<close>: no wake-up is lost while submitters work, and the workers of a running pool can execute
    everything that was submitted.
  \<^item> \<open>Log_Adapter\<close>: \<^verbatim>\<open>log/log_adapter.h\<close>, operations and interleaved threads: order, no lost wake-up,
    termination of the worker.
  \<^item> \<open>Log_Callbacks\<close>, \<open>Log_Shutdown\<close>: the lock-free registration of callbacks under contention; the
    destructor's wait, join and detach, the default logger and the macros.
  \<^item> \<open>Channel\<close>, \<open>Controller\<close>: \<^verbatim>\<open>channel.h\<close>, \<^verbatim>\<open>controller.h\<close>. Life cycle of channels, registration, routing.
  \<^item> \<open>Tls_Providers\<close>: \<^verbatim>\<open>tls/\<close> (locale \<open>context_provider\<close>). Safe reload; the timer that cannot start.
  \<^item> \<open>Acceptor_Loop\<close>: \<^verbatim>\<open>tcp/tcp_acceptor_interface.h\<close>, \<^verbatim>\<open>tcp/tcp_acceptor_loop.h\<close>. The loop refines the
    abstract acceptor of its interface, never stops listening by itself, and times every accept.
  \<^item> \<open>Tcp_Server\<close>: \<^verbatim>\<open>tcp/tcp_server.h\<close>, \<^verbatim>\<open>tls/detail/stream_traits.h\<close>, over a heap of loops. What \<^verbatim>\<open>Start\<close>
    does, \<^verbatim>\<open>Stop\<close> is final, ids are unique across ports, and a second \<^verbatim>\<open>Start\<close> orphans loops.
  \<^item> \<open>Tcp_Client\<close>: \<^verbatim>\<open>tcp/tcp_client.h\<close>. The client refines an abstract request table; every request is
    answered exactly once; the metric; what a forced close and the connect timeout do.
  \<^item> \<open>Client_Example\<close>: \<^verbatim>\<open>src/examples/tcp/client_main_example.h\<close>. A closed client stays deaf when it is
    connected again; the example's reconnect and heartbeat.
  \<^item> \<open>Server_Example\<close>: \<^verbatim>\<open>src/examples/tcp/server_main_example.h\<close>. Two servers of different stream types on
    one controller: which sessions the shutdown reaches, and what the first message does.
  \<^item> this theory: what spans components, from the controller to the session of an accepted connection.

  \<^bold>\<open>Conventions.\<close> What the code dispatches to a strand or does under one mutex from start to end is one
  atomic step; where threads share state without that (the pool, the log adapter), steps are the single
  atomic accesses and critical sections, in any order. Outstanding operations (reads, writes, accepts,
  timer waits) are part of the state, and the environment completes them in any order with any result.
  Exceptions and undefined behaviour are values: a fault, an error result, or an effect in a log. Counters
  are 64-bit words and wrap; properties about ids hold until they wrap and say so. No loop needs fuel:
  every function terminates, and threads that may run forever are step relations.

  \<^bold>\<open>Parameters.\<close> What the repository uses and does not define is a field of an environment record: the
  framer's \<^verbatim>\<open>Frame\<close>, interceptors, the metadata members \<^verbatim>\<open>channel\<close>, \<^verbatim>\<open>dest_session\<close> and \<^verbatim>\<open>correlation_id\<close>, the
  session's \<^verbatim>\<open>meta()\<close>, \<^verbatim>\<open>SessionManager::Drain\<close>, the router, the plugin bundle's \<^verbatim>\<open>Register\<close> and typed
  \<^verbatim>\<open>Get\<close>, the loading of certificates, user callbacks. The hypotheses about them are \<open>channel_is_separate\<close>
  (assigning a channel changes no other member of a session), \<open>drain_is_close\<close> (\<^verbatim>\<open>Drain\<close> is the registry's
  \<^verbatim>\<open>Close\<close>), \<open>outbound_to_sessions\<close> (sending is the session's \<^verbatim>\<open>AsyncSend\<close>) and \<open>frame_total\<close> (the framer does
  not throw), \<open>example_hooks\<close> (the hooks the server example installs); each property that uses one is applied to a concrete environment after it.

  \<^bold>\<open>Not modelled.\<close> The lengths of durations (a timer may expire at any time, the timeout of the log
  destructor may or may not pass); handlers that call back into the object that calls them; orderings
  weaker than sequential consistency; of the server example, the members it uses and the repository does not
  define (the router's session variable is an argument, unregistering a session has no effect); tests,
  tools and build files.
\<close>

section \<open>From the controller to the socket\<close>

text \<open>The controller sends through the sessions of the store.\<close>

definition outbound_to_sessions :: "('f, 'm, 'b, 'p, 'i, 'e) al_env \<Rightarrow> bool" where
  "outbound_to_sessions env \<longleftrightarrow> session_AsyncSend (al_ctl env) = store_AsyncSend (al_ses env)"

text \<open>
  C19. A message reaches exactly the session it is for. On a server in any state it can reach, an outbound
  message whose metadata names the id of a session that has not ended - accepted on whatever port - is
  sent by that session and touches no other.
\<close>

theorem outbound_reaches_its_session:
  assumes "reachable (\<lambda>s. srv_init s \<and> channel_is_separate env \<and> drain_is_close env) (srv_step env is_tls may) (S, W)"
    and "Suc (next_obj W) < 2 ^ 64" and "p < next_obj W" and "\<not> shutdown_in_progress (ctl_world (ctl W) p)"
    and "outbound_to_sessions env"
    and "meta_dest_session (al_ctl env) m = Some (ses_id (ctl_world (ctl W) p))"
  shows "ctl_world (ctl_HandleOutbound (al_ctl env) m (ctl W)) q =
    (if q = p then ses_AsyncSend (al_ses env) m (ctl_world (ctl W) p) else ctl_world (ctl W) q)"
proof -
  have ids: "srv_ids W" using session_numbering.reachable_inv [OF assms(1)] by simp
  have "sm_Get (ses_id (ctl_world (ctl W) p)) (ctl_sessions (ctl W)) = Some p"
    using srv_ids_lookup [OF ids assms(2,3)] assms(4) by (simp split: option.splits)
  with assms(5,6) show ?thesis
    by (simp add: ctl_HandleOutbound_def outbound_to_sessions_def store_AsyncSend_def ctl_emit_def Let_def)
qed

theorem outbound_reaches_its_session_witness:
  "ctl_world (ctl_HandleOutbound (al_ctl demo_al_env) ''hello'' (ctl (snd demo_srv))) 0 =
     ses_AsyncSend demo_env ''hello'' (ctl_world (ctl (snd demo_srv)) 0)"
proof -
  have "\<not> shutdown_in_progress (ctl_world (ctl (snd demo_srv)) 0)" and "ses_id (ctl_world (ctl (snd demo_srv)) 0) = 1"
    by (simp_all add: demo_srv_def demo_srv_defs accepted_session_def)
      (simp_all add: demo_al_env_def demo_world_def demo_defs ses_new_def ses_ops)
  with outbound_reaches_its_session [OF demo_srv_reachable_pair, of 0 "''hello''" 0] show ?thesis
    by (simp add: demo_srv_one outbound_to_sessions_def demo_al_env_def)
qed

end
